(* ===== verification/Isolyx_Prelude.thy ===== *)
theory Isolyx_Prelude
  imports Main "HOL-Library.Word" "HOL-Library.Multiset"
begin

text \<open>
  Shared vocabulary of the development: machine integers of the C++ code, the undefined
  behaviours the code can run into, list facts for deques, and the character classes of the
  \<open>C\<close> locale. The collections below gather the facts the component theories simplify with.
\<close>

named_theorems int32_simps \<open>facts on signed 32-bit values\<close>
named_theorems deque_simps \<open>facts on the deque operations\<close>
named_theorems io_simps \<open>facts on stream extraction\<close>

section \<open>Machine integers\<close>

text \<open>C++ \<open>int\<close> and \<open>uint64_t\<close> of the x86-64 Linux ABI.\<close>

type_synonym int32 = "32 word"
type_synonym uint64 = "64 word"

text \<open>What the C++ standard leaves undefined and the code can reach.\<close>

datatype ub = Empty_Deque | Signed_Overflow

definition int32_min :: int where "int32_min = - 2147483648"
definition int32_max :: int where "int32_max = 2147483647"

definition in_int32 :: "int \<Rightarrow> bool" where
  "in_int32 x \<longleftrightarrow> int32_min \<le> x \<and> x \<le> int32_max"

text \<open>Signed addition: undefined when the mathematical sum does not fit.\<close>

definition sadd32 :: "int32 \<Rightarrow> int32 \<Rightarrow> ub + int32" where
  "sadd32 a b = (if in_int32 (sint a + sint b) then Inr (a + b) else Inl Signed_Overflow)"

lemma in_int32_sint [int32_simps]: "in_int32 (sint (a :: int32))"
  using sint_range_size [of a] by (simp add: in_int32_def int32_min_def int32_max_def size_word.rep_eq)

lemma sint_sadd32:
  assumes "sadd32 a b = Inr c"
  shows "sint c = sint a + sint b"
proof -
  from assms have r: "in_int32 (sint a + sint b)" and c: "c = a + b"
    by (auto simp: sadd32_def split: if_splits)
  have "sint (a + b) = signed_take_bit 31 (sint a + sint b)"
    by (simp add: signed_take_bit_add sint_word_ariths(1))
  also have "\<dots> = sint a + sint b"
    using r by (simp add: signed_take_bit_int_eq_self in_int32_def int32_min_def int32_max_def)
  finally show ?thesis by (simp add: c)
qed

lemma sadd32_Inr_iff: "(\<exists>c. sadd32 a b = Inr c) \<longleftrightarrow> in_int32 (sint a + sint b)"
  by (auto simp: sadd32_def)

section \<open>Deques\<close>

text \<open>\<open>std::deque::erase\<close> at an iterator is \<open>erase_at\<close> at its index.\<close>

definition erase_at :: "nat \<Rightarrow> 'a list \<Rightarrow> 'a list" where
  "erase_at i xs = take i xs @ drop (Suc i) xs"

lemma mset_erase_at [deque_simps]:
  "i < length xs \<Longrightarrow> add_mset (xs ! i) (mset (erase_at i xs)) = mset xs"
proof -
  assume "i < length xs"
  then have "xs = take i xs @ xs ! i # drop (Suc i) xs"
    by (rule id_take_nth_drop)
  then have "mset xs = mset (take i xs @ xs ! i # drop (Suc i) xs)"
    by (rule arg_cong)
  then show ?thesis by (simp add: erase_at_def)
qed

lemma length_erase_at [deque_simps]:
  "i < length xs \<Longrightarrow> length (erase_at i xs) = length xs - 1"
  by (simp add: erase_at_def)

lemma set_erase_at_subset: "set (erase_at i xs) \<subseteq> set xs"
  by (auto simp: erase_at_def dest: in_set_takeD in_set_dropD)

lemma erase_at_0 [simp]: "erase_at 0 (x # xs) = xs"
  by (simp add: erase_at_def)

section \<open>Characters and stream extraction\<close>

type_synonym bytes = string

text \<open>\<open>std::isspace\<close> in the \<open>C\<close> locale.\<close>

definition isspace :: "char \<Rightarrow> bool" where
  "isspace c \<longleftrightarrow> c \<in> {CHR '' '', CHR 0x09, CHR 0x0A, CHR 0x0B, CHR 0x0C, CHR 0x0D}"

definition no_space :: "string \<Rightarrow> bool" where
  "no_space s \<longleftrightarrow> list_all (\<lambda>c. \<not> isspace c) s"

text \<open>
  \<open>stream >> token\<close>: skip whitespace, then take characters up to the next whitespace or the
  end; the extraction fails when nothing is left (\<open>None\<close>).
\<close>

definition next_token :: "string \<Rightarrow> (string \<times> string) option" where
  "next_token s =
     (case dropWhile isspace s of
        [] \<Rightarrow> None
      | c # cs \<Rightarrow> Some (takeWhile (\<lambda>c. \<not> isspace c) (c # cs),
                      dropWhile (\<lambda>c. \<not> isspace c) (c # cs)))"

lemma next_token_shrinks [io_simps, dest]:
  assumes "next_token s = Some (t, r)"
  shows "length r < length s"
proof -
  from assms obtain c cs where d: "dropWhile isspace s = c # cs"
    and r: "r = dropWhile (\<lambda>c. \<not> isspace c) (c # cs)"
    by (auto simp: next_token_def split: list.splits)
  have "\<not> isspace c" using hd_dropWhile [of isspace s] d by auto
  with r have "length r \<le> length cs" by (simp add: length_dropWhile_le)
  also have "\<dots> < length (dropWhile isspace s)" by (simp add: d)
  also have "\<dots> \<le> length s" by (rule length_dropWhile_le)
  finally show ?thesis .
qed

lemma next_token_wf:
  assumes "next_token s = Some (t, r)"
  shows "t \<noteq> []" and "no_space t"
proof -
  from assms obtain c cs where d: "dropWhile isspace s = c # cs"
    and t: "t = takeWhile (\<lambda>c. \<not> isspace c) (c # cs)"
    by (auto simp: next_token_def split: list.splits)
  have "\<not> isspace c" using hd_dropWhile [of isspace s] d by auto
  then show "t \<noteq> []" by (simp add: t)
  show "no_space t"
    by (auto simp: t no_space_def list_all_iff dest!: set_takeWhileD split: if_splits)
qed

lemma next_token_append [io_simps]:
  assumes "t \<noteq> []" and "no_space t" and "rest = [] \<or> isspace (hd rest)"
  shows "next_token (t @ rest) = Some (t, rest)"
proof -
  from assms obtain c cs where t: "t = c # cs" and c: "\<not> isspace c"
    by (cases t) (auto simp: no_space_def)
  have "takeWhile (\<lambda>c. \<not> isspace c) (t @ rest) = t"
    using assms by (cases rest) (auto simp: no_space_def list_all_iff takeWhile_append)
  moreover have "dropWhile (\<lambda>c. \<not> isspace c) (t @ rest) = rest"
    using assms by (cases rest) (auto simp: no_space_def list_all_iff dropWhile_append)
  moreover have "dropWhile isspace (t @ rest) = t @ rest" by (simp add: t c)
  ultimately show ?thesis by (simp add: next_token_def t)
qed

lemma next_token_skip [io_simps]: "isspace c \<Longrightarrow> next_token (c # s) = next_token s"
  by (simp add: next_token_def)

lemma next_token_Nil [io_simps, simp]: "next_token [] = None"
  by (simp add: next_token_def)

text \<open>
  \<open>std::getline (stream, segment, d)\<close> called until it fails: a segment ends at the delimiter,
  which is dropped, or at the end of the input; no segment follows a final delimiter.
\<close>

function getlines :: "char \<Rightarrow> string \<Rightarrow> string list" where
  "getlines d s =
     (if s = [] then []
      else takeWhile (\<lambda>c. c \<noteq> d) s #
        (case dropWhile (\<lambda>c. c \<noteq> d) s of [] \<Rightarrow> [] | _ # r \<Rightarrow> getlines d r))"
  by pat_completeness auto
termination
proof (relation "measure (\<lambda>(d, s). length s)", goal_cases)
  case (2 d s x r)
  then have "length (x # r) \<le> length s" by (metis length_dropWhile_le)
  then show ?case by simp
qed simp

declare getlines.simps [simp del]

lemma getlines_Nil [simp]: "getlines d [] = []"
  by (simp add: getlines.simps)

lemma getlines_last: "s \<noteq> [] \<Longrightarrow> d \<notin> set s \<Longrightarrow> getlines d s = [s]"
proof -
  assume "s \<noteq> []" and d: "d \<notin> set s"
  moreover from d have "takeWhile (\<lambda>c. c \<noteq> d) s = s"
    by (auto simp: takeWhile_eq_all_conv)
  moreover from d have "dropWhile (\<lambda>c. c \<noteq> d) s = []"
    by (simp only: dropWhile_eq_Nil_conv) auto
  ultimately show ?thesis by (subst getlines.simps) (simp del: dropWhile_eq_Nil_conv)
qed

lemma getlines_append: "d \<notin> set s \<Longrightarrow> getlines d (s @ d # r) = s # getlines d r"
proof -
  assume d: "d \<notin> set s"
  then have "takeWhile (\<lambda>c. c \<noteq> d) (s @ d # r) = s"
    and "dropWhile (\<lambda>c. c \<noteq> d) (s @ d # r) = d # r"
    by (auto simp: takeWhile_append dropWhile_append)
  then show ?thesis by (subst getlines.simps) simp
qed

lemma getlines_no_delim: "seg \<in> set (getlines d s) \<Longrightarrow> d \<notin> set seg"
proof (induction d s rule: getlines.induct)
  case (1 d s)
  show ?case
  proof (cases "seg = takeWhile (\<lambda>c. c \<noteq> d) s")
    case True
    then show ?thesis by (auto dest: set_takeWhileD)
  next
    case False
    with "1.prems" have "s \<noteq> []" by auto
    moreover from False "1.prems" obtain x r where dw: "dropWhile (\<lambda>c. c \<noteq> d) s = x # r"
        and "seg \<in> set (getlines d r)"
      using getlines.simps [of d s] by (auto simp del: dropWhile_eq_Nil_conv split: if_splits list.splits)
    ultimately show ?thesis using "1.IH" by blast
  qed
qed

section \<open>Decimal text\<close>

text \<open>The digits \<open>std::to_string\<close>, \<open>operator<<\<close> and the \<open>%d\<close> conversion produce.\<close>

definition digit :: "nat \<Rightarrow> char" where
  "digit d = char_of (48 + d)"

fun digits :: "nat \<Rightarrow> string" where
  "digits n = (if n < 10 then [digit n] else digits (n div 10) @ [digit (n mod 10)])"

declare digits.simps [simp del]

definition show_int :: "int \<Rightarrow> string" where
  "show_int i = (if i < 0 then CHR ''-'' # digits (nat (- i)) else digits (nat i))"

lemma digits_length: "n < 10 ^ k \<Longrightarrow> 0 < k \<Longrightarrow> length (digits n) \<le> k"
proof (induction k arbitrary: n)
  case (Suc k)
  show ?case
  proof (cases "n < 10")
    case True
    then show ?thesis by (simp add: digits.simps)
  next
    case False
    with Suc.prems have "0 < k" by (cases k) auto
    moreover have "n div 10 < 10 ^ k"
      using Suc.prems by (simp add: less_mult_imp_div_less mult.commute)
    ultimately have "length (digits (n div 10)) \<le> k" by (rule Suc.IH [rotated])
    with False show ?thesis by (simp add: digits.simps [of n])
  qed
qed simp

lemma digits_not_Nil [simp]: "digits n \<noteq> []"
  by (simp add: digits.simps [of n])

lemma show_int32_length: "length (show_int (sint (w :: int32))) \<le> 11"
proof -
  have r: "- 2147483648 \<le> sint w" "sint w \<le> 2147483647"
    using in_int32_sint [of w] by (simp_all add: in_int32_def int32_min_def int32_max_def)
  have "nat (sint w) < 10000000000" "nat (- sint w) < 10000000000"
    using r by linarith+
  then have "length (digits (nat (sint w))) \<le> 10" "length (digits (nat (- sint w))) \<le> 10"
    using digits_length [of "nat (sint w)" 10] digits_length [of "nat (- sint w)" 10] by simp_all
  then show ?thesis by (simp add: show_int_def)
qed

text \<open>\<open>snprintf\<close> into a buffer of \<open>n\<close> bytes keeps at most \<open>n - 1\<close> characters.\<close>

definition snprintf :: "nat \<Rightarrow> string \<Rightarrow> string" where
  "snprintf n s = take (n - 1) s"

definition is_digit :: "char \<Rightarrow> bool" where
  "is_digit c \<longleftrightarrow> 48 \<le> (of_char c :: nat) \<and> (of_char c :: nat) \<le> 57"

definition digit_value :: "char \<Rightarrow> nat" where
  "digit_value c = of_char c - 48"

definition decimal_value :: "string \<Rightarrow> nat" where
  "decimal_value ds = foldl (\<lambda>n c. 10 * n + digit_value c) 0 ds"

lemma digit_ok: "d < 10 \<Longrightarrow> is_digit (digit d) \<and> digit_value (digit d) = d"
  by (simp add: is_digit_def digit_value_def digit_def)

lemma digits_are_digits: "list_all is_digit (digits n)"
proof (induction n rule: digits.induct)
  case (1 n)
  then show ?case by (subst digits.simps) (simp add: digit_ok)
qed

lemma decimal_value_snoc: "decimal_value (ds @ [c]) = 10 * decimal_value ds + digit_value c"
  by (simp add: decimal_value_def)

text \<open>Reading the digits back gives the number.\<close>

lemma decimal_value_digits [simp]: "decimal_value (digits n) = n"
proof (induction n rule: digits.induct)
  case (1 n)
  show ?case
  proof (cases "n < 10")
    case True
    then show ?thesis by (simp add: digits.simps decimal_value_def digit_ok)
  next
    case False
    with 1 show ?thesis
      by (simp add: digits.simps [of n] decimal_value_snoc digit_ok)
  qed
qed

text \<open>
  \<open>std::stoi\<close>: leading whitespace, an optional sign, digits, anything after; \<open>None\<close> when it
  throws \<open>invalid_argument\<close> (no digit) or \<open>out_of_range\<close>.
\<close>

definition stoi :: "string \<Rightarrow> int32 option" where
  "stoi s =
     (let t = dropWhile isspace s;
          (neg, u) = (case t of c # r \<Rightarrow> if c = CHR ''-'' then (True, r)
                                        else if c = CHR ''+'' then (False, r) else (False, t)
                       | [] \<Rightarrow> (False, []));
          ds = takeWhile is_digit u;
          v = (if neg then - int (decimal_value ds) else int (decimal_value ds))
      in if ds = [] \<or> \<not> in_int32 v then None else Some (word_of_int v))"

end
