(* ===== verification/Command_Parser.thy ===== *)
theory Command_Parser
  imports Isolyx_Prelude
begin

text \<open>
  The shell's command language: \<open>include/Command.hpp\<close> and \<open>src/Parser.cpp\<close>. A line is cut into
  whitespace-separated tokens by stream extraction; the first is the executable, the markers
  \<open>&\<close>, \<open>>\<close> and \<open><\<close> are interpreted anywhere after it. The loop over the stream is shown to
  compute a fold over the token list, which gives each word the role it has by its place; every
  parsed command is well formed, and a rendered well-formed command parses back to itself.
\<close>

section \<open>Model\<close>

record command =
  executable :: string
  arguments :: "string list"
  isBackground :: bool
  redirectInput :: string
  redirectOutput :: string

definition new_command :: command where
  "new_command = \<lparr>executable = [], arguments = [], isBackground = False,
     redirectInput = [], redirectOutput = []\<rparr>"

definition isEmpty :: "command \<Rightarrow> bool" where
  "isEmpty c \<longleftrightarrow> executable c = []"

text \<open>
  The body of \<open>while (stream >> token)\<close>: after \<open>>\<close> or \<open><\<close> a second extraction supplies the
  file name, and when it fails the next test of the loop fails too.
\<close>

function parse_loop :: "command \<Rightarrow> string \<Rightarrow> command" where
  "parse_loop c s =
     (case next_token s of
        None \<Rightarrow> c
      | Some (token, r) \<Rightarrow>
          if token = ''&'' then parse_loop (c\<lparr>isBackground := True\<rparr>) r
          else if token = ''>'' then
            (case next_token r of
               None \<Rightarrow> c
             | Some (f, r') \<Rightarrow> parse_loop (c\<lparr>redirectOutput := f\<rparr>) r')
          else if token = ''<'' then
            (case next_token r of
               None \<Rightarrow> c
             | Some (f, r') \<Rightarrow> parse_loop (c\<lparr>redirectInput := f\<rparr>) r')
          else parse_loop (c\<lparr>arguments := arguments c @ [token]\<rparr>) r)"
  by pat_completeness auto
termination
  by (relation "measure (\<lambda>(c, s). length s)") (auto dest!: next_token_shrinks)

declare parse_loop.simps [simp del]

definition parseLine :: "string \<Rightarrow> command" where
  "parseLine input =
     (if input = [] then new_command
      else case next_token input of
             None \<Rightarrow> parse_loop new_command []
           | Some (token, r) \<Rightarrow>
               parse_loop (new_command\<lparr>executable := token, arguments := [token]\<rparr>) r)"

definition parsePipeline :: "string \<Rightarrow> command list" where
  "parsePipeline input = map parseLine (getlines (CHR ''|'') input)"

section \<open>The token list of a line and the fold over it\<close>

function tokens :: "string \<Rightarrow> string list" where
  "tokens s = (case next_token s of None \<Rightarrow> [] | Some (t, r) \<Rightarrow> t # tokens r)"
  by pat_completeness auto
termination
  by (relation "measure length") (auto dest!: next_token_shrinks)

declare tokens.simps [simp del]

fun interpret_tokens :: "command \<Rightarrow> string list \<Rightarrow> command" where
  "interpret_tokens c [] = c"
| "interpret_tokens c [t] =
     (if t = ''&'' then c\<lparr>isBackground := True\<rparr>
      else if t = ''>'' \<or> t = ''<'' then c
      else c\<lparr>arguments := arguments c @ [t]\<rparr>)"
| "interpret_tokens c (t # f # ts) =
     (if t = ''&'' then interpret_tokens (c\<lparr>isBackground := True\<rparr>) (f # ts)
      else if t = ''>'' then interpret_tokens (c\<lparr>redirectOutput := f\<rparr>) ts
      else if t = ''<'' then interpret_tokens (c\<lparr>redirectInput := f\<rparr>) ts
      else interpret_tokens (c\<lparr>arguments := arguments c @ [t]\<rparr>) (f # ts))"

lemma tokens_None: "next_token s = None \<Longrightarrow> tokens s = []"
  by (simp add: tokens.simps [of s])

lemma tokens_Some: "next_token s = Some (t, r) \<Longrightarrow> tokens s = t # tokens r"
  by (simp add: tokens.simps [of s])

lemma tokens_Nil [simp]: "tokens [] = []"
  by (simp add: tokens_None)

lemma next_token_Nil_iff: "next_token s = None \<longleftrightarrow> tokens s = []"
  by (cases "next_token s") (auto simp: tokens_None tokens_Some)

lemma parse_loop_tokens: "parse_loop c s = interpret_tokens c (tokens s)"
proof (induction c s rule: parse_loop.induct)
  case (1 c s)
  show ?case
  proof (cases "next_token s")
    case None
    then show ?thesis by (simp add: parse_loop.simps [of c s] tokens_None)
  next
    case (Some p)
    then obtain t r where s: "next_token s = Some (t, r)" by (cases p) auto
    note IH = "1.IH" [OF s refl]
    show ?thesis
    proof (cases "next_token r")
      case None
      then have "tokens s = [t]" using s by (simp add: tokens_Some tokens_None)
      with None s IH show ?thesis
        by (auto simp: parse_loop.simps [of c s] tokens_None)
    next
      case (Some q)
      then obtain f r' where r: "next_token r = Some (f, r')" by (cases q) auto
      then have ts: "tokens s = t # f # tokens r'" and tr: "tokens r = f # tokens r'"
        using s by (simp_all add: tokens_Some)
      from s r IH show ?thesis
        by (simp add: parse_loop.simps [of c s] ts tr)
    qed
  qed
qed

definition command_of_tokens :: "string list \<Rightarrow> command" where
  "command_of_tokens ts =
     (case ts of
        [] \<Rightarrow> new_command
      | t # r \<Rightarrow> interpret_tokens (new_command\<lparr>executable := t, arguments := [t]\<rparr>) r)"

lemma parseLine_eq: "parseLine s = command_of_tokens (tokens s)"
proof (cases "next_token s")
  case None
  then have "parseLine s = parse_loop new_command [] \<or> parseLine s = new_command"
    by (auto simp: parseLine_def)
  with None show ?thesis
    by (auto simp: parse_loop_tokens command_of_tokens_def tokens_None)
next
  case (Some p)
  then obtain t r where "next_token s = Some (t, r)" by (cases p) auto
  then show ?thesis
    by (auto simp: parseLine_def parse_loop_tokens command_of_tokens_def tokens_Some)
qed

section \<open>What a line means\<close>

text \<open>The words of a line are its longest pieces without white space.\<close>

fun pieces :: "string \<Rightarrow> string list" where
  "pieces [] = [[]]"
| "pieces (c # s) =
     (if isspace c then [] # pieces s else (c # hd (pieces s)) # tl (pieces s))"

definition line_words :: "string \<Rightarrow> string list" where
  "line_words s = filter (\<lambda>w. w \<noteq> []) (pieces s)"

text \<open>What a word is depends on the word and on what the word before it is.\<close>

datatype role = Program | Argument | Background_mark | Output_mark | Input_mark | Output_file | Input_file

definition role_after :: "role \<Rightarrow> string \<Rightarrow> role" where
  "role_after p w =
     (if p = Output_mark then Output_file else if p = Input_mark then Input_file
      else if w = ''&'' then Background_mark else if w = ''>'' then Output_mark
      else if w = ''<'' then Input_mark else Argument)"

fun roles :: "role \<Rightarrow> string list \<Rightarrow> (role \<times> string) list" where
  "roles p [] = []"
| "roles p (w # ws) = (role_after p w, w) # roles (role_after p w) ws"

definition line_roles :: "string \<Rightarrow> (role \<times> string) list" where
  "line_roles s = (case line_words s of [] \<Rightarrow> [] | w # ws \<Rightarrow> (Program, w) # roles Program ws)"

definition having :: "role \<Rightarrow> (role \<times> string) list \<Rightarrow> string list" where
  "having r rs = map snd (filter (\<lambda>x. fst x = r) rs)"

lemma having_simps [simp]:
  "having r [] = []" "having r ((r', w) # rs) = (if r' = r then w # having r rs else having r rs)"
  by (simp_all add: having_def)

lemma pieces_not_Nil [simp]: "pieces s \<noteq> []"
  by (cases s) auto

lemma pieces_word: "no_space w \<Longrightarrow> pieces (w @ r) = (w @ hd (pieces r)) # tl (pieces r)"
  by (induction w) (auto simp: no_space_def)

lemma line_words_skip: "isspace c \<Longrightarrow> line_words (c # s) = line_words s"
  by (simp add: line_words_def)

lemma line_words_dropWhile: "line_words (dropWhile isspace s) = line_words s"
  by (induction s) (auto simp: line_words_skip)

lemma line_words_word:
  assumes "w \<noteq> []" "no_space w" "r = [] \<or> isspace (hd r)"
  shows "line_words (w @ r) = w # line_words r"
proof (cases r)
  case (Cons c r')
  with assms show ?thesis by (simp add: line_words_def pieces_word)
qed (use assms pieces_word [of w "[]"] in \<open>simp add: line_words_def\<close>)

lemma line_words_tokens: "line_words s = tokens s"
proof (induction s rule: tokens.induct)
  case (1 s)
  show ?case
  proof (cases "dropWhile isspace s")
    case Nil
    then have "next_token s = None" unfolding next_token_def by (simp only: list.case)
    moreover have "line_words s = []" using line_words_dropWhile [of s] Nil by (simp add: line_words_def)
    ultimately show ?thesis by (simp add: tokens_None)
  next
    case (Cons c cs)
    define w r where "w = takeWhile (\<lambda>c. \<not> isspace c) (c # cs)" and "r = dropWhile (\<lambda>c. \<not> isspace c) (c # cs)"
    have s: "next_token s = Some (w, r)" using Cons by (simp add: next_token_def w_def r_def)
    have "r = [] \<or> isspace (hd r)" using hd_dropWhile [of "\<lambda>c. \<not> isspace c" "c # cs"] unfolding r_def by blast
    with next_token_wf [OF s] have "line_words (w @ r) = w # line_words r" by (rule line_words_word)
    moreover have "w @ r = c # cs" unfolding w_def r_def by (rule takeWhile_dropWhile_id)
    ultimately show ?thesis using 1 [OF s refl] line_words_dropWhile [of s] Cons s by (simp add: tokens_Some)
  qed
qed

lemma interpret_roles:
  "p \<noteq> Output_mark \<Longrightarrow> p \<noteq> Input_mark \<Longrightarrow> interpret_tokens c ws =
     c\<lparr>arguments := arguments c @ having Argument (roles p ws),
       isBackground := isBackground c \<or> having Background_mark (roles p ws) \<noteq> [],
       redirectInput := last (redirectInput c # having Input_file (roles p ws)),
       redirectOutput := last (redirectOutput c # having Output_file (roles p ws))\<rparr>"
proof (induction c ws arbitrary: p rule: interpret_tokens.induct)
  case (3 c t f ts)
  consider "t = ''&''" | "t = ''>''" | "t = ''<''" | "t \<noteq> ''&''" "t \<noteq> ''>''" "t \<noteq> ''<''" by blast
  then show ?case
  proof cases
    case 1
    then have "roles p (t # f # ts) = (Background_mark, t) # roles Background_mark (f # ts)"
      using 3 by (simp only: roles.simps(2) [of p] role_after_def) simp
    then show ?thesis using 1 "3.IH"(1) [OF 1, of Background_mark] by (simp del: roles.simps)
  next
    case 2
    then have "roles p (t # f # ts) = (Output_mark, t) # (Output_file, f) # roles Output_file ts"
      using 3 by (simp add: role_after_def)
    then show ?thesis using 2 "3.IH"(2) [of Output_file] by (simp del: roles.simps)
  next
    case t: 3
    then have "roles p (t # f # ts) = (Input_mark, t) # (Input_file, f) # roles Input_file ts"
      using 3 by (simp add: role_after_def)
    then show ?thesis using t "3.IH"(3) [of Input_file] by (simp del: roles.simps)
  next
    case 4
    then have "roles p (t # f # ts) = (Argument, t) # roles Argument (f # ts)"
      using 3 by (simp only: roles.simps(2) [of p] role_after_def) simp
    then show ?thesis using 4 "3.IH"(4) [OF 4, of Argument] by (simp del: roles.simps)
  qed
qed (simp_all add: role_after_def)

lemma parseLine_roles:
  "parseLine s = \<lparr>executable = concat (having Program (line_roles s)),
     arguments = having Program (line_roles s) @ having Argument (line_roles s),
     isBackground = (having Background_mark (line_roles s) \<noteq> []),
     redirectInput = last ([] # having Input_file (line_roles s)),
     redirectOutput = last ([] # having Output_file (line_roles s))\<rparr>"
proof (cases "tokens s")
  case Nil
  then show ?thesis by (simp add: parseLine_eq command_of_tokens_def line_roles_def line_words_tokens new_command_def)
next
  case (Cons w ws)
  have "having Program (roles p us) = []" for p us
    by (induction us arbitrary: p) (simp_all add: role_after_def)
  with Cons show ?thesis
    using interpret_roles [of Program "new_command\<lparr>executable := w, arguments := [w]\<rparr>" ws]
    by (simp add: parseLine_eq command_of_tokens_def line_roles_def line_words_tokens new_command_def)
qed

text \<open>
  C26: what a line means, from its words alone. The first word is the program and the first argument.
  The word after a \<open>>\<close> or a \<open><\<close> is the name of a file, whatever it looks like; of several names
  for the output, or for the input, the last one counts, and a marker at the end of the line
  counts for nothing. Any other word \<open>&\<close>, anywhere, puts the command into the background; all
  remaining words are the arguments, in their order. The loop of \<open>parseLine\<close>, which extracts from
  the stream in two places, computes exactly that for every line.
\<close>

theorem parseLine_tokens:
  "parseLine s = \<lparr>executable = concat (having Program (line_roles s)),
     arguments = having Program (line_roles s) @ having Argument (line_roles s),
     isBackground = (having Background_mark (line_roles s) \<noteq> []),
     redirectInput = last ([] # having Input_file (line_roles s)),
     redirectOutput = last ([] # having Output_file (line_roles s))\<rparr>"
  by (rule parseLine_roles)

section \<open>Well-formed commands\<close>

definition marker :: "string \<Rightarrow> bool" where
  "marker t \<longleftrightarrow> t = ''&'' \<or> t = ''>'' \<or> t = ''<''"

definition word_ok :: "string \<Rightarrow> bool" where
  "word_ok t \<longleftrightarrow> t \<noteq> [] \<and> no_space t"

definition arg_ok :: "string \<Rightarrow> bool" where
  "arg_ok t \<longleftrightarrow> word_ok t \<and> \<not> marker t"

text \<open>Every token is a non-empty word without whitespace.\<close>

lemma tokens_words: "list_all word_ok (tokens s)"
proof (induction s rule: tokens.induct)
  case (1 s)
  then show ?case
    by (cases "next_token s")
      (auto simp: tokens_None tokens_Some word_ok_def dest: next_token_wf)
qed

definition wf_command :: "command \<Rightarrow> bool" where
  "wf_command c \<longleftrightarrow>
     (if executable c = [] then c = new_command
      else word_ok (executable c)
        \<and> arguments c \<noteq> [] \<and> hd (arguments c) = executable c
        \<and> list_all arg_ok (tl (arguments c))
        \<and> no_space (redirectInput c) \<and> no_space (redirectOutput c))"

definition wf_running :: "command \<Rightarrow> bool" where
  "wf_running c \<longleftrightarrow> executable c \<noteq> [] \<and> wf_command c"

lemma wf_running_interpret:
  "wf_running c \<Longrightarrow> list_all word_ok ts \<Longrightarrow> wf_running (interpret_tokens c ts)"
proof (induction c ts rule: interpret_tokens.induct)
  case (2 c t)
  then show ?case
    by (auto simp: wf_running_def wf_command_def arg_ok_def marker_def word_ok_def)
next
  case (3 c t f ts)
  have "t \<noteq> ''&'' \<Longrightarrow> t \<noteq> ''>'' \<Longrightarrow> t \<noteq> ''<'' \<Longrightarrow>
      wf_running (c\<lparr>arguments := arguments c @ [t]\<rparr>)"
    using "3.prems" by (auto simp: wf_running_def wf_command_def arg_ok_def marker_def word_ok_def)
  moreover have "wf_running (c\<lparr>isBackground := True\<rparr>)" "wf_running (c\<lparr>redirectOutput := f\<rparr>)"
    "wf_running (c\<lparr>redirectInput := f\<rparr>)"
    using "3.prems" by (auto simp: wf_running_def wf_command_def word_ok_def)
  ultimately show ?case using "3.IH" "3.prems"(2) by auto
qed simp

lemma wf_command_of_tokens: "list_all word_ok ts \<Longrightarrow> wf_command (command_of_tokens ts)"
proof (cases ts)
  case (Cons t r)
  assume "list_all word_ok ts"
  moreover from this Cons have "wf_running (new_command\<lparr>executable := t, arguments := [t]\<rparr>)"
    by (auto simp: wf_running_def wf_command_def word_ok_def no_space_def new_command_def)
  ultimately have "wf_running (command_of_tokens ts)"
    by (simp add: command_of_tokens_def Cons wf_running_interpret)
  then show ?thesis by (simp add: wf_running_def)
qed (simp add: command_of_tokens_def wf_command_def new_command_def)

text \<open>
  C28: every line, however malformed, parses to a well-formed command: either the untouched
  default command, or an executable that is also the first argument, followed by arguments that
  are non-empty, free of whitespace and never one of the markers, with redirection targets free
  of whitespace.
\<close>

theorem parseLine_wf: "wf_command (parseLine s)"
  by (simp add: parseLine_eq wf_command_of_tokens tokens_words)

section \<open>Rendering and round trip\<close>

definition command_tokens :: "command \<Rightarrow> string list" where
  "command_tokens c =
     (if executable c = [] then []
      else arguments c
        @ (if redirectInput c = [] then [] else [''<'', redirectInput c])
        @ (if redirectOutput c = [] then [] else [''>'', redirectOutput c])
        @ (if isBackground c then [''&''] else []))"

fun join :: "char \<Rightarrow> string list \<Rightarrow> string" where
  "join d [] = []"
| "join d [s] = s"
| "join d (s # t # ts) = s @ d # join d (t # ts)"

definition render :: "command \<Rightarrow> string" where
  "render c = join (CHR '' '') (command_tokens c)"

lemma tokens_join: "list_all word_ok ts \<Longrightarrow> tokens (join (CHR '' '') ts) = ts"
proof (induction "CHR '' ''" ts rule: join.induct)
  case (2 s)
  then have "next_token (s @ []) = Some (s, [])"
    by (intro next_token_append) (auto simp: word_ok_def)
  then show ?case by (simp add: tokens_Some)
next
  case (3 s t ts)
  have "next_token (s @ CHR '' '' # join (CHR '' '') (t # ts)) =
      Some (s, CHR '' '' # join (CHR '' '') (t # ts))"
    using 3 by (intro next_token_append) (auto simp: word_ok_def isspace_def)
  moreover have "tokens (CHR '' '' # r) = tokens r" for r
    by (subst (1 2) tokens.simps) (simp add: next_token_skip isspace_def)
  ultimately show ?case using 3 by (simp add: tokens_Some)
qed simp

lemma interpret_args:
  "list_all arg_ok as \<Longrightarrow>
   interpret_tokens c (as @ ts) = interpret_tokens (c\<lparr>arguments := arguments c @ as\<rparr>) ts"
proof (induction as arbitrary: c)
  case (Cons a as)
  then have "interpret_tokens c ((a # as) @ ts) =
      interpret_tokens (c\<lparr>arguments := arguments c @ [a]\<rparr>) (as @ ts)"
    by (cases "as @ ts") (auto simp: arg_ok_def marker_def)
  with Cons show ?case by simp
qed simp

lemma interpret_tail:
  "interpret_tokens c
      ((if i = [] then [] else [''<'', i]) @ (if p = [] then [] else [''>'', p])
        @ (if b then [''&''] else [])) =
   c\<lparr>redirectInput := (if i = [] then redirectInput c else i),
     redirectOutput := (if p = [] then redirectOutput c else p),
     isBackground := (b \<or> isBackground c)\<rparr>"
  by auto

lemma command_of_command_tokens: "wf_command c \<Longrightarrow> command_of_tokens (command_tokens c) = c"
proof (cases "executable c = []")
  case True
  assume "wf_command c"
  with True show ?thesis
    by (simp add: wf_command_def command_tokens_def command_of_tokens_def new_command_def)
next
  case False
  assume wf: "wf_command c"
  with False obtain as where as: "arguments c = executable c # as" "list_all arg_ok as"
    by (cases "arguments c") (auto simp: wf_command_def)
  with False show ?thesis
    by (cases c) (simp add: command_tokens_def command_of_tokens_def interpret_args interpret_tail
        new_command_def)
qed

lemma word_ok_markers [simp]: "word_ok ''<''" "word_ok ''>''" "word_ok ''&''"
  by (simp_all add: word_ok_def no_space_def isspace_def)

lemma arg_ok_word: "list_all arg_ok as \<Longrightarrow> list_all word_ok as"
  by (auto simp: list_all_iff arg_ok_def)

lemma words_command_tokens:
  assumes "wf_command c"
  shows "list_all word_ok (command_tokens c)"
proof (cases "executable c = []")
  case False
  with assms have "list_all word_ok (arguments c)"
    by (cases "arguments c") (simp_all add: wf_command_def arg_ok_word)
  moreover have "redirectInput c \<noteq> [] \<Longrightarrow> word_ok (redirectInput c)"
    "redirectOutput c \<noteq> [] \<Longrightarrow> word_ok (redirectOutput c)"
    using assms False by (simp_all add: wf_command_def word_ok_def)
  ultimately show ?thesis by (simp add: command_tokens_def)
qed (simp add: command_tokens_def)

lemma parseLine_render: "wf_command c \<Longrightarrow> parseLine (render c) = c"
  by (simp add: parseLine_eq render_def tokens_join words_command_tokens
      command_of_command_tokens)

text \<open>
  C27: every well-formed command, with any arguments, redirections and background marker, can be
  written as a line - arguments, redirections, marker, separated by blanks - from which
  \<open>parseLine\<close> gives back that very command: no part of a command is lost or changed.
\<close>

theorem parseLine_roundtrip:
  assumes "wf_command c"
  shows "parseLine (render c) = c"
  by (rule parseLine_render [OF assms])

theorem parseLine_roundtrip_witness:
  "parseLine ''sort -n < in > out &'' = \<lparr>executable = ''sort'', arguments = [''sort'', ''-n''],
     isBackground = True, redirectInput = ''in'', redirectOutput = ''out''\<rparr>"
proof -
  let ?c = "\<lparr>executable = ''sort'', arguments = [''sort'', ''-n''],
     isBackground = True, redirectInput = ''in'', redirectOutput = ''out''\<rparr>"
  have "wf_command ?c" by code_simp
  then have "parseLine (render ?c) = ?c" by (rule parseLine_roundtrip)
  moreover have "render ?c = ''sort -n < in > out &''" by code_simp
  ultimately show ?thesis by simp
qed

section \<open>Pipelines\<close>

lemma getlines_join:
  "list_all (\<lambda>s. d \<notin> set s) ss \<Longrightarrow> ss = [] \<or> last ss \<noteq> [] \<Longrightarrow> getlines d (join d ss) = ss"
  by (induction d ss rule: join.induct) (auto simp: getlines_last getlines_append split: if_splits)

text \<open>
  A line built from segments that contain no bar, joined by bars, is parsed as exactly those
  segments in that order, provided the last one is not empty (a final bar opens no new segment).
\<close>

lemma parsePipeline_join:
  assumes "list_all (\<lambda>s. CHR ''|'' \<notin> set s) ss" and "ss = [] \<or> last ss \<noteq> []"
  shows "parsePipeline (join (CHR ''|'') ss) = map parseLine ss"
  by (simp add: parsePipeline_def getlines_join assms)

lemma parsePipeline_join_example:
  "parsePipeline ''cat < in||wc -l > out'' = map parseLine [''cat < in'', '''', ''wc -l > out'']"
  using parsePipeline_join [of "[''cat < in'', '''', ''wc -l > out'']"] by simp

end
