(* ===== verification/Schedulers.thy ===== *)
theory Schedulers
  imports Command_Parser
begin

text \<open>
  Jobs (\<open>include/Job.hpp\<close>), the scheduler interface (\<open>include/IScheduler.hpp\<close>) and its four
  implementations (\<open>src/FCFSScheduler.cpp\<close>, \<open>src/RoundRobinScheduler.cpp\<close>,
  \<open>src/PriorityScheduler.cpp\<close>, \<open>src/MLFQScheduler.cpp\<close>). A scheduler works on the queue's deque,
  a list whose head is the front. Taking a job from an empty deque, and the signed overflow of
  MLFQ's level, are undefined behaviour in C++ and values of type \<^typ>\<open>ub\<close> here. The interface
  is a locale; each implementation interprets it.
\<close>

section \<open>Model\<close>

record job =
  job_id :: uint64
  cmd :: command
  result_promise :: "nat option"
  priority :: int32
  submit_time :: int
  user_id :: int32
  pid :: int32
  time_quantum :: int32
  elapsed_bursts :: int32
  unique_id :: int32

text \<open>
  \<open>Job{id, cmd, promise}\<close>: the remaining members take their default initialisers. A promise
  shared with the submitter is a reference into the pool's promise store.
\<close>

definition new_job :: "uint64 \<Rightarrow> command \<Rightarrow> nat option \<Rightarrow> job" where
  "new_job i c p = \<lparr>job_id = i, cmd = c, result_promise = p, priority = 0, submit_time = 0,
     user_id = 0, pid = - 1, time_quantum = 0, elapsed_bursts = 0, unique_id = 0\<rparr>"

text \<open>
  \<open>std::min_element\<close> and \<open>std::max_element\<close> over a deque with a comparison that may be
  undefined: the index of the best element so far, replaced only by a strictly better one.
\<close>

fun min_element_loop :: "('a \<Rightarrow> 'a \<Rightarrow> ub + bool) \<Rightarrow> 'a \<Rightarrow> nat \<Rightarrow> nat \<Rightarrow> 'a list \<Rightarrow> ub + nat" where
  "min_element_loop cmp best k i [] = Inr k"
| "min_element_loop cmp best k i (x # xs) =
     (case cmp x best of
        Inl e \<Rightarrow> Inl e
      | Inr b \<Rightarrow> if b then min_element_loop cmp x i (Suc i) xs
                else min_element_loop cmp best k (Suc i) xs)"

fun max_element_loop :: "('a \<Rightarrow> 'a \<Rightarrow> ub + bool) \<Rightarrow> 'a \<Rightarrow> nat \<Rightarrow> nat \<Rightarrow> 'a list \<Rightarrow> ub + nat" where
  "max_element_loop cmp best k i [] = Inr k"
| "max_element_loop cmp best k i (x # xs) =
     (case cmp best x of
        Inl e \<Rightarrow> Inl e
      | Inr b \<Rightarrow> if b then max_element_loop cmp x i (Suc i) xs
                else max_element_loop cmp best k (Suc i) xs)"

text \<open>On an empty deque both return the end iterator, here the length.\<close>

definition min_element :: "('a \<Rightarrow> 'a \<Rightarrow> ub + bool) \<Rightarrow> 'a list \<Rightarrow> ub + nat" where
  "min_element cmp xs = (case xs of [] \<Rightarrow> Inr 0 | x # ys \<Rightarrow> min_element_loop cmp x 0 1 ys)"

definition max_element :: "('a \<Rightarrow> 'a \<Rightarrow> ub + bool) \<Rightarrow> 'a list \<Rightarrow> ub + nat" where
  "max_element cmp xs = (case xs of [] \<Rightarrow> Inr 0 | x # ys \<Rightarrow> max_element_loop cmp x 0 1 ys)"

text \<open>\<open>Job job = std::move(*it); jobs.erase(it); return job;\<close>\<close>

definition move_and_erase :: "nat \<Rightarrow> 'a list \<Rightarrow> ub + ('a \<times> 'a list)" where
  "move_and_erase i xs =
     (if i < length xs then Inr (xs ! i, erase_at i xs) else Inl Empty_Deque)"

text \<open>All four schedulers add at the back; FCFS and round robin take from the front.\<close>

definition FCFS_addJob :: "job list \<Rightarrow> job \<Rightarrow> job list" where
  "FCFS_addJob jobs j = jobs @ [j]"

definition FCFS_getNextJob :: "job list \<Rightarrow> ub + (job \<times> job list)" where
  "FCFS_getNextJob jobs = (case jobs of [] \<Rightarrow> Inl Empty_Deque | j # js \<Rightarrow> Inr (j, js))"

definition RR_addJob :: "job list \<Rightarrow> job \<Rightarrow> job list" where
  "RR_addJob jobs j = jobs @ [j]"

definition RR_getNextJob :: "job list \<Rightarrow> ub + (job \<times> job list)" where
  "RR_getNextJob jobs = (case jobs of [] \<Rightarrow> Inl Empty_Deque | j # js \<Rightarrow> Inr (j, js))"

definition priority_less :: "job \<Rightarrow> job \<Rightarrow> ub + bool" where
  "priority_less a b = Inr (sint (priority a) < sint (priority b))"

definition Priority_addJob :: "job list \<Rightarrow> job \<Rightarrow> job list" where
  "Priority_addJob jobs j = jobs @ [j]"

definition Priority_getNextJob :: "job list \<Rightarrow> ub + (job \<times> job list)" where
  "Priority_getNextJob jobs =
     (case max_element priority_less jobs of Inl e \<Rightarrow> Inl e | Inr i \<Rightarrow> move_and_erase i jobs)"

text \<open>\<open>(a.priority + a.elapsed_bursts) < (b.priority + b.elapsed_bursts)\<close>\<close>

definition mlfq_less :: "job \<Rightarrow> job \<Rightarrow> ub + bool" where
  "mlfq_less a b =
     (case sadd32 (priority a) (elapsed_bursts a) of
        Inl e \<Rightarrow> Inl e
      | Inr x \<Rightarrow> (case sadd32 (priority b) (elapsed_bursts b) of
                    Inl e \<Rightarrow> Inl e
                  | Inr y \<Rightarrow> Inr (sint x < sint y)))"

definition MLFQ_addJob :: "job list \<Rightarrow> job \<Rightarrow> job list" where
  "MLFQ_addJob jobs j = jobs @ [j]"

definition MLFQ_getNextJob :: "job list \<Rightarrow> ub + (job \<times> job list)" where
  "MLFQ_getNextJob jobs =
     (case min_element mlfq_less jobs of Inl e \<Rightarrow> Inl e | Inr i \<Rightarrow> move_and_erase i jobs)"

section \<open>Selection of an extremal element\<close>

text \<open>
  The element at \<open>i\<close> is chosen from \<open>xs\<close> when it is strictly better than every element before it
  and no element after it is strictly better.
\<close>

definition chosen_at :: "('a \<Rightarrow> 'a \<Rightarrow> bool) \<Rightarrow> nat \<Rightarrow> 'a list \<Rightarrow> bool" where
  "chosen_at better i xs \<longleftrightarrow> i < length xs
     \<and> (\<forall>k < i. better (xs ! i) (xs ! k)) \<and> (\<forall>k. i < k \<and> k < length xs \<longrightarrow> \<not> better (xs ! k) (xs ! i))"

text \<open>A strict weak order given by a rank.\<close>

definition rank_better :: "('a \<Rightarrow> int) \<Rightarrow> 'a \<Rightarrow> 'a \<Rightarrow> bool" where
  "rank_better f a b \<longleftrightarrow> f a < f b"

lemma min_element_loop_chosen:
  assumes "\<forall>x \<in> set (ys @ xs). \<forall>y \<in> set (ys @ xs). cmp x y = Inr (rank_better f x y)"
    and "chosen_at (rank_better f) k ys" and "best = ys ! k" and "i = length ys"
  shows "\<exists>k'. min_element_loop cmp best k i xs = Inr k' \<and> chosen_at (rank_better f) k' (ys @ xs)"
  using assms
proof (induction xs arbitrary: ys best k i)
  case Nil
  then show ?case by simp
next
  case (Cons x xs)
  have k: "k < length ys" using Cons.prems(2) by (simp add: chosen_at_def)
  have eq: "cmp x best = Inr (rank_better f x best)"
    using Cons.prems(1,3) k by simp
  show ?case
  proof (cases "rank_better f x best")
    case True
    have "chosen_at (rank_better f) (length ys) (ys @ [x])"
      unfolding chosen_at_def
    proof (intro conjI allI impI)
      fix j assume "j < length ys"
      then have "f best \<le> f (ys ! j)"
        using Cons.prems(2,3) unfolding chosen_at_def rank_better_def
        by (cases "j < k"; cases "j = k") (auto simp: not_less dest: less_imp_le)
      with True \<open>j < length ys\<close>
      show "rank_better f ((ys @ [x]) ! length ys) ((ys @ [x]) ! j)"
        by (simp add: rank_better_def nth_append)
    qed auto
    with Cons.IH [of "ys @ [x]" "length ys" x "Suc i"] Cons.prems True eq
    show ?thesis by simp
  next
    case False
    have "chosen_at (rank_better f) k (ys @ [x])"
      using Cons.prems(2,3) False k
      by (auto simp: chosen_at_def nth_append less_Suc_eq)
    with Cons.IH [of "ys @ [x]" k best "Suc i"] Cons.prems False eq k
    show ?thesis by (simp add: nth_append)
  qed
qed

lemma min_element_chosen:
  assumes "xs \<noteq> []"
    and "\<forall>x \<in> set xs. \<forall>y \<in> set xs. cmp x y = Inr (rank_better f x y)"
  shows "\<exists>k. min_element cmp xs = Inr k \<and> chosen_at (rank_better f) k xs"
proof -
  from assms(1) obtain y ys where xs: "xs = y # ys" by (cases xs) auto
  have "chosen_at (rank_better f) 0 [y]" by (simp add: chosen_at_def)
  with min_element_loop_chosen [of "[y]" ys cmp f 0 y 1] assms(2) show ?thesis
    by (simp add: min_element_def xs)
qed

text \<open>The maximum is the minimum for the reversed comparison.\<close>

lemma max_element_loop_min:
  "max_element_loop cmp best k i xs = min_element_loop (\<lambda>a b. cmp b a) best k i xs"
  by (induction xs arbitrary: best k i) (auto split: sum.splits)

lemma max_element_min: "max_element cmp xs = min_element (\<lambda>a b. cmp b a) xs"
  by (simp add: max_element_def min_element_def max_element_loop_min split: list.split)

text \<open>Taking the chosen element out is one step of a stable sort by rank.\<close>

lemma chosen_at_split:
  assumes "chosen_at (rank_better f) i xs"
  obtains us x vs where "xs = us @ x # vs" and "xs ! i = x" and "erase_at i xs = us @ vs"
    and "\<forall>u \<in> set us. f x < f u" and "\<forall>v \<in> set vs. f x \<le> f v"
proof
  let ?us = "take i xs" and ?vs = "drop (Suc i) xs"
  have i: "i < length xs" using assms by (simp add: chosen_at_def)
  show "xs = ?us @ xs ! i # ?vs" using i by (rule id_take_nth_drop)
  show "erase_at i xs = ?us @ ?vs" by (simp add: erase_at_def)
  show "\<forall>u \<in> set ?us. f (xs ! i) < f u"
    using assms by (auto simp: chosen_at_def rank_better_def in_set_conv_nth)
  show "\<forall>v \<in> set ?vs. f (xs ! i) \<le> f v"
    using assms by (auto simp: chosen_at_def rank_better_def in_set_conv_nth not_less)
qed simp

lemma sort_key_chosen:
  assumes "chosen_at (rank_better f) i xs"
  shows "sort_key f xs = xs ! i # sort_key f (erase_at i xs)"
proof (rule chosen_at_split [OF assms])
  fix us x vs
  assume xs: "xs = us @ x # vs" "xs ! i = x" "erase_at i xs = us @ vs"
    and us: "\<forall>u \<in> set us. f x < f u" and vs: "\<forall>v \<in> set vs. f x \<le> f v"
  have "sort_key f (us @ x # vs) = x # sort_key f (us @ vs)"
  proof (rule properties_for_sort_key)
    show "mset (x # sort_key f (us @ vs)) = mset (us @ x # vs)" by simp
    show "sorted (map f (x # sort_key f (us @ vs)))"
      using us vs by (auto simp: less_imp_le)
  next
    fix k
    have "f k = f x \<Longrightarrow> filter (\<lambda>y. f k = f y) us = []"
      using us by (auto simp: filter_empty_conv)
    then show "filter (\<lambda>y. f k = f y) (x # sort_key f (us @ vs)) =
        filter (\<lambda>y. f k = f y) (us @ x # vs)"
      using sort_key_stable [of f "f k" "us @ vs"] by (auto simp: eq_commute [of "f k"])
  qed
  then show ?thesis unfolding xs(2,3) by (simp only: xs(1))
qed

section \<open>The scheduler contracts\<close>

text \<open>The level MLFQ compares must be representable; the other schedulers do not look at it.\<close>

definition mlfq_level :: "job \<Rightarrow> int" where
  "mlfq_level j = sint (priority j) + sint (elapsed_bursts j)"

definition level_ok :: "job \<Rightarrow> bool" where
  "level_ok j \<longleftrightarrow> in_int32 (mlfq_level j)"

definition any_job :: "job \<Rightarrow> bool" where
  "any_job j \<longleftrightarrow> True"

text \<open>What the job queue relies on: no job is lost, duplicated or invented.\<close>

locale scheduler =
  fixes addJob :: "job list \<Rightarrow> job \<Rightarrow> job list"
    and getNextJob :: "job list \<Rightarrow> ub + (job \<times> job list)"
    and usable :: "job \<Rightarrow> bool"
  assumes addJob_mset: "mset (addJob js j) = add_mset j (mset js)"
    and getNextJob_mset: "getNextJob js = Inr (j, js') \<Longrightarrow> mset js = add_mset j (mset js')"
    and getNextJob_total: "js \<noteq> [] \<Longrightarrow> list_all usable js \<Longrightarrow> \<exists>j js'. getNextJob js = Inr (j, js')"
    and getNextJob_empty: "getNextJob [] = Inl Empty_Deque"
begin

lemma getNextJob_length: "getNextJob js = Inr (j, js') \<Longrightarrow> length js = Suc (length js')"
  using getNextJob_mset [of js j js'] by (metis size_add_mset size_mset)

lemma getNextJob_set: "getNextJob js = Inr (j, js') \<Longrightarrow> set js = insert j (set js')"
  using getNextJob_mset [of js j js'] by (metis set_mset_add_mset_insert set_mset_mset)

lemma addJob_set: "set (addJob js j) = insert j (set js)"
  using addJob_mset [of js j] by (metis set_mset_add_mset_insert set_mset_mset)

end

text \<open>
  What makes a scheduler's order predictable: jobs join at the back, and the next job is the
  front-most of those with the least rank.
\<close>

locale ranked_scheduler =
  fixes addJob :: "job list \<Rightarrow> job \<Rightarrow> job list"
    and getNextJob :: "job list \<Rightarrow> ub + (job \<times> job list)"
    and usable :: "job \<Rightarrow> bool"
    and rank :: "job \<Rightarrow> int"
  assumes addJob_back: "addJob js j = js @ [j]"
    and getNextJob_front: "getNextJob [] = Inl Empty_Deque"
    and getNextJob_erases:
      "getNextJob js = Inr (j, js') \<Longrightarrow> \<exists>i < length js. j = js ! i \<and> js' = erase_at i js"
    and getNextJob_chosen: "js \<noteq> [] \<Longrightarrow> list_all usable js \<Longrightarrow>
      \<exists>i. chosen_at (rank_better rank) i js \<and> getNextJob js = Inr (js ! i, erase_at i js)"

sublocale ranked_scheduler \<subseteq> scheduler
proof
  fix js j js'
  show "mset (addJob js j) = add_mset j (mset js)" by (simp add: addJob_back)
  show "getNextJob [] = Inl Empty_Deque" by (rule getNextJob_front)
  show "mset js = add_mset j (mset js')" if "getNextJob js = Inr (j, js')"
    using getNextJob_erases [OF that] by (auto simp: mset_erase_at)
  show "\<exists>j js'. getNextJob js = Inr (j, js')" if "js \<noteq> []" "list_all usable js"
    using getNextJob_chosen [OF that] by blast
qed

text \<open>Taking jobs out one after another, at most \<open>n\<close> of them.\<close>

fun drain :: "(job list \<Rightarrow> ub + (job \<times> job list)) \<Rightarrow> nat \<Rightarrow> job list \<Rightarrow> ub + job list" where
  "drain next 0 js = Inr []"
| "drain next (Suc n) js =
     (case next js of
        Inl e \<Rightarrow> Inl e
      | Inr (j, js') \<Rightarrow> (case drain next n js' of Inl e \<Rightarrow> Inl e | Inr ds \<Rightarrow> Inr (j # ds)))"

lemma list_all_erase_at: "list_all P js \<Longrightarrow> list_all P (erase_at i js)"
  using set_erase_at_subset [of i js] by (auto simp: list_all_iff)

context ranked_scheduler
begin

lemma drain_sorts:
  "list_all usable js \<Longrightarrow> n = length js \<Longrightarrow> drain getNextJob n js = Inr (sort_key rank js)"
proof (induction n arbitrary: js)
  case 0
  then show ?case by simp
next
  case (Suc n)
  then have "js \<noteq> []" by auto
  with Suc.prems obtain i where i: "chosen_at (rank_better rank) i js"
    and g: "getNextJob js = Inr (js ! i, erase_at i js)"
    using getNextJob_chosen by blast
  have "n = length (erase_at i js)"
    using i Suc.prems by (simp add: chosen_at_def length_erase_at)
  then have "drain getNextJob n (erase_at i js) = Inr (sort_key rank (erase_at i js))"
    by (intro Suc.IH) (simp_all add: list_all_erase_at Suc.prems)
  then show ?case by (simp add: g sort_key_chosen [OF i])
qed

lemma next_is_least:
  assumes "js \<noteq> []" and "list_all usable js" and "getNextJob js = Inr (j, js')"
  shows "\<forall>k \<in> set js. rank j \<le> rank k"
proof -
  obtain i where i: "chosen_at (rank_better rank) i js" and "j = js ! i"
    using getNextJob_chosen [OF assms(1,2)] assms(3) by auto
  with chosen_at_split [OF i] show ?thesis by (metis in_set_conv_decomp less_imp_le
      set_ConsD Un_iff set_append order_refl)
qed

end

section \<open>The four schedulers meet them\<close>

interpretation fcfs: ranked_scheduler FCFS_addJob FCFS_getNextJob any_job "\<lambda>_. 0"
proof
  fix js :: "job list" and j js'
  show "\<exists>i < length js. j = js ! i \<and> js' = erase_at i js" if "FCFS_getNextJob js = Inr (j, js')"
    using that by (cases js) (auto simp: FCFS_getNextJob_def intro!: exI [of _ 0])
  show "\<exists>i. chosen_at (rank_better (\<lambda>_. 0)) i js
      \<and> FCFS_getNextJob js = Inr (js ! i, erase_at i js)" if "js \<noteq> []"
    using that by (cases js)
      (auto simp: FCFS_getNextJob_def chosen_at_def rank_better_def intro!: exI [of _ 0])
qed (simp_all add: FCFS_addJob_def FCFS_getNextJob_def)

interpretation rr: ranked_scheduler RR_addJob RR_getNextJob any_job "\<lambda>_. 0"
proof -
  have "RR_getNextJob = FCFS_getNextJob" "RR_addJob = FCFS_addJob"
    by (simp_all add: fun_eq_iff RR_getNextJob_def FCFS_getNextJob_def RR_addJob_def
        FCFS_addJob_def)
  then show "ranked_scheduler RR_addJob RR_getNextJob any_job (\<lambda>_. 0)"
    using fcfs.ranked_scheduler_axioms by simp
qed

lemma move_and_erase_Inr:
  "move_and_erase i js = Inr (j, js') \<Longrightarrow> i < length js \<and> j = js ! i \<and> js' = erase_at i js"
  by (auto simp: move_and_erase_def split: if_splits)

lemma priority_less_rank:
  "(\<lambda>a b. priority_less b a) = (\<lambda>a b. Inr (rank_better (\<lambda>j. - sint (priority j)) a b))"
  by (auto simp: fun_eq_iff priority_less_def rank_better_def)

interpretation prio: ranked_scheduler Priority_addJob Priority_getNextJob any_job "\<lambda>j. - sint (priority j)"
proof
  fix js :: "job list" and j js'
  let ?r = "\<lambda>j. - sint (priority j)"
  show "\<exists>i < length js. j = js ! i \<and> js' = erase_at i js"
    if "Priority_getNextJob js = Inr (j, js')"
    using that by (auto simp: Priority_getNextJob_def split: sum.splits dest!: move_and_erase_Inr)
  show "\<exists>i. chosen_at (rank_better ?r) i js
      \<and> Priority_getNextJob js = Inr (js ! i, erase_at i js)" if "js \<noteq> []"
    using min_element_chosen [of js "\<lambda>a b. Inr (rank_better ?r a b)" ?r] that
    by (auto simp: Priority_getNextJob_def max_element_min priority_less_rank move_and_erase_def
        chosen_at_def)
qed (simp_all add: Priority_addJob_def Priority_getNextJob_def max_element_def move_and_erase_def)

lemma mlfq_less_rank:
  assumes "in_int32 (mlfq_level a)" and "in_int32 (mlfq_level b)"
  shows "mlfq_less a b = Inr (rank_better mlfq_level a b)"
proof -
  from assms obtain x y where "sadd32 (priority a) (elapsed_bursts a) = Inr x"
    and "sadd32 (priority b) (elapsed_bursts b) = Inr y"
    by (auto simp: mlfq_level_def simp flip: sadd32_Inr_iff)
  then show ?thesis
    by (auto simp: mlfq_less_def rank_better_def mlfq_level_def dest!: sint_sadd32)
qed

interpretation mlfq: ranked_scheduler MLFQ_addJob MLFQ_getNextJob level_ok mlfq_level
proof
  fix js :: "job list" and j js'
  show "\<exists>i < length js. j = js ! i \<and> js' = erase_at i js"
    if "MLFQ_getNextJob js = Inr (j, js')"
    using that by (auto simp: MLFQ_getNextJob_def split: sum.splits dest!: move_and_erase_Inr)
  show "\<exists>i. chosen_at (rank_better mlfq_level) i js
      \<and> MLFQ_getNextJob js = Inr (js ! i, erase_at i js)" if "js \<noteq> []" "list_all level_ok js"
    using min_element_chosen [of js mlfq_less mlfq_level] that
    by (auto simp: MLFQ_getNextJob_def move_and_erase_def chosen_at_def level_ok_def
        list_all_iff mlfq_less_rank)
qed (simp_all add: MLFQ_addJob_def MLFQ_getNextJob_def min_element_def move_and_erase_def)

section \<open>Properties\<close>

text \<open>
  Draining a first-come-first-served queue hands out the jobs in the order they were added,
  whatever their priorities.
\<close>

lemma fcfs_order:
  "drain FCFS_getNextJob (length js) (foldl FCFS_addJob [] js) = Inr js"
proof -
  have "foldl FCFS_addJob ks js = ks @ js" for ks
    by (induction js arbitrary: ks) (simp_all add: FCFS_addJob_def)
  moreover have "drain FCFS_getNextJob (length js) js = Inr js"
    by (induction js) (simp_all add: FCFS_getNextJob_def)
  ultimately show ?thesis by simp
qed

text \<open>
  Draining the priority scheduler's deque hands out the jobs as a stable sort by descending
  priority does: higher priorities first, equal priorities in submission order, every job exactly
  once.
\<close>

lemma priority_order:
  "drain Priority_getNextJob (length js) js = Inr (sort_key (\<lambda>j. - sint (priority j)) js)"
  by (rule prio.drain_sorts) (simp_all add: any_job_def list_all_iff)

text \<open>
  C24: as long as priority plus bursts fits an int for every queued job, draining the MLFQ deque
  hands out the jobs as a stable sort by that level does, so a job that was preempted more often
  comes later and equal levels keep their order.
\<close>

theorem mlfq_order:
  assumes "list_all level_ok js"
  shows "drain MLFQ_getNextJob (length js) js = Inr (sort_key mlfq_level js)"
  using assms by (rule mlfq.drain_sorts) simp

definition sample_job :: "nat \<Rightarrow> int \<Rightarrow> int \<Rightarrow> job" where
  "sample_job i p b = (new_job (of_nat i) (parseLine ''/cpu_hog'') None)
     \<lparr>priority := of_int p, elapsed_bursts := of_int b\<rparr>"

lemmas sample_simps = sample_job_def new_job_def mlfq_level_def level_ok_def in_int32_def
  int32_min_def int32_max_def

theorem mlfq_order_witness:
  "drain MLFQ_getNextJob 3 [sample_job 1 0 2, sample_job 2 1 0, sample_job 3 1 0] =
     Inr [sample_job 2 1 0, sample_job 3 1 0, sample_job 1 0 2]"
  using mlfq_order [of "[sample_job 1 0 2, sample_job 2 1 0, sample_job 3 1 0]"]
  by (simp add: sample_simps numeral_3_eq_3 del: drain.simps)

lemma mlfq_less_undefined:
  "\<not> level_ok a \<or> \<not> level_ok b \<Longrightarrow> mlfq_less a b = Inl Signed_Overflow"
  by (auto simp: level_ok_def mlfq_level_def mlfq_less_def sadd32_def)

lemma min_element_loop_undefined:
  "xs \<noteq> [] \<Longrightarrow> \<not> list_all level_ok (best # xs) \<Longrightarrow>
   min_element_loop mlfq_less best k i xs = Inl Signed_Overflow"
proof (induction xs arbitrary: best k i)
  case (Cons x xs)
  show ?case
  proof (cases "level_ok x \<and> level_ok best")
    case True
    then have "mlfq_less x best = Inr (rank_better mlfq_level x best)"
      by (simp add: mlfq_less_rank level_ok_def)
    moreover from True Cons.prems have "xs \<noteq> []" "\<not> list_all level_ok xs"
      by (auto simp: list_all_iff)
    ultimately show ?thesis using Cons.IH by simp
  next
    case False
    then show ?thesis by (auto simp: mlfq_less_undefined)
  qed
qed simp

text \<open>
  C29: with two or more jobs queued, taking the next MLFQ job is undefined behaviour exactly when
  the level of some queued job (priority plus bursts) does not fit an int; with a single job the
  level is never computed and the job is returned.
\<close>

theorem mlfq_undefined_iff:
  "(MLFQ_getNextJob (a # b # js) = Inl Signed_Overflow
      \<longleftrightarrow> \<not> list_all level_ok (a # b # js))
   \<and> MLFQ_getNextJob [a] = Inr (a, [])"
proof (intro conjI iffI)
  assume "\<not> list_all level_ok (a # b # js)"
  then show "MLFQ_getNextJob (a # b # js) = Inl Signed_Overflow"
    using min_element_loop_undefined [of "b # js" a 0 1]
    by (simp add: MLFQ_getNextJob_def min_element_def)
next
  assume "MLFQ_getNextJob (a # b # js) = Inl Signed_Overflow"
  then show "\<not> list_all level_ok (a # b # js)"
    using mlfq.getNextJob_total [of "a # b # js"] by auto
qed (simp add: MLFQ_getNextJob_def min_element_def move_and_erase_def erase_at_def)

end
