(* ===== verification/Job_Queue.thy ===== *)
theory Job_Queue
  imports Schedulers
begin

text \<open>
  The job queue of \<open>src/InMemoryJobQueue.cpp\<close> (interface \<open>include/IJobQueue.hpp\<close>): a deque
  behind a mutex, ordered by the scheduler it owns. Each operation is one critical section. The
  blocking wait of \<open>dequeue\<close> is a value: \<open>Blocked\<close> when the wait predicate is false. The wake-up
  side of the condition variable is modelled with the workers, in the worker pool.
\<close>

section \<open>Model\<close>

text \<open>The scheduler object the queue owns; its virtual calls dispatch on the class.\<close>

datatype scheduler_kind = FCFS | RoundRobin | Priority | MLFQ

fun addJob :: "scheduler_kind \<Rightarrow> job list \<Rightarrow> job \<Rightarrow> job list" where
  "addJob FCFS = FCFS_addJob"
| "addJob RoundRobin = RR_addJob"
| "addJob Priority = Priority_addJob"
| "addJob MLFQ = MLFQ_addJob"

fun getNextJob :: "scheduler_kind \<Rightarrow> job list \<Rightarrow> ub + (job \<times> job list)" where
  "getNextJob FCFS = FCFS_getNextJob"
| "getNextJob RoundRobin = RR_getNextJob"
| "getNextJob Priority = Priority_getNextJob"
| "getNextJob MLFQ = MLFQ_getNextJob"

record job_queue =
  queue_scheduler :: scheduler_kind
  queued_jobs :: "job list"
  stopping :: bool

definition new_queue :: "scheduler_kind \<Rightarrow> job_queue" where
  "new_queue k = \<lparr>queue_scheduler = k, queued_jobs = [], stopping = False\<rparr>"

definition enqueue :: "job_queue \<Rightarrow> job \<Rightarrow> job_queue" where
  "enqueue q j = q\<lparr>queued_jobs := addJob (queue_scheduler q) (queued_jobs q) j\<rparr>"

datatype dequeue_result = Blocked | Nullopt | Got job | Undefined ub

definition dequeue :: "job_queue \<Rightarrow> dequeue_result \<times> job_queue" where
  "dequeue q =
     (if \<not> (queued_jobs q \<noteq> [] \<or> stopping q) then (Blocked, q)
      else if stopping q \<and> queued_jobs q = [] then (Nullopt, q)
      else case getNextJob (queue_scheduler q) (queued_jobs q) of
             Inl e \<Rightarrow> (Undefined e, q)
           | Inr (j, js) \<Rightarrow> (Got j, q\<lparr>queued_jobs := js\<rparr>))"

definition stop_queue :: "job_queue \<Rightarrow> job_queue" where
  "stop_queue q = q\<lparr>stopping := True\<rparr>"

section \<open>Every scheduler meets the queue's contract\<close>

text \<open>The jobs a scheduler can order without undefined behaviour.\<close>

fun orderable :: "scheduler_kind \<Rightarrow> job \<Rightarrow> bool" where
  "orderable MLFQ = level_ok"
| "orderable _ = any_job"

interpretation sched: scheduler "addJob k" "getNextJob k" "orderable k" for k
  by (cases k) (simp_all add: fcfs.scheduler_axioms rr.scheduler_axioms prio.scheduler_axioms
      mlfq.scheduler_axioms)

lemma enqueue_sel [simp]:
  "queue_scheduler (enqueue q j) = queue_scheduler q" "stopping (enqueue q j) = stopping q"
  by (simp_all add: enqueue_def)

lemma mset_enqueue [deque_simps]: "mset (queued_jobs (enqueue q j)) = add_mset j (mset (queued_jobs q))"
  by (simp add: enqueue_def sched.addJob_mset)

lemma length_enqueue [deque_simps]: "length (queued_jobs (enqueue q j)) = Suc (length (queued_jobs q))"
  using mset_enqueue [of q j] by (metis size_add_mset size_mset)

lemma dequeue_frame:
  assumes "dequeue q = (r, q')"
  shows "queue_scheduler q' = queue_scheduler q" and "stopping q' = stopping q"
  using assms by (auto simp: dequeue_def split: if_splits sum.splits)

lemma dequeue_Got [deque_simps]:
  assumes "dequeue q = (Got j, q')"
  shows "mset (queued_jobs q) = add_mset j (mset (queued_jobs q'))"
    and "length (queued_jobs q) = Suc (length (queued_jobs q'))"
proof -
  from assms have "getNextJob (queue_scheduler q) (queued_jobs q) = Inr (j, queued_jobs q')"
    by (auto simp: dequeue_def split: if_splits sum.splits)
  then show "mset (queued_jobs q) = add_mset j (mset (queued_jobs q'))"
    by (rule sched.getNextJob_mset)
  then show "length (queued_jobs q) = Suc (length (queued_jobs q'))"
    by (metis size_add_mset size_mset)
qed

lemma dequeue_other:
  "dequeue q = (r, q') \<Longrightarrow> (\<forall>j. r \<noteq> Got j) \<Longrightarrow> q' = q"
  by (auto simp: dequeue_def split: if_splits sum.splits)

lemma dequeue_Blocked_iff: "fst (dequeue q) = Blocked \<longleftrightarrow> queued_jobs q = [] \<and> \<not> stopping q"
  by (auto simp: dequeue_def split: sum.splits)

lemma dequeue_Nullopt_iff: "fst (dequeue q) = Nullopt \<longleftrightarrow> queued_jobs q = [] \<and> stopping q"
  by (auto simp: dequeue_def split: sum.splits)

lemma dequeue_defined:
  assumes "list_all (orderable (queue_scheduler q)) (queued_jobs q)" and "queued_jobs q \<noteq> []"
  obtains j q' where "dequeue q = (Got j, q')"
  using sched.getNextJob_total [OF assms(2,1)] assms(2) by (auto simp: dequeue_def)

section \<open>Sequences of operations\<close>

text \<open>
  The critical sections of the queue in the order the mutex serialises them, with the jobs
  handed out. A dequeue that would block does nothing here.
\<close>

datatype queue_op = Enqueue job | Dequeue | Stop

fun apply_op :: "queue_op \<Rightarrow> job_queue \<Rightarrow> job list \<times> job_queue" where
  "apply_op (Enqueue j) q = ([], enqueue q j)"
| "apply_op Dequeue q = (case dequeue q of (Got j, q') \<Rightarrow> ([j], q') | (_, q') \<Rightarrow> ([], q'))"
| "apply_op Stop q = ([], stop_queue q)"

fun run_ops :: "queue_op list \<Rightarrow> job_queue \<Rightarrow> job list \<times> job_queue" where
  "run_ops [] q = ([], q)"
| "run_ops (x # xs) q =
     (let (out, q') = apply_op x q; (outs, q'') = run_ops xs q' in (out @ outs, q''))"

fun enqueued :: "queue_op list \<Rightarrow> job list" where
  "enqueued [] = []"
| "enqueued (Enqueue j # xs) = j # enqueued xs"
| "enqueued (_ # xs) = enqueued xs"

lemma apply_op_mset:
  "apply_op x q = (out, q') \<Longrightarrow>
   mset out + mset (queued_jobs q') = mset (enqueued [x]) + mset (queued_jobs q)"
  by (cases x)
    (auto simp: deque_simps stop_queue_def split: prod.splits dequeue_result.splits
      dest: dequeue_other)

lemma enqueued_Cons: "enqueued (x # xs) = enqueued [x] @ enqueued xs"
  by (cases x) simp_all

lemma run_ops_mset:
  "run_ops xs q = (outs, q') \<Longrightarrow>
   mset outs + mset (queued_jobs q') = mset (enqueued xs) + mset (queued_jobs q)"
proof (induction xs arbitrary: q outs)
  case (Cons x xs)
  obtain out q1 where x: "apply_op x q = (out, q1)" by fastforce
  obtain outs1 q2 where xs: "run_ops xs q1 = (outs1, q2)" by fastforce
  from Cons.prems x xs have eq: "outs = out @ outs1" "q2 = q'" by auto
  with Cons.IH [of q1 outs1] xs apply_op_mset [OF x] show ?case
    by (subst enqueued_Cons) (simp add: ac_simps)
qed simp

text \<open>
  Whatever the scheduler and however enqueues, dequeues and stop are interleaved, the jobs
  handed out together with the jobs still queued are exactly the jobs enqueued: the queue never
  loses, duplicates or invents a job.
\<close>

lemma queue_conserves_jobs:
  "mset (fst (run_ops xs (new_queue k))) + mset (queued_jobs (snd (run_ops xs (new_queue k))))
     = mset (enqueued xs)"
  using run_ops_mset [of xs "new_queue k"] by (cases "run_ops xs (new_queue k)") (simp add: new_queue_def)

lemma getNextJob_FCFS: "getNextJob FCFS (j # js) = Inr (j, js)"
  by (simp add: FCFS_getNextJob_def)

lemma fcfs_run:
  assumes "queue_scheduler q = FCFS" and "run_ops xs q = (outs, q')"
  shows "outs @ queued_jobs q' = queued_jobs q @ enqueued xs"
  using assms
proof (induction xs arbitrary: q outs)
  case (Cons x xs)
  obtain out q1 where x: "apply_op x q = (out, q1)" by fastforce
  obtain outs1 q2 where xs: "run_ops xs q1 = (outs1, q2)" by fastforce
  from Cons.prems x xs have eq: "outs = out @ outs1" "q' = q2" by auto
  have "out @ queued_jobs q1 = queued_jobs q @ enqueued [x] \<and> queue_scheduler q1 = FCFS"
    using x Cons.prems(1)
    by (cases x; cases "queued_jobs q")
      (auto simp: dequeue_def enqueue_def stop_queue_def FCFS_addJob_def FCFS_getNextJob_def
        split: if_splits)
  with Cons.IH [of q1 outs1] xs eq show ?case
    by (subst enqueued_Cons) (metis append.assoc)
qed simp

text \<open>
  C25: with the scheduler the engine is started with (first come, first served), for any
  interleaving of queue operations the sequence of jobs handed out is a prefix of the sequence
  of jobs enqueued, and the deque holds the rest of it in order.
\<close>

theorem fcfs_queue_fifo:
  "fst (run_ops xs (new_queue FCFS)) @ queued_jobs (snd (run_ops xs (new_queue FCFS))) = enqueued xs"
  using fcfs_run [of "new_queue FCFS" xs]
  by (cases "run_ops xs (new_queue FCFS)") (simp add: new_queue_def)

end
