(* ===== verification/Job_Results.thy ===== *)
theory Job_Results
  imports Job_Queue
begin

text \<open>
  What an execution yields (\<open>ExecutionResult\<close> of \<open>include/IIsolator.hpp\<close>), what is reported for
  a job (\<open>include/JobResult.hpp\<close>) and how the worker loop of \<open>src/WorkerPool.cpp\<close> turns one into
  the other.
\<close>

section \<open>Model\<close>

record execution_result =
  exit_code :: int32
  term_signal :: int32
  success :: bool
  preempted :: bool
  er_unique_id :: int32
  stdout_out :: bytes
  stderr_out :: bytes

definition new_execution_result :: execution_result where
  "new_execution_result = \<lparr>exit_code = - 1, term_signal = 0, success = False, preempted = False,
     er_unique_id = 0, stdout_out = [], stderr_out = []\<rparr>"

record job_result =
  jr_job_id :: uint64
  jr_exit_code :: int32
  jr_term_signal :: int32
  jr_verdict :: string
  jr_command_line :: string
  jr_stdout_out :: bytes
  jr_stderr_out :: bytes

definition verdict :: "execution_result \<Rightarrow> string" where
  "verdict r =
     (if success r then ''SUCCESS''
      else if term_signal r = 9 then ''TIMEOUT''
      else if term_signal r = 31 then ''SECCOMP_VIOLATION''
      else if term_signal r \<noteq> 0 then ''KILLED''
      else ''FAILED'')"

definition make_result :: "job \<Rightarrow> execution_result \<Rightarrow> job_result" where
  "make_result j r = \<lparr>jr_job_id = job_id j, jr_exit_code = exit_code r,
     jr_term_signal = term_signal r, jr_verdict = verdict r,
     jr_command_line = executable (cmd j), jr_stdout_out = stdout_out r,
     jr_stderr_out = stderr_out r\<rparr>"

definition promise_value :: "execution_result \<Rightarrow> int32" where
  "promise_value r = (if success r then 0 else 1)"

section \<open>Properties\<close>

text \<open>The verdicts the comment in \<open>include/JobResult.hpp\<close> lists.\<close>

definition documented_verdicts :: "string set" where
  "documented_verdicts =
     {''SUCCESS'', ''TIMEOUT'', ''SECCOMP_VIOLATION'', ''KILLED'', ''ERROR''}"

text \<open>
  The reported verdict determines the class of the outcome and only that: SUCCESS means the
  execution succeeded; otherwise TIMEOUT means signal 9, SECCOMP_VIOLATION signal 31, KILLED any
  other signal, and FAILED that no signal was recorded. The comment in JobResult.hpp announces
  ERROR instead of FAILED, so exactly the unsuccessful executions without a signal are reported
  with an undocumented verdict.
\<close>

lemma verdict_classifies:
  "(jr_verdict (make_result j r) = ''SUCCESS'' \<longleftrightarrow> success r)
   \<and> (jr_verdict (make_result j r) = ''TIMEOUT'' \<longleftrightarrow> \<not> success r \<and> term_signal r = 9)
   \<and> (jr_verdict (make_result j r) = ''SECCOMP_VIOLATION'' \<longleftrightarrow> \<not> success r \<and> term_signal r = 31)
   \<and> (jr_verdict (make_result j r) = ''KILLED''
        \<longleftrightarrow> \<not> success r \<and> term_signal r \<notin> {0, 9, 31})
   \<and> (jr_verdict (make_result j r) \<notin> documented_verdicts \<longleftrightarrow> \<not> success r \<and> term_signal r = 0)"
  by (auto simp: make_result_def verdict_def documented_verdicts_def)

end
