(* ===== verification/Os_Model.thy ===== *)
theory Os_Model
  imports Job_Results "HOL-Library.State_Monad" "HOL-Library.Sublist"
begin

text \<open>
  The system interface the engine runs on. The kernel and the C library's system-call wrappers
  are not part of the repository: they are a parameter, a function from the history of calls to
  the answer of the next one, so a theorem that quantifies over it covers every combination of
  failures. Code that calls the system is a computation in the state monad over the history. The
  decoding of wait statuses (the macros of \<open>sys/wait.h\<close>) is written out on 32-bit words.
\<close>

unbundle bit_operations_syntax

section \<open>Calls, answers, histories\<close>

datatype open_mode = Rd_Only | Wr_Only | Wr_Create_Trunc | Wr_Nonblock

text \<open>\<open>CloneArgs\<close> of \<open>src/LinuxNamespaceIsolator.cpp\<close>: what \<open>clone\<close> hands to the child.\<close>

record clone_args =
  ca_executable :: string
  ca_argv :: "string list"
  rootfs_path :: string
  input_file :: "string option"
  output_file :: "string option"
  sync_fd :: int
  seccomp_ctx :: "nat option"
  host_out_file :: string
  host_err_file :: string

datatype (plugins only: code size) syscall =
    Read int nat
  | Write int bytes
  | Close int
  | Open string open_mode
  | Pipe
  | Dup2 int int
  | Sethostname string
  | Mount "string option" string "string option" "string list"
  | Chdir string
  | Mkdir string
  | Pivot_root string string
  | Umount2 string string
  | Rmdir string
  | Unlink string
  | Setenv string string
  | Getenv string
  | Setpgid int int
  | Seccomp_load nat
  | Execvp string "string list"
  | Clone "string list" clone_args
  | Fork
  | Waitpid int "string list"
  | Kill int int
  | Usleep nat
  | Getuid
  | Getgid
  | Mkfifo string
  | Exit int
  | Random_uint32
  | Create_directories string
  | Remove string
  | Append_stream string bytes
  | Write_stream string bytes
  | Read_stream string
  | Seccomp_init
  | Seccomp_rule_add nat string
  | Seccomp_release nat
  | Thread_start string int
  | Thread_join string
  | Absolute string
  | Print string
  | Perror string
  | Signal string string
  | Tcgetattr int
  | Tcsetattr int
  | Tcsetpgrp int int
  | Getpgrp

text \<open>
  An answer carries the return value and whatever the call writes through pointers: the two
  descriptors of a pipe, a wait status, the bytes read (of an error code, its text), the value of an environment variable, the
  numbers read from a pseudo file, or \<open>errno\<close> where the code looks at it.
\<close>

record sysret =
  rv :: int
  pipe_fds :: "int \<times> int"
  wait_status :: int32
  data :: bytes
  env_value :: "bytes option"
  numbers :: "int list"
  err_number :: int

type_synonym history = "(syscall \<times> sysret) list"
type_synonym kernel = "history \<Rightarrow> syscall \<Rightarrow> sysret"

text \<open>
  The state of the engine's process that outlives a call: the history and the counter
  \<open>file_counter\<close> of \<open>src/LinuxNamespaceIsolator.cpp\<close>.
\<close>

record os_state =
  trace :: history
  file_counter :: int32

type_synonym 'a os = "(os_state, 'a) state"

abbreviation ret :: "'a \<Rightarrow> 'a os" where
  "ret \<equiv> State_Monad.return"

text \<open>\<open>after s h\<close>: the state after the further calls \<open>h\<close>.\<close>

definition after :: "os_state \<Rightarrow> history \<Rightarrow> os_state" where
  "after s h = s\<lparr>trace := trace s @ h\<rparr>"

lemma after_simps [simp]:
  "after s [] = s" "after (after s h) h' = after s (h @ h')"
  "trace (after s h) = trace s @ h" "file_counter (after s h) = file_counter s"
  by (simp_all add: after_def)

lemma after_inject [simp]: "after s h = after s h' \<longleftrightarrow> h = h'"
  by (metis after_simps(3) same_append_eq)

lemma after_inject_Nil [simp]:
  "s = after s h \<longleftrightarrow> h = []" "after s h = s \<longleftrightarrow> h = []"
  using after_inject [of s "[]" h] by auto

definition invoke :: "kernel \<Rightarrow> syscall \<Rightarrow> sysret os" where
  "invoke k c = State (\<lambda>s. (k (trace s) c, after s [(c, k (trace s) c)]))"

definition perform :: "kernel \<Rightarrow> syscall \<Rightarrow> unit os" where
  "perform k c = State (\<lambda>s. ((), after s [(c, k (trace s) c)]))"

lemma run_invoke [simp]:
  "run_state (invoke k c) s = (k (trace s) c, after s [(c, k (trace s) c)])"
  by (simp add: invoke_def)

lemma run_perform [simp]:
  "run_state (perform k c) s = ((), after s [(c, k (trace s) c)])"
  by (simp add: perform_def)

section \<open>What a computation adds to the history\<close>

text \<open>
  \<open>emits m P\<close>: whatever the kernel and the state, \<open>m\<close> only appends to the history, and its result
  and the calls it appended satisfy \<open>P\<close>. The rules take a computation apart from its first call
  on; \<open>emits_rules\<close> is the set to apply exhaustively.
\<close>

definition emits :: "'a os \<Rightarrow> ('a \<Rightarrow> history \<Rightarrow> bool) \<Rightarrow> bool" where
  "emits m P \<longleftrightarrow> (\<forall>s. \<exists>a s' h. run_state m s = (a, s') \<and> trace s' = trace s @ h \<and> P a h)"

lemma emitsD:
  "emits m P \<Longrightarrow> run_state m s = (a, s') \<Longrightarrow> \<exists>h. trace s' = trace s @ h \<and> P a h"
  unfolding emits_def by (metis prod.inject)

lemma emits_ret: "P a [] \<Longrightarrow> emits (ret a) P"
  by (simp add: emits_def)

lemma emits_bind:
  assumes m: "emits m P" and f: "\<And>a h. P a h \<Longrightarrow> emits (f a) (\<lambda>b h'. Q b (h @ h'))"
  shows "emits (m \<bind> f) Q"
  unfolding emits_def
proof
  fix s
  from m obtain a s' h where 1: "run_state m s = (a, s')" "trace s' = trace s @ h" "P a h"
    unfolding emits_def by blast
  from f [OF 1(3)] obtain b s'' h' where "run_state (f a) s' = (b, s'')" "trace s'' = trace s' @ h'"
    "Q b (h @ h')" unfolding emits_def by blast
  with 1 show "\<exists>a s' h. run_state (m \<bind> f) s = (a, s') \<and> trace s' = trace s @ h \<and> Q a h"
    by auto
qed

lemma emits_mono: "emits m P \<Longrightarrow> (\<And>a h. P a h \<Longrightarrow> Q a h) \<Longrightarrow> emits m Q"
  unfolding emits_def by meson

lemma emits_invoke: "(\<And>r. P r [(c, r)]) \<Longrightarrow> emits (invoke k c) P"
  by (auto simp: emits_def)

lemma emits_perform: "(\<And>r. P () [(c, r)]) \<Longrightarrow> emits (perform k c) P"
  by (auto simp: emits_def)

lemma emits_invoke_bind:
  "(\<And>r. emits (f r) (\<lambda>b h. Q b ((c, r) # h))) \<Longrightarrow> emits (invoke k c \<bind> f) Q"
  by (rule emits_bind [where P = "\<lambda>r h. h = [(c, r)]"]) (auto intro: emits_invoke)

lemma emits_perform_bind:
  "(\<And>r. emits (f ()) (\<lambda>b h. Q b ((c, r) # h))) \<Longrightarrow> emits (perform k c \<bind> f) Q"
  by (rule emits_bind [where P = "\<lambda>u h. \<exists>r. h = [(c, r)]"]) (auto intro: emits_perform)

lemma emits_if:
  "(b \<Longrightarrow> emits m P) \<Longrightarrow> (\<not> b \<Longrightarrow> emits n P) \<Longrightarrow> emits (if b then m else n) P"
  by simp

lemma emits_case_option:
  "(x = None \<Longrightarrow> emits m P) \<Longrightarrow> (\<And>y. x = Some y \<Longrightarrow> emits (f y) P) \<Longrightarrow>
   emits (case x of None \<Rightarrow> m | Some y \<Rightarrow> f y) P"
  by (cases x) simp_all

lemma emits_ret_bind: "emits (f a) Q \<Longrightarrow> emits (ret a \<bind> f) Q"
  by simp

lemma emits_bind_assoc: "emits (m \<bind> (\<lambda>a. f a \<bind> g)) Q \<Longrightarrow> emits (m \<bind> f \<bind> g) Q"
  by simp

lemma emits_if_bind:
  "(b \<Longrightarrow> emits (m \<bind> f) Q) \<Longrightarrow> (\<not> b \<Longrightarrow> emits (n \<bind> f) Q) \<Longrightarrow>
   emits ((if b then m else n) \<bind> f) Q"
  by simp

lemmas emits_rules = emits_ret emits_invoke_bind emits_perform_bind emits_invoke emits_perform
  emits_if emits_case_option emits_ret_bind emits_bind_assoc emits_if_bind

section \<open>Wait statuses\<close>

text \<open>The macros of \<open>sys/wait.h\<close> on Linux.\<close>

definition WTERMSIG :: "int32 \<Rightarrow> int32" where
  "WTERMSIG st = st AND 0x7F"

definition WIFEXITED :: "int32 \<Rightarrow> bool" where
  "WIFEXITED st \<longleftrightarrow> WTERMSIG st = 0"

definition WEXITSTATUS :: "int32 \<Rightarrow> int32" where
  "WEXITSTATUS st = drop_bit 8 (st AND 0xFF00)"

definition WIFSIGNALED :: "int32 \<Rightarrow> bool" where
  "WIFSIGNALED st \<longleftrightarrow> WTERMSIG st \<noteq> 0 \<and> WTERMSIG st \<noteq> 0x7F"

definition WIFSTOPPED :: "int32 \<Rightarrow> bool" where
  "WIFSTOPPED st \<longleftrightarrow> st AND 0xFF = 0x7F"

text \<open>A status is at most one of exited, killed, stopped.\<close>

lemma low7_of_low8: "(st :: int32) AND 0x7F = (st AND 0xFF) AND 0x7F"
  by (simp add: and.assoc)

lemma wait_kinds_disjoint:
  "\<not> (WIFEXITED st \<and> WIFSIGNALED st)" "\<not> (WIFEXITED st \<and> WIFSTOPPED st)"
  "\<not> (WIFSIGNALED st \<and> WIFSTOPPED st)"
  using low7_of_low8 [of st]
  by (auto simp: WIFEXITED_def WIFSIGNALED_def WIFSTOPPED_def WTERMSIG_def)

lemma WEXITSTATUS_range: "unat (WEXITSTATUS st) \<le> 255"
proof -
  have "WEXITSTATUS st = drop_bit 8 st AND 0xFF"
    by (simp add: WEXITSTATUS_def drop_bit_and)
  also have "unat \<dots> \<le> unat (0xFF :: int32)"
    by (rule word_and_le1 [THEN word_le_nat_alt [THEN iffD1]])
  finally show ?thesis by simp
qed

end
