(* ===== verification/Watchdogs.thy ===== *)
theory Watchdogs
  imports Os_Model
begin

text \<open>
  The watchdogs: \<open>src/TimeoutWatchdog.cpp\<close>, \<open>src/AnomalyWatchdog.cpp\<close> and
  \<open>src/CompositeWatchdog.cpp\<close> behind \<open>include/IWatchdog.hpp\<close>. The first part models the
  objects as the isolator uses them, with \<open>start\<close> and \<open>stop\<close> as operations on their members; the
  second part models the watcher thread running beside the thread that owns the object, as a step
  relation in which one step is one critical section, one system call or one millisecond.
\<close>

section \<open>The objects\<close>

text \<open>
  \<open>joinable\<close> is \<open>watcher_thread_.joinable()\<close>: a thread has been started and not joined.
\<close>

record watcher =
  target_pid :: int
  wd_running :: bool
  joinable :: bool

definition new_watcher :: watcher where
  "new_watcher = \<lparr>target_pid = -1, wd_running = False, joinable = False\<rparr>"

datatype watchdog =
    TimeoutWatchdog nat watcher
  | AnomalyWatchdog watcher
  | CompositeWatchdog "watchdog list"

text \<open>
  Assigning a new thread to a joinable \<open>std::thread\<close> ends the process (\<open>std::terminate\<close>),
  here \<open>None\<close>.
\<close>

definition watcher_start :: "kernel \<Rightarrow> string \<Rightarrow> watcher \<Rightarrow> int \<Rightarrow> watcher option os" where
  "watcher_start k name w p =
     (if joinable w then ret None
      else do { perform k (Thread_start name p);
                ret (Some (w\<lparr>target_pid := p, wd_running := True, joinable := True\<rparr>)) })"

definition watcher_stop :: "kernel \<Rightarrow> string \<Rightarrow> watcher \<Rightarrow> watcher os" where
  "watcher_stop k name w =
     (if \<not> wd_running w then ret w
      else if joinable w
      then do { perform k (Thread_join name); ret (w\<lparr>wd_running := False, joinable := False\<rparr>) }
      else ret (w\<lparr>wd_running := False\<rparr>))"

text \<open>The virtual calls; a composite forwards to its members in order.\<close>

fun watchdog_start :: "kernel \<Rightarrow> watchdog \<Rightarrow> int \<Rightarrow> watchdog option os"
  and watchdogs_start :: "kernel \<Rightarrow> watchdog list \<Rightarrow> int \<Rightarrow> watchdog list option os" where
  "watchdog_start k (TimeoutWatchdog t w) p =
     do { r \<leftarrow> watcher_start k ''timeout'' w p; ret (map_option (TimeoutWatchdog t) r) }"
| "watchdog_start k (AnomalyWatchdog w) p =
     do { r \<leftarrow> watcher_start k ''anomaly'' w p; ret (map_option AnomalyWatchdog r) }"
| "watchdog_start k (CompositeWatchdog ws) p =
     do { r \<leftarrow> watchdogs_start k ws p; ret (map_option CompositeWatchdog r) }"
| "watchdogs_start k [] p = ret (Some [])"
| "watchdogs_start k (w # ws) p = do {
     r \<leftarrow> watchdog_start k w p;
     (case r of None \<Rightarrow> ret None
      | Some w' \<Rightarrow> do { rs \<leftarrow> watchdogs_start k ws p; ret (map_option ((#) w') rs) }) }"

fun watchdog_stop :: "kernel \<Rightarrow> watchdog \<Rightarrow> watchdog os"
  and watchdogs_stop :: "kernel \<Rightarrow> watchdog list \<Rightarrow> watchdog list os" where
  "watchdog_stop k (TimeoutWatchdog t w) =
     do { w' \<leftarrow> watcher_stop k ''timeout'' w; ret (TimeoutWatchdog t w') }"
| "watchdog_stop k (AnomalyWatchdog w) =
     do { w' \<leftarrow> watcher_stop k ''anomaly'' w; ret (AnomalyWatchdog w') }"
| "watchdog_stop k (CompositeWatchdog ws) =
     do { ws' \<leftarrow> watchdogs_stop k ws; ret (CompositeWatchdog ws') }"
| "watchdogs_stop k [] = ret []"
| "watchdogs_stop k (w # ws) =
     do { w' \<leftarrow> watchdog_stop k w; ws' \<leftarrow> watchdogs_stop k ws; ret (w' # ws') }"

text \<open>The destructors stop; \<open>~CompositeWatchdog\<close> destroys its members in order.\<close>

definition watchdog_destroy :: "kernel \<Rightarrow> watchdog \<Rightarrow> unit os" where
  "watchdog_destroy k w = do { watchdog_stop k w; ret () }"

fun addWatchdog :: "watchdog \<Rightarrow> watchdog option \<Rightarrow> watchdog" where
  "addWatchdog (CompositeWatchdog ws) (Some w) = CompositeWatchdog (ws @ [w])"
| "addWatchdog c w = c"

text \<open>The watcher threads an object owns.\<close>

fun watchers :: "watchdog \<Rightarrow> watcher list"
  and watchers_list :: "watchdog list \<Rightarrow> watcher list" where
  "watchers (TimeoutWatchdog t w) = [w]"
| "watchers (AnomalyWatchdog w) = [w]"
| "watchers (CompositeWatchdog ws) = watchers_list ws"
| "watchers_list [] = []"
| "watchers_list (w # ws) = watchers w @ watchers_list ws"

text \<open>Every thread belongs to a running watcher.\<close>

definition wd_ok :: "watcher \<Rightarrow> bool" where
  "wd_ok w \<longleftrightarrow> (joinable w \<longleftrightarrow> wd_running w)"

definition quiet :: "watchdog \<Rightarrow> bool" where
  "quiet w \<longleftrightarrow> list_all (\<lambda>x. \<not> wd_running x \<and> \<not> joinable x) (watchers w)"

definition watching :: "int \<Rightarrow> watchdog \<Rightarrow> bool" where
  "watching p w \<longleftrightarrow> list_all (\<lambda>x. wd_running x \<and> joinable x \<and> target_pid x = p) (watchers w)"

subsection \<open>The contract of IWatchdog\<close>

text \<open>
  What the isolator relies on: a quiet watchdog can be started, a started one can be stopped and
  is quiet again, and neither call touches anything but the history.
\<close>

locale watchdog_contract =
  fixes start :: "'w \<Rightarrow> int \<Rightarrow> 'w option os"
    and stop :: "'w \<Rightarrow> 'w os"
    and idle :: "'w \<Rightarrow> bool"
    and active :: "int \<Rightarrow> 'w \<Rightarrow> bool"
  assumes start_idle: "idle w \<Longrightarrow> \<exists>w' h. run_state (start w p) s = (Some w', after s h) \<and> active p w'"
    and stop_any: "\<exists>w' h. run_state (stop w) s = (w', after s h) \<and> (idle w \<or> active p w \<longrightarrow> idle w')"
begin

definition cycle :: "'w \<Rightarrow> int \<Rightarrow> 'w option os" where
  "cycle w p = do { r \<leftarrow> start w p;
     (case r of None \<Rightarrow> ret None | Some w' \<Rightarrow> do { w'' \<leftarrow> stop w'; ret (Some w'') }) }"

fun cycles :: "'w \<Rightarrow> int list \<Rightarrow> 'w option os" where
  "cycles w [] = ret (Some w)"
| "cycles w (p # ps) = do { r \<leftarrow> cycle w p; (case r of None \<Rightarrow> ret None | Some w' \<Rightarrow> cycles w' ps) }"

lemma cycle_idle:
  assumes "idle w"
  shows "\<exists>w' h. run_state (cycle w p) s = (Some w', after s h) \<and> idle w'"
proof -
  from start_idle [OF assms] obtain w1 h1
    where 1: "run_state (start w p) s = (Some w1, after s h1)" "active p w1" by blast
  from stop_any obtain w2 h2
    where "run_state (stop w1) (after s h1) = (w2, after (after s h1) h2)" "idle w2" using 1 by blast
  with 1 show ?thesis by (simp add: cycle_def)
qed

text \<open>One object serves any number of processes in turn.\<close>

lemma cycles_idle:
  "idle w \<Longrightarrow> \<exists>w' h. run_state (cycles w ps) s = (Some w', after s h) \<and> idle w'"
proof (induction ps arbitrary: w s)
  case Nil
  then show ?case by simp
next
  case (Cons p ps)
  from cycle_idle [OF Cons.prems] obtain w1 h1
    where 1: "run_state (cycle w p) s = (Some w1, after s h1)" "idle w1" by blast
  from Cons.IH [OF 1(2)] obtain w2 h2
    where "run_state (cycles w1 ps) (after s h1) = (Some w2, after (after s h1) h2)" "idle w2" by blast
  with 1 show ?case by simp
qed

end

lemma start_quiet:
  "list_all (\<lambda>x. \<not> wd_running x \<and> \<not> joinable x) (watchers w) \<Longrightarrow>
   \<exists>w' h. run_state (watchdog_start k w p) s = (Some w', after s h) \<and>
     list_all (\<lambda>x. wd_running x \<and> joinable x \<and> target_pid x = p) (watchers w')"
  "list_all (\<lambda>x. \<not> wd_running x \<and> \<not> joinable x) (watchers_list ws) \<Longrightarrow>
   \<exists>ws' h. run_state (watchdogs_start k ws p) s = (Some ws', after s h) \<and>
     list_all (\<lambda>x. wd_running x \<and> joinable x \<and> target_pid x = p) (watchers_list ws')"
proof (induction k w p and k ws p arbitrary: s and s rule: watchdog_start_watchdogs_start.induct)
  case (5 k w ws p)
  then obtain w' h where w: "run_state (watchdog_start k w p) s = (Some w', after s h)"
     "list_all (\<lambda>x. wd_running x \<and> joinable x \<and> target_pid x = p) (watchers w')" by fastforce
  from 5 obtain ws' h' where "run_state (watchdogs_start k ws p) (after s h) = (Some ws', after (after s h) h')"
     "list_all (\<lambda>x. wd_running x \<and> joinable x \<and> target_pid x = p) (watchers_list ws')" by fastforce
  with w show ?case by simp
next
  case (3 k ws p)
  from "3.IH" [of s] "3.prems" obtain ws' h
    where "run_state (watchdogs_start k ws p) s = (Some ws', after s h)"
     "list_all (\<lambda>x. wd_running x \<and> joinable x \<and> target_pid x = p) (watchers_list ws')" by auto
  then show ?case by simp
qed (simp_all add: watcher_start_def)

lemma stop_consistent:
  "\<exists>w' h. run_state (watchdog_stop k w) s = (w', after s h) \<and>
     (list_all wd_ok (watchers w) \<longrightarrow> quiet w')"
  "\<exists>ws' h. run_state (watchdogs_stop k ws) s = (ws', after s h) \<and>
     (list_all wd_ok (watchers_list ws) \<longrightarrow> quiet (CompositeWatchdog ws'))"
proof (induction k w and k ws arbitrary: s and s rule: watchdog_stop_watchdogs_stop.induct)
  case (3 k ws)
  from "3.IH" [of s] obtain ws' h where "run_state (watchdogs_stop k ws) s = (ws', after s h)"
     "list_all wd_ok (watchers_list ws) \<longrightarrow> quiet (CompositeWatchdog ws')" by auto
  then show ?case by simp
next
  case (5 k w ws)
  from "5.IH"(1) [of s] obtain w' h where w: "run_state (watchdog_stop k w) s = (w', after s h)"
     "list_all wd_ok (watchers w) \<longrightarrow> quiet w'" by auto
  from "5.IH"(2) [of "after s h"] obtain ws' h'
    where "run_state (watchdogs_stop k ws) (after s h) = (ws', after (after s h) h')"
     "list_all wd_ok (watchers_list ws) \<longrightarrow> quiet (CompositeWatchdog ws')" by auto
  with w show ?case by (auto simp: quiet_def)
qed (auto simp: watcher_stop_def quiet_def wd_ok_def)

interpretation wd: watchdog_contract "watchdog_start k" "watchdog_stop k" quiet watching for k
proof
  fix w p s
  assume "quiet w"
  then show "\<exists>w' h. run_state (watchdog_start k w p) s = (Some w', after s h) \<and> watching p w'"
    unfolding quiet_def watching_def by (rule start_quiet(1))
next
  fix w s p
  have "quiet w \<or> watching p w \<longrightarrow> list_all wd_ok (watchers w)"
    by (auto simp: quiet_def watching_def wd_ok_def list_all_iff)
  with stop_consistent(1) [of k w s]
  show "\<exists>w' h. run_state (watchdog_stop k w) s = (w', after s h) \<and>
      (quiet w \<or> watching p w \<longrightarrow> quiet w')" by blast
qed

section \<open>The watcher thread\<close>

text \<open>
  Where the watcher thread is: before taking the mutex; in \<open>cv_.wait_for\<close>; sampling
  \<open>/proc/<pid>/syscall\<close> (anomaly watchdog only); before each of the two \<open>kill\<close> calls; returned.
  The owner works, has cleared \<open>running_\<close>, has notified and is joining, or is back from \<open>stop\<close>.
\<close>

datatype thread_at = Locking | Waiting | Sampling | Kill_Group | Kill_Leader | Ended
datatype owner_at = Working | Flag_Cleared | Wait_Join | Stopped

record wd_sys =
  clock :: nat
  deadline :: nat
  at :: thread_at
  owner :: owner_at
  flag :: bool
  woken :: bool
  tpid :: int
  kills :: "(int \<times> nat) list"
  seen :: "int option list"

text \<open>The state right after \<open>start(pid)\<close> at time \<open>now\<close>.\<close>

definition wd_init :: "nat \<Rightarrow> int \<Rightarrow> wd_sys" where
  "wd_init now p = \<lparr>clock = now, deadline = now, at = Locking, owner = Working, flag = True,
     woken = False, tpid = p, kills = [], seen = []\<rparr>"

text \<open>
  The steps both watchdogs share, given whether the thread holds the mutex where it is: the owner
  runs \<open>stop\<close>, the thread kills, a waiting thread whose predicate holds returns.
\<close>

inductive wd_common :: "(thread_at \<Rightarrow> bool) \<Rightarrow> wd_sys \<Rightarrow> wd_sys \<Rightarrow> bool" for holds where
  clear_flag: "owner s = Working \<Longrightarrow> flag s \<Longrightarrow> \<not> holds (at s) \<Longrightarrow>
     wd_common holds s (s\<lparr>flag := False, owner := Flag_Cleared\<rparr>)"
| notify: "owner s = Flag_Cleared \<Longrightarrow>
     wd_common holds s (s\<lparr>owner := Wait_Join, woken := (at s = Waiting)\<rparr>)"
| join: "owner s = Wait_Join \<Longrightarrow> at s = Ended \<Longrightarrow> wd_common holds s (s\<lparr>owner := Stopped\<rparr>)"
| wake: "at s = Waiting \<Longrightarrow> \<not> flag s \<Longrightarrow> woken s \<or> deadline s \<le> clock s \<Longrightarrow>
     wd_common holds s (s\<lparr>at := Ended\<rparr>)"
| kill_group: "at s = Kill_Group \<Longrightarrow>
     wd_common holds s (s\<lparr>at := Kill_Leader, kills := (- tpid s, clock s) # kills s\<rparr>)"
| kill_leader: "at s = Kill_Leader \<Longrightarrow>
     wd_common holds s (s\<lparr>at := Ended, kills := (tpid s, clock s) # kills s\<rparr>)"

text \<open>Time passes, and a wait may return early without cause.\<close>

inductive wd_environment :: "wd_sys \<Rightarrow> wd_sys \<Rightarrow> bool" where
  tick: "wd_environment s (s\<lparr>clock := Suc (clock s)\<rparr>)"
| spurious: "at s = Waiting \<Longrightarrow> \<not> flag s \<Longrightarrow> wd_environment s (s\<lparr>at := Ended\<rparr>)"

text \<open>The timeout watchdog keeps its mutex until the lambda returns.\<close>

definition timeout_holds :: "thread_at \<Rightarrow> bool" where
  "timeout_holds a \<longleftrightarrow> a \<in> {Kill_Group, Kill_Leader}"

inductive timeout_step :: "nat \<Rightarrow> wd_sys \<Rightarrow> wd_sys \<Rightarrow> bool" for timeout where
  shared: "wd_common timeout_holds s s' \<Longrightarrow> timeout_step timeout s s'"
| begin_wait: "at s = Locking \<Longrightarrow>
     timeout_step timeout s
       (s\<lparr>at := (if flag s then Waiting else Ended), deadline := clock s + timeout, woken := False\<rparr>)"
| expire: "at s = Waiting \<Longrightarrow> flag s \<Longrightarrow> deadline s \<le> clock s \<Longrightarrow>
     timeout_step timeout s (s\<lparr>at := (if 0 < tpid s then Kill_Group else Ended)\<rparr>)"

text \<open>The anomaly watchdog holds its mutex only around the wait.\<close>

definition suspicious_syscalls :: "int list" where
  "suspicious_syscalls = [41, 42, 43, 44, 45, 46, 47, 49, 50]"

text \<open>The \<open>long\<close> read from the file is narrowed to the set's \<open>int\<close>.\<close>

definition suspicious :: "int option \<Rightarrow> bool" where
  "suspicious r = (case r of None \<Rightarrow> False
                    | Some n \<Rightarrow> sint (word_of_int n :: int32) \<in> set suspicious_syscalls)"

inductive anomaly_step :: "wd_sys \<Rightarrow> wd_sys \<Rightarrow> bool" where
  shared: "wd_common (\<lambda>a. False) s s' \<Longrightarrow> anomaly_step s s'"
| begin_wait: "at s = Locking \<Longrightarrow>
     anomaly_step s
       (s\<lparr>at := (if flag s then Waiting else Ended), deadline := clock s + 20, woken := False\<rparr>)"
| expire: "at s = Waiting \<Longrightarrow> flag s \<Longrightarrow> deadline s \<le> clock s \<Longrightarrow>
     anomaly_step s (s\<lparr>at := (if 0 < tpid s then Sampling else Ended)\<rparr>)"
| sample: "at s = Sampling \<Longrightarrow>
     anomaly_step s (s\<lparr>at := (if suspicious r then Kill_Group else Locking), seen := r # seen s\<rparr>)"

section \<open>What the threads guarantee\<close>

abbreviation timeout_run :: "nat \<Rightarrow> wd_sys \<Rightarrow> wd_sys \<Rightarrow> bool" where
  "timeout_run t \<equiv> (\<lambda>s s'. timeout_step t s s' \<or> wd_environment s s')\<^sup>*\<^sup>*"

abbreviation anomaly_run :: "wd_sys \<Rightarrow> wd_sys \<Rightarrow> bool" where
  "anomaly_run \<equiv> (\<lambda>s s'. anomaly_step s s' \<or> wd_environment s s')\<^sup>*\<^sup>*"

text \<open>The flag, the owner and the thread agree; a joining owner has woken a waiting thread.\<close>

definition wd_sync :: "wd_sys \<Rightarrow> bool" where
  "wd_sync s \<longleftrightarrow> (flag s \<longleftrightarrow> owner s = Working) \<and> (owner s = Stopped \<longrightarrow> at s = Ended) \<and>
     (owner s = Wait_Join \<and> at s = Waiting \<longrightarrow> woken s)"

text \<open>The signals sent are determined by where the thread is.\<close>

definition wd_kills :: "int \<Rightarrow> wd_sys \<Rightarrow> bool" where
  "wd_kills p s \<longleftrightarrow> tpid s = p \<and>
     (case at s of Kill_Leader \<Rightarrow> 0 < p \<and> map fst (kills s) = [- p]
      | Kill_Group \<Rightarrow> 0 < p \<and> kills s = []
      | Sampling \<Rightarrow> 0 < p \<and> kills s = []
      | Ended \<Rightarrow> kills s = [] \<or> 0 < p \<and> map fst (kills s) = [p, - p]
      | _ \<Rightarrow> kills s = [])"

text \<open>No signal before \<open>t\<close>.\<close>

definition wd_timed :: "nat \<Rightarrow> nat \<Rightarrow> wd_sys \<Rightarrow> bool" where
  "wd_timed now t s \<longleftrightarrow> now \<le> clock s \<and> (at s = Waiting \<longrightarrow> now + t \<le> deadline s) \<and>
     (at s \<in> {Kill_Group, Kill_Leader} \<longrightarrow> now + t \<le> clock s) \<and> at s \<noteq> Sampling \<and>
     (\<forall>x \<in> set (kills s). now + t \<le> snd x)"

text \<open>No signal without a suspicious sample.\<close>

definition wd_cause :: "wd_sys \<Rightarrow> bool" where
  "wd_cause s \<longleftrightarrow> (at s \<in> {Kill_Group, Kill_Leader} \<or> kills s \<noteq> [] \<longrightarrow> (\<exists>r \<in> set (seen s). suspicious r))"

lemmas wd_inv_defs = wd_sync_def wd_kills_def wd_timed_def wd_cause_def

lemma wd_common_inv:
  "wd_common holds s s' \<Longrightarrow> wd_sync s \<longrightarrow> wd_sync s'"
  "wd_common holds s s' \<Longrightarrow> wd_kills p s \<longrightarrow> wd_kills p s'"
  "wd_common holds s s' \<Longrightarrow> wd_timed now t s \<longrightarrow> wd_timed now t s'"
  "wd_common holds s s' \<Longrightarrow> wd_cause s \<longrightarrow> wd_cause s'"
  by (induction rule: wd_common.induct; force simp: wd_inv_defs split: thread_at.splits)+

lemma wd_environment_inv:
  "wd_environment s s' \<Longrightarrow> wd_sync s \<longrightarrow> wd_sync s'"
  "wd_environment s s' \<Longrightarrow> wd_kills p s \<longrightarrow> wd_kills p s'"
  "wd_environment s s' \<Longrightarrow> wd_timed now t s \<longrightarrow> wd_timed now t s'"
  "wd_environment s s' \<Longrightarrow> wd_cause s \<longrightarrow> wd_cause s'"
  by (induction rule: wd_environment.induct; force simp: wd_inv_defs split: thread_at.splits)+

lemma timeout_step_inv:
  "timeout_step t s s' \<Longrightarrow> wd_sync s \<longrightarrow> wd_sync s'"
  "timeout_step t s s' \<Longrightarrow> wd_kills p s \<longrightarrow> wd_kills p s'"
  "timeout_step t s s' \<Longrightarrow> wd_timed now t s \<longrightarrow> wd_timed now t s'"
  by (induction rule: timeout_step.induct; (erule wd_common_inv | force simp: wd_inv_defs split: thread_at.splits))+

lemma anomaly_step_inv:
  "anomaly_step s s' \<Longrightarrow> wd_sync s \<longrightarrow> wd_sync s'"
  "anomaly_step s s' \<Longrightarrow> wd_kills p s \<longrightarrow> wd_kills p s'"
  "anomaly_step s s' \<Longrightarrow> wd_cause s \<longrightarrow> wd_cause s'"
  by (induction rule: anomaly_step.induct; (erule wd_common_inv | force simp: wd_inv_defs split: thread_at.splits))+

lemma wd_init_inv [simp]:
  "wd_sync (wd_init now p)" "wd_kills p (wd_init now p)" "wd_timed now t (wd_init now p)"
  "wd_cause (wd_init now p)"
  by (simp_all add: wd_inv_defs wd_init_def)

lemma timeout_run_inv:
  assumes "timeout_run t (wd_init now p) s"
  shows "wd_sync s \<and> wd_kills p s \<and> wd_timed now t s"
  using assms
proof (induction rule: rtranclp_induct)
  case (step s s')
  then show ?case using timeout_step_inv wd_environment_inv by blast
qed simp

lemma anomaly_run_inv:
  assumes "anomaly_run (wd_init now p) s"
  shows "wd_sync s \<and> wd_kills p s \<and> wd_cause s"
  using assms
proof (induction rule: rtranclp_induct)
  case (step s s')
  then show ?case using anomaly_step_inv wd_environment_inv by blast
qed simp

lemma wd_kills_targets:
  "wd_kills p s \<Longrightarrow> kills s = [] \<or> 0 < p \<and> map fst (kills s) \<in> {[- p], [p, - p]}"
  by (auto simp: wd_kills_def split: thread_at.splits)

text \<open>A thread that has ended stays so and sends nothing more.\<close>

lemma ended_step:
  "wd_common holds s s' \<Longrightarrow> at s = Ended \<Longrightarrow> at s' = Ended \<and> kills s' = kills s"
  by (induction rule: wd_common.induct) simp_all

lemma timeout_ended: "timeout_run t s s' \<Longrightarrow> at s = Ended \<Longrightarrow> at s' = Ended \<and> kills s' = kills s"
proof (induction rule: rtranclp_induct)
  case (step s1 s2)
  then have e: "at s1 = Ended" "kills s1 = kills s" by simp_all
  have "timeout_step t s1 s2 \<Longrightarrow> at s2 = Ended \<and> kills s2 = kills s1"
    by (erule timeout_step.cases) (use e ended_step in auto)
  moreover have "wd_environment s1 s2 \<Longrightarrow> at s2 = Ended \<and> kills s2 = kills s1"
    by (erule wd_environment.cases) (use e in simp_all)
  ultimately show ?case using step.hyps(2) e by auto
qed simp

lemma anomaly_ended: "anomaly_run s s' \<Longrightarrow> at s = Ended \<Longrightarrow> at s' = Ended \<and> kills s' = kills s"
proof (induction rule: rtranclp_induct)
  case (step s1 s2)
  then have e: "at s1 = Ended" "kills s1 = kills s" by simp_all
  have "anomaly_step s1 s2 \<Longrightarrow> at s2 = Ended \<and> kills s2 = kills s1"
    by (erule anomaly_step.cases) (use e ended_step in auto)
  moreover have "wd_environment s1 s2 \<Longrightarrow> at s2 = Ended \<and> kills s2 = kills s1"
    by (erule wd_environment.cases) (use e in simp_all)
  ultimately show ?case using step.hyps(2) e by auto
qed simp

text \<open>
  How far \<open>stop\<close> is from returning once it has cleared the flag: every step of the thread or of
  the owner counts down.
\<close>

fun thread_rank :: "thread_at \<Rightarrow> nat" where
  "thread_rank Ended = 0" | "thread_rank Kill_Leader = 1" | "thread_rank Kill_Group = 2"
| "thread_rank Waiting = 1" | "thread_rank Locking = 1" | "thread_rank Sampling = 3"

fun owner_rank :: "owner_at \<Rightarrow> nat" where
  "owner_rank Stopped = 0" | "owner_rank Wait_Join = 1" | "owner_rank Flag_Cleared = 2"
| "owner_rank Working = 3"

definition stop_rank :: "wd_sys \<Rightarrow> nat" where
  "stop_rank s = thread_rank (at s) + owner_rank (owner s)"

lemma stop_rank_bound: "owner s \<noteq> Working \<Longrightarrow> stop_rank s \<le> 5"
  by (cases "at s"; cases "owner s") (simp_all add: stop_rank_def)

lemma common_rank: "wd_common holds s s' \<Longrightarrow> stop_rank s' < stop_rank s"
  by (induction rule: wd_common.induct) (simp_all add: stop_rank_def)

lemma timeout_rank: "timeout_step t s s' \<Longrightarrow> \<not> flag s \<Longrightarrow> stop_rank s' < stop_rank s"
  by (induction rule: timeout_step.induct) (simp_all add: common_rank, simp_all add: stop_rank_def)

lemma anomaly_rank: "anomaly_step s s' \<Longrightarrow> \<not> flag s \<Longrightarrow> stop_rank s' < stop_rank s"
  by (induction rule: anomaly_step.induct) (simp_all add: common_rank, simp_all add: stop_rank_def)

lemma stopping_progress:
  assumes "wd_sync s" and "owner s \<in> {Flag_Cleared, Wait_Join}"
  shows "at s \<in> {Locking, Sampling} \<or> (\<exists>s'. wd_common holds s s')"
proof (cases "owner s = Flag_Cleared")
  case True
  then show ?thesis using notify by blast
next
  case False
  with assms have o: "owner s = Wait_Join" "\<not> flag s" "at s = Waiting \<longrightarrow> woken s"
    by (auto simp: wd_sync_def)
  then show ?thesis
    by (cases "at s") (blast intro: join wake kill_group kill_leader)+
qed

text \<open>
  C31: in every interleaving of a timeout watchdog's thread, its owner and the clock, signals go
  only to the watched process and its group, one each, never before the timeout has elapsed since
  \<open>start\<close>, never for a non-positive pid, and none is sent after \<open>stop\<close> has returned.
\<close>

theorem timeout_watchdog_safe:
  assumes "timeout_run t (wd_init now p) s"
  shows "(kills s = [] \<or> 0 < p \<and> map fst (kills s) \<in> {[- p], [p, - p]})
    \<and> (\<forall>x \<in> set (kills s). now + t \<le> snd x)
    \<and> (\<forall>s'. owner s = Stopped \<and> timeout_run t s s' \<longrightarrow> kills s' = kills s)"
  using timeout_run_inv [OF assms] wd_kills_targets timeout_ended
  by (auto simp: wd_sync_def wd_timed_def)

text \<open>A run in which the timeout of one millisecond fires for process 7 before \<open>stop\<close> is called.\<close>

definition fired :: wd_sys where
  "fired = \<lparr>clock = 1, deadline = 1, at = Ended, owner = Stopped, flag = False, woken = False,
     tpid = 7, kills = [(7, 1), (-7, 1)], seen = []\<rparr>"

lemma timeout_run_step: "timeout_step t s s1 \<Longrightarrow> timeout_run t s1 s' \<Longrightarrow> timeout_run t s s'"
  by (rule converse_rtranclp_into_rtranclp [where b = s1]) simp_all

lemma timeout_run_env: "wd_environment s s1 \<Longrightarrow> timeout_run t s1 s' \<Longrightarrow> timeout_run t s s'"
  by (rule converse_rtranclp_into_rtranclp [where b = s1]) simp_all

lemma fired_run: "timeout_run 1 (wd_init 0 7) fired"
  by (rule timeout_run_step, rule timeout_step.begin_wait, simp add: wd_init_def,
      rule timeout_run_env, rule tick,
      rule timeout_run_step, rule timeout_step.expire, simp_all add: wd_init_def,
      rule timeout_run_step, rule timeout_step.shared, rule kill_group, simp,
      rule timeout_run_step, rule timeout_step.shared, rule kill_leader, simp,
      rule timeout_run_step, rule timeout_step.shared, rule clear_flag, simp_all add: timeout_holds_def,
      rule timeout_run_step, rule timeout_step.shared, rule notify, simp,
      rule timeout_run_step, rule timeout_step.shared, rule join, simp_all add: fired_def)

theorem timeout_watchdog_safe_witness:
  "timeout_run 1 (wd_init 0 7) fired \<and> map fst (kills fired) = [7, -7]
   \<and> (0 :: nat) + 1 \<le> snd (hd (kills fired))"
  using timeout_watchdog_safe [OF fired_run] fired_run by (simp add: fired_def)

text \<open>
  C32: in every interleaving of an anomaly watchdog's thread, its owner and the clock, signals go
  only to the watched process and its group, one each, only after a sample of its system call
  number fell into the suspicious set (41 to 47, 49, 50), and none is sent after \<open>stop\<close> has
  returned.
\<close>

theorem anomaly_watchdog_safe:
  assumes "anomaly_run (wd_init now p) s"
  shows "(kills s = [] \<or> 0 < p \<and> map fst (kills s) \<in> {[- p], [p, - p]})
    \<and> (kills s \<noteq> [] \<longrightarrow> (\<exists>r \<in> set (seen s). suspicious r))
    \<and> (\<forall>s'. owner s = Stopped \<and> anomaly_run s s' \<longrightarrow> kills s' = kills s)"
  using anomaly_run_inv [OF assms] wd_kills_targets anomaly_ended
  by (auto simp: wd_sync_def wd_cause_def)

lemma anomaly_run_step: "anomaly_step s s1 \<Longrightarrow> anomaly_run s1 s' \<Longrightarrow> anomaly_run s s'"
  by (rule converse_rtranclp_into_rtranclp [where b = s1]) simp_all

lemma anomaly_run_env: "wd_environment s s1 \<Longrightarrow> anomaly_run s1 s' \<Longrightarrow> anomaly_run s s'"
  by (rule converse_rtranclp_into_rtranclp [where b = s1]) simp_all

text \<open>A run in which the first sample shows process 7 in \<open>connect\<close> (42).\<close>

definition caught :: wd_sys where
  "caught = \<lparr>clock = 20, deadline = 20, at = Ended, owner = Working, flag = True, woken = False,
     tpid = 7, kills = [(7, 20), (-7, 20)], seen = [Some 42]\<rparr>"

lemma ticks: "(wd_environment ^^ n) s (s\<lparr>clock := clock s + n\<rparr>)"
proof (induction n)
  case (Suc n)
  then show ?case using tick [of "s\<lparr>clock := clock s + n\<rparr>"] by auto
qed simp

lemma anomaly_run_ticks: "anomaly_run (s\<lparr>clock := clock s + n\<rparr>) s' \<Longrightarrow> anomaly_run s s'"
proof -
  assume r: "anomaly_run (s\<lparr>clock := clock s + n\<rparr>) s'"
  have "wd_environment\<^sup>*\<^sup>* s (s\<lparr>clock := clock s + n\<rparr>)"
    using ticks by (rule relpowp_imp_rtranclp)
  then have "anomaly_run s (s\<lparr>clock := clock s + n\<rparr>)"
    by (rule rtranclp_mono [THEN predicate2D, rotated]) auto
  with r show ?thesis by (rule rtranclp_trans [rotated])
qed

lemma caught_run: "anomaly_run (wd_init 0 7) caught"
  by (rule anomaly_run_step, rule anomaly_step.begin_wait, simp add: wd_init_def,
      rule anomaly_run_ticks [of _ 20],
      rule anomaly_run_step, rule anomaly_step.expire, simp_all add: wd_init_def,
      rule anomaly_run_step, rule anomaly_step.sample [of _ "Some 42"], simp,
      rule anomaly_run_step, rule anomaly_step.shared, rule kill_group,
      simp add: suspicious_def suspicious_syscalls_def,
      rule anomaly_run_step, rule anomaly_step.shared, rule kill_leader, simp,
      simp add: caught_def)

theorem anomaly_watchdog_safe_witness:
  "anomaly_run (wd_init 0 7) caught \<and> map fst (kills caught) = [7, -7]
   \<and> (\<exists>r \<in> set (seen caught). suspicious r)"
  using anomaly_watchdog_safe [OF caught_run] caught_run by (simp add: caught_def)

text \<open>
  C33: \<open>stop\<close> always returns. In every reachable state in which it has cleared the flag and not
  yet returned, a step of the thread or of the owner is possible that needs neither the passing
  of time nor a spurious wake-up, and every such step lowers a rank of at most 5; this holds for
  the timeout watchdog and for the anomaly watchdog, which may be in the middle of a sample.
\<close>

theorem watchdog_stop_returns:
  assumes "owner s \<in> {Flag_Cleared, Wait_Join}"
  shows "(timeout_run t (wd_init now p) s \<longrightarrow>
      stop_rank s \<le> 5 \<and> (\<exists>s'. timeout_step t s s') \<and>
      (\<forall>s'. timeout_step t s s' \<longrightarrow> stop_rank s' < stop_rank s)) \<and>
    (anomaly_run (wd_init now p) s \<longrightarrow>
      stop_rank s \<le> 5 \<and> (\<exists>s'. anomaly_step s s') \<and>
      (\<forall>s'. anomaly_step s s' \<longrightarrow> stop_rank s' < stop_rank s))"
proof (intro conjI impI)
  assume "timeout_run t (wd_init now p) s"
  from timeout_run_inv [OF this] have i: "wd_sync s" "at s \<noteq> Sampling"
    by (auto simp: wd_timed_def)
  with stopping_progress [OF i(1) assms, of timeout_holds] show "\<exists>s'. timeout_step t s s'"
    by (auto intro: timeout_step.intros)
  from i assms have "\<not> flag s" by (auto simp: wd_sync_def)
  then show "\<forall>s'. timeout_step t s s' \<longrightarrow> stop_rank s' < stop_rank s" using timeout_rank by blast
next
  assume "anomaly_run (wd_init now p) s"
  from anomaly_run_inv [OF this] have i: "wd_sync s" by simp
  with stopping_progress [OF i assms, of "\<lambda>a. False"] show "\<exists>s'. anomaly_step s s'"
    by (auto intro: anomaly_step.intros)
  from i assms have "\<not> flag s" by (auto simp: wd_sync_def)
  then show "\<forall>s'. anomaly_step s s' \<longrightarrow> stop_rank s' < stop_rank s" using anomaly_rank by blast
qed (use assms stop_rank_bound [of s] in auto)

theorem watchdog_stop_returns_witness:
  "\<exists>s. timeout_run 2000 (wd_init 0 7) s \<and> anomaly_run (wd_init 0 7) s \<and> owner s = Flag_Cleared
     \<and> (\<exists>s'. timeout_step 2000 s s' \<and> stop_rank s' < stop_rank s)
     \<and> (\<exists>s'. anomaly_step s s' \<and> stop_rank s' < stop_rank s)"
proof (rule exI, intro conjI)
  let ?s = "(wd_init 0 7)\<lparr>flag := False, owner := Flag_Cleared\<rparr>"
  show t: "timeout_run 2000 (wd_init 0 7) ?s"
    by (rule timeout_run_step, rule timeout_step.shared, rule clear_flag)
       (simp_all add: wd_init_def timeout_holds_def)
  show a: "anomaly_run (wd_init 0 7) ?s"
    by (rule anomaly_run_step, rule anomaly_step.shared, rule clear_flag)
       (simp_all add: wd_init_def)
  show o: "owner ?s = Flag_Cleared" by simp
  from watchdog_stop_returns [of ?s 2000 0 7] t a o
  show "\<exists>s'. timeout_step 2000 ?s s' \<and> stop_rank s' < stop_rank ?s"
    and "\<exists>s'. anomaly_step ?s s' \<and> stop_rank s' < stop_rank ?s" by blast+
qed

end
