(* ===== verification/Resource_Limits.thy ===== *)
theory Resource_Limits
  imports Os_Model
begin

text \<open>
  Resource limits and the system-call filter: \<open>src/CgroupV2Limiter.cpp\<close> behind
  \<open>include/IResourceLimiter.hpp\<close> and \<open>src/SeccompDenylistPolicy.cpp\<close> behind
  \<open>include/ISecurityPolicy.hpp\<close>. A stream that cannot be opened answers -1; opening, writing and
  closing an output file stream is one call.
\<close>

section \<open>The cgroup limiter\<close>

text \<open>
  \<open>fs::path::parent_path\<close> of an absolute path below the root: the text up to the last separator,
  without the separators in front of the removed name.
\<close>

definition parent_path :: "string \<Rightarrow> string" where
  "parent_path p = rev (dropWhile (\<lambda>c. c = CHR ''/'') (dropWhile (\<lambda>c. c \<noteq> CHR ''/'') (rev p)))"

text \<open>\<open>line.substr(line.find_last_of(':') + 1)\<close>, if there is a colon.\<close>

definition after_last_colon :: "string \<Rightarrow> string option" where
  "after_last_colon l =
     (if CHR '':'' \<in> set l then Some (rev (takeWhile (\<lambda>c. c \<noteq> CHR '':'') (rev l))) else None)"

definition base_of_line :: "string \<Rightarrow> string" where
  "base_of_line line =
     (case after_last_colon line of
        Some path \<Rightarrow> parent_path (''/sys/fs/cgroup'' @ path)
      | None \<Rightarrow> ''/sys/fs/cgroup/isolyx'')"

definition getBaseCgroupPath :: "kernel \<Rightarrow> string os" where
  "getBaseCgroupPath k = do {
     r \<leftarrow> invoke k (Read_stream ''/proc/self/cgroup'');
     ret (case getlines (CHR 0x0A) (data r) of
            [] \<Rightarrow> ''/sys/fs/cgroup/isolyx''
          | line # _ \<Rightarrow> base_of_line line) }"

text \<open>\<open>std::ofstream f(path); if (f.is_open()) f << text; else std::cerr << msg;\<close>\<close>

definition configure :: "kernel \<Rightarrow> string \<Rightarrow> string \<Rightarrow> string option \<Rightarrow> unit os" where
  "configure k path txt msg = do {
     r \<leftarrow> invoke k (Write_stream path txt);
     (if rv r = -1 then (case msg of Some m \<Rightarrow> perform k (Print m) | None \<Rightarrow> ret ()) else ret ()) }"

abbreviation newline :: string where "newline \<equiv> [CHR 0x0A]"

text \<open>The constructor; the result is \<open>cgroup_path_\<close>.\<close>

definition CgroupV2Limiter :: "kernel \<Rightarrow> int \<Rightarrow> int \<Rightarrow> int \<Rightarrow> int \<Rightarrow> string os" where
  "CgroupV2Limiter k max_cpu_us cpu_period_us max_memory_bytes max_pids = do {
     base \<leftarrow> getBaseCgroupPath k;
     perform k (Append_stream (base @ ''/cgroup.subtree_control'') (''+cpu +memory +pids'' @ newline));
     n \<leftarrow> invoke k Random_uint32;
     let path = base @ ''/isolyx_'' @ show_int (uint (word_of_int (rv n) :: 32 word));
     r \<leftarrow> invoke k (Create_directories path);
     (if rv r = -1
      then perform k (Print (''[Isolyx/Cgroups] Failed to create cgroup directory: '' @ path @ newline))
      else ret ());
     (if 0 < max_cpu_us
      then configure k (path @ ''/cpu.max'')
             (show_int max_cpu_us @ '' '' @ show_int cpu_period_us @ newline)
             (Some (''[Isolyx/Cgroups] Failed to configure cpu.max'' @ newline))
      else ret ());
     (if 0 < max_memory_bytes
      then do {
        configure k (path @ ''/memory.max'') (show_int max_memory_bytes @ newline)
          (Some (''[Isolyx/Cgroups] Failed to configure memory.max'' @ newline));
        configure k (path @ ''/memory.swap.max'') (''0'' @ newline) None }
      else ret ());
     (if 0 < max_pids
      then configure k (path @ ''/pids.max'') (show_int max_pids @ newline)
             (Some (''[Isolyx/Cgroups] Failed to configure pids.max'' @ newline))
      else ret ());
     ret path }"

definition applyToPid :: "kernel \<Rightarrow> string \<Rightarrow> int \<Rightarrow> unit os" where
  "applyToPid k path p =
     configure k (path @ ''/cgroup.procs'') (show_int p @ newline)
       (Some (''[Isolyx/Cgroups] Failed to open cgroup.procs to apply pid'' @ newline))"

text \<open>
  The destructor: kill what is listed, then try to remove the directory up to ten times. The
  answer of \<open>fs::remove\<close> is 1 when it removed something, 0 when there was nothing, -1 for an
  error, whose text, \<open>ec.message()\<close>, is in the \<open>data\<close> of the answer; \<open>ec\<close> after the loop holds that
  of the last round.
\<close>

fun kill_all :: "kernel \<Rightarrow> int list \<Rightarrow> unit os" where
  "kill_all k [] = ret ()"
| "kill_all k (p # ps) = do { perform k (Kill p 9); kill_all k ps }"

fun remove_loop :: "kernel \<Rightarrow> string \<Rightarrow> nat \<Rightarrow> bytes option \<Rightarrow> bytes option os" where
  "remove_loop k path 0 ec = ret ec"
| "remove_loop k path (Suc n) ec = do {
     r \<leftarrow> invoke k (Remove path);
     if rv r = 1 then ret None
     else do {
       perform k (Usleep 20000);
       remove_loop k path n (if rv r = -1 then Some (data r) else None) } }"

definition CgroupV2Limiter_destroy :: "kernel \<Rightarrow> string \<Rightarrow> unit os" where
  "CgroupV2Limiter_destroy k path = do {
     r \<leftarrow> invoke k (Read_stream (path @ ''/cgroup.procs''));
     kill_all k (numbers r);
     ec \<leftarrow> remove_loop k path 10 None;
     (case ec of
        Some msg \<Rightarrow> perform k (Print (''[Isolyx/Cgroups] Failed to clean up cgroup directory: '' @ msg @ newline))
      | None \<Rightarrow> ret ()) }"

section \<open>The seccomp policy\<close>

definition denylist :: "string list" where
  "denylist = [''ptrace'', ''reboot'', ''mount'', ''umount2'', ''unshare'', ''socket'']"

fun add_rules :: "kernel \<Rightarrow> nat \<Rightarrow> string list \<Rightarrow> unit os" where
  "add_rules k ctx [] = ret ()"
| "add_rules k ctx (c # cs) = do { perform k (Seccomp_rule_add ctx c); add_rules k ctx cs }"

text \<open>The constructor calls \<open>init\<close>; a null context is \<open>None\<close>.\<close>

definition SeccompDenylistPolicy :: "kernel \<Rightarrow> nat option os" where
  "SeccompDenylistPolicy k = do {
     r \<leftarrow> invoke k Seccomp_init;
     if rv r = 0
     then do { perform k (Print (''[Seccomp] Failed to initialize seccomp context'' @ newline)); ret None }
     else do { add_rules k (nat (rv r)) denylist; ret (Some (nat (rv r))) } }"

definition SeccompDenylistPolicy_destroy :: "kernel \<Rightarrow> nat option \<Rightarrow> unit os" where
  "SeccompDenylistPolicy_destroy k ctx =
     (case ctx of Some c \<Rightarrow> perform k (Seccomp_release c) | None \<Rightarrow> ret ())"

section \<open>Properties\<close>

text \<open>Which calls of a history are which.\<close>

definition calls :: "history \<Rightarrow> syscall list" where
  "calls h = map fst h"

lemma calls_simps [simp]:
  "calls [] = []" "calls ((c, r) # h) = c # calls h" "calls (h @ h') = calls h @ calls h'"
  by (simp_all add: calls_def)

fun is_print :: "syscall \<Rightarrow> bool" where
  "is_print (Print m) = True"
| "is_print (Perror m) = True"
| "is_print _ = False"

text \<open>The calls other than messages.\<close>

abbreviation effects :: "history \<Rightarrow> syscall list" where
  "effects h \<equiv> filter (\<lambda>c. \<not> is_print c) (calls h)"

lemma configure_emits:
  "emits (configure k p t m) (\<lambda>_ h. effects h = [Write_stream p t])"
  unfolding configure_def by (intro emits_rules) simp_all

lemma kill_all_emits: "emits (kill_all k ps) (\<lambda>_ h. calls h = map (\<lambda>p. Kill p 9) ps)"
proof (induction ps)
  case (Cons p ps)
  show ?case
    unfolding kill_all.simps by (rule emits_perform_bind, rule emits_mono [OF Cons.IH]) simp
qed (auto intro: emits_ret)

text \<open>\<open>n\<close> rounds of removing and sleeping, ended early by a successful removal.\<close>

definition removal :: "string \<Rightarrow> nat \<Rightarrow> syscall list" where
  "removal path n = concat (replicate n [Remove path, Usleep 20000])"

lemma removal_Suc [simp]: "removal p (Suc n) = Remove p # Usleep 20000 # removal p n"
  by (simp add: removal_def)

lemma removal_0 [simp]: "removal p 0 = []"
  by (simp add: removal_def)

lemma remove_loop_emits:
  "emits (remove_loop k path n e)
     (\<lambda>ec h. (\<exists>m < n. ec = None \<and> calls h = removal path m @ [Remove path]) \<or> calls h = removal path n)"
proof (induction n arbitrary: e)
  case 0
  then show ?case by (auto intro: emits_ret)
next
  case (Suc n)
  show ?case
    unfolding remove_loop.simps
    by (rule emits_invoke_bind, rule emits_if, rule emits_ret, force, rule emits_perform_bind,
        rule emits_mono [OF Suc.IH]) (auto intro: exI [of _ "Suc _"])
qed

lemma after_last_colon_append:
  "CHR '':'' \<notin> set p \<Longrightarrow> after_last_colon (l @ CHR '':'' # p) = Some p"
  by (simp add: after_last_colon_def takeWhile_append)

lemma parent_path_append:
  assumes "CHR ''/'' \<notin> set name" and "q \<noteq> []" and "last q \<noteq> CHR ''/''"
  shows "parent_path (q @ replicate (Suc n) (CHR ''/'') @ name) = q"
proof -
  have r: "rev (q @ replicate (Suc n) (CHR ''/'') @ name)
      = rev name @ replicate (Suc n) (CHR ''/'') @ rev q"
    by (simp add: replicate_append_same)
  have 1: "dropWhile (\<lambda>c. c \<noteq> CHR ''/'') (rev name @ replicate (Suc n) (CHR ''/'') @ rev q)
      = replicate (Suc n) (CHR ''/'') @ rev q"
    using assms(1) by (subst dropWhile_append2) auto
  have 2: "dropWhile (\<lambda>c. c = CHR ''/'') (replicate (Suc n) (CHR ''/'') @ rev q) = rev q"
    using assms(2,3) by (subst dropWhile_append2) (auto simp: dropWhile_eq_self_iff hd_rev)
  show ?thesis unfolding parent_path_def r 1 2 by simp
qed

text \<open>
  The cgroups of jobs are created beside the engine's own: when the engine's line in
  \<open>/proc/self/cgroup\<close> names the group \<open>parent/name\<close>, the base path is \<open>parent\<close> below the cgroup
  mount, whatever precedes the last colon and however many slashes separate the two.
\<close>

lemma base_cgroup_is_parent:
  assumes "CHR '':'' \<notin> set (par @ name)" and "CHR ''/'' \<notin> set name"
    and "par = [] \<or> last par \<noteq> CHR ''/''"
  shows "base_of_line (pre @ '':'' @ par @ replicate (Suc n) (CHR ''/'') @ name)
    = ''/sys/fs/cgroup'' @ par"
proof -
  have "after_last_colon (pre @ '':'' @ par @ replicate (Suc n) (CHR ''/'') @ name)
    = Some (par @ replicate (Suc n) (CHR ''/'') @ name)"
    using assms(1) after_last_colon_append [of "par @ replicate (Suc n) (CHR ''/'') @ name" pre]
    by simp
  moreover have "parent_path ((''/sys/fs/cgroup'' @ par) @ replicate (Suc n) (CHR ''/'') @ name)
    = ''/sys/fs/cgroup'' @ par"
    using assms(2,3) by (intro parent_path_append) auto
  ultimately show ?thesis by (simp add: base_of_line_def)
qed

lemma base_cgroup_is_parent_example:
  "base_of_line ''0::/user.slice/session-2.scope'' = ''/sys/fs/cgroup/user.slice''"
  using base_cgroup_is_parent [of "''/user.slice''" "''session-2.scope''" "''0:''" 0] by simp

text \<open>
  The destructor, whatever the kernel answers, sends SIGKILL to exactly the processes listed in the
  group, once each and before anything else, and then tries to remove the directory at most ten
  times, 20 ms apart, stopping at the first success.
\<close>

lemma limiter_destroy_emits:
  "emits (CgroupV2Limiter_destroy k path) (\<lambda>_ h. \<exists>r h'.
     h = (Read_stream (path @ ''/cgroup.procs''), r) # h' \<and>
     ((\<exists>m < 10. effects h' = map (\<lambda>p. Kill p 9) (numbers r) @ removal path m @ [Remove path]) \<or>
      effects h' = map (\<lambda>p. Kill p 9) (numbers r) @ removal path 10))"
proof -
  have e: "filter (\<lambda>c. \<not> is_print c) (removal path n) = removal path n" for n
    by (induction n) simp_all
  show ?thesis
    unfolding CgroupV2Limiter_destroy_def
    by (rule emits_invoke_bind, rule emits_bind [OF kill_all_emits],
        rule emits_bind [OF remove_loop_emits], intro emits_rules)
       (auto simp: e comp_def)
qed

text \<open>The files a limiter with these limits writes.\<close>

definition limit_files :: "string \<Rightarrow> int \<Rightarrow> int \<Rightarrow> int \<Rightarrow> int \<Rightarrow> syscall list" where
  "limit_files path cpu period mem pids =
     (if 0 < cpu then [Write_stream (path @ ''/cpu.max'') (show_int cpu @ '' '' @ show_int period @ newline)]
      else []) @
     (if 0 < mem then [Write_stream (path @ ''/memory.max'') (show_int mem @ newline),
                       Write_stream (path @ ''/memory.swap.max'') (''0'' @ newline)] else []) @
     (if 0 < pids then [Write_stream (path @ ''/pids.max'') (show_int pids @ newline)] else [])"

lemma getBaseCgroupPath_emits:
  "emits (getBaseCgroupPath k) (\<lambda>b h. effects h = [Read_stream ''/proc/self/cgroup''])"
  unfolding getBaseCgroupPath_def by (intro emits_rules) simp

lemma limiter_constructor_emits:
  "emits (CgroupV2Limiter k cpu period mem pids) (\<lambda>path h. \<exists>base n.
     path = base @ ''/isolyx_'' @ show_int (uint (n :: 32 word)) \<and>
     effects h = [Read_stream ''/proc/self/cgroup'',
       Append_stream (base @ ''/cgroup.subtree_control'') (''+cpu +memory +pids'' @ newline),
       Random_uint32, Create_directories path] @ limit_files path cpu period mem pids)"
proof -
  note c = emits_bind [OF configure_emits]
  show ?thesis
    unfolding CgroupV2Limiter_def Let_def
    by (rule emits_bind [OF getBaseCgroupPath_emits])
       (intro emits_perform_bind emits_invoke_bind emits_if_bind emits_bind_assoc c emits_ret_bind emits_ret;
        auto simp: limit_files_def)
qed

text \<open>
  Constructing a limiter performs, whatever the kernel answers, exactly these effects in this
  order: it enables the controllers in the base group, creates a fresh directory named by a 32-bit
  random number, and writes each positive limit, memory together with a swap limit of zero. A
  failure to create the directory or to write a limit is reported but does not stop it.
\<close>

lemma limiter_constructor:
  "emits (CgroupV2Limiter k cpu period mem pids) (\<lambda>path h. \<exists>base n.
     path = base @ ''/isolyx_'' @ show_int (uint (n :: 32 word)) \<and>
     effects h = [Read_stream ''/proc/self/cgroup'',
       Append_stream (base @ ''/cgroup.subtree_control'') (''+cpu +memory +pids'' @ newline),
       Random_uint32, Create_directories path] @ limit_files path cpu period mem pids)"
  by (rule limiter_constructor_emits)

end
