(* ===== verification/Isolator.thy ===== *)
theory Isolator
  imports Watchdogs Resource_Limits
begin

text \<open>
  The namespace isolator, \<open>src/LinuxNamespaceIsolator.cpp\<close>, and the root file system provider,
  \<open>src/PerLanguageRootfsProvider.cpp\<close>. The child's path from \<open>clone\<close> to \<open>execvp\<close> and the parent's
  path through spawning, waiting, preempting and collecting output are computations over the
  history of system calls; every early return is a branch. The two loops that depend on the
  kernel's answers take fuel, with theorems on when it suffices.
\<close>

section \<open>The child: from clone to execvp\<close>

text \<open>The child's argument is the record \<^typ>\<open>clone_args\<close> handed to \<open>clone\<close>.\<close>

text \<open>The child ends by returning from its entry function or by a successful \<open>execvp\<close>.\<close>

datatype child_outcome = Child_Returned int | Child_Execed

text \<open>A phase yields \<open>None\<close> to go on and \<open>Some\<close> outcome when the entry function returns.\<close>

definition child_fail :: "kernel \<Rightarrow> string \<Rightarrow> child_outcome option os" where
  "child_fail k msg = do { perform k (Perror msg); ret (Some (Child_Returned (-1))) }"

definition child_sync :: "kernel \<Rightarrow> clone_args \<Rightarrow> child_outcome option os" where
  "child_sync k a = do {
     r \<leftarrow> invoke k (Read (sync_fd a) 1);
     if rv r \<noteq> 1 then child_fail k ''[Isolyx Child] Failed to read sync byte from parent''
     else do { perform k (Close (sync_fd a)); ret None } }"

definition child_mounts :: "kernel \<Rightarrow> clone_args \<Rightarrow> child_outcome option os" where
  "child_mounts k a = do {
     r \<leftarrow> invoke k (Sethostname ''isolyx-guest'');
     if rv r \<noteq> 0 then child_fail k ''[Isolyx Child] sethostname failed''
     else do {
       r \<leftarrow> invoke k (Mount None ''/'' None [''MS_REC'', ''MS_PRIVATE'']);
       if rv r = -1 then child_fail k ''[Isolyx Child] mount / private failed''
       else do {
         r \<leftarrow> invoke k (Mount (Some (rootfs_path a)) (rootfs_path a) (Some ''bind'')
                          [''MS_BIND'', ''MS_REC'']);
         if rv r = -1
         then child_fail k ''[Isolyx Child] bind mount failed (Does rootfs_base exist here?)''
         else do {
           r \<leftarrow> invoke k (Chdir (rootfs_path a));
           if rv r = -1 then child_fail k ''[Isolyx Child] chdir to rootfs failed''
           else do {
             r \<leftarrow> invoke k (Mount (Some ''proc'') (snprintf 512 (rootfs_path a @ ''/proc''))
                              (Some ''proc'') []);
             (if rv r = -1
              then perform k (Perror ''[Isolyx Child] mount /proc before pivot_root failed'')
              else ret ());
             ret None } } } } }"

definition child_pivot :: "kernel \<Rightarrow> child_outcome option os" where
  "child_pivot k = do {
     perform k (Mkdir ''oldroot'');
     r \<leftarrow> invoke k (Pivot_root ''.'' ''oldroot'');
     if rv r = -1 then child_fail k ''[Isolyx Child] pivot_root failed''
     else do {
       r \<leftarrow> invoke k (Chdir ''/'');
       if rv r = -1 then child_fail k ''[Isolyx Child] chdir to / failed''
       else do {
         r \<leftarrow> invoke k (Umount2 ''oldroot'' ''MNT_DETACH'');
         if rv r = -1 then child_fail k ''[Isolyx Child] umount2 oldroot failed''
         else do { perform k (Rmdir ''oldroot''); ret None } } } }"

text \<open>\<open>dup2(fd, std); close(fd);\<close>\<close>

definition redirect_fd :: "kernel \<Rightarrow> int \<Rightarrow> int \<Rightarrow> unit os" where
  "redirect_fd k fd std = do { perform k (Dup2 fd std); perform k (Close fd) }"

definition child_stdout :: "kernel \<Rightarrow> clone_args \<Rightarrow> child_outcome option os" where
  "child_stdout k a =
     (case output_file a of
        Some f \<Rightarrow> do {
          r \<leftarrow> invoke k (Open f Wr_Create_Trunc);
          if rv r = -1 then child_fail k ''[Isolyx Child] Failed to open output file''
          else do { redirect_fd k (rv r) 1; ret None } }
      | None \<Rightarrow>
          if host_out_file a \<noteq> [] then do {
            r \<leftarrow> invoke k (Open (host_out_file a) Wr_Create_Trunc);
            (if rv r \<noteq> -1 then redirect_fd k (rv r) 1 else ret ());
            ret None }
          else ret None)"

definition child_stderr :: "kernel \<Rightarrow> clone_args \<Rightarrow> child_outcome option os" where
  "child_stderr k a =
     (if host_err_file a \<noteq> [] then do {
        r \<leftarrow> invoke k (Open (host_err_file a) Wr_Create_Trunc);
        (if rv r \<noteq> -1 then redirect_fd k (rv r) 2 else ret ());
        ret None }
      else ret None)"

definition child_stdin :: "kernel \<Rightarrow> clone_args \<Rightarrow> child_outcome option os" where
  "child_stdin k a =
     (case input_file a of
        Some f \<Rightarrow> do {
          r \<leftarrow> invoke k (Open f Rd_Only);
          if rv r = -1 then child_fail k ''[Isolyx Child] Failed to open input file''
          else do { redirect_fd k (rv r) 0; ret None } }
      | None \<Rightarrow> ret None)"

definition child_seccomp :: "kernel \<Rightarrow> clone_args \<Rightarrow> child_outcome option os" where
  "child_seccomp k a = do {
     perform k (Setenv ''PATH'' ''/bin:/usr/bin:/sbin:/usr/sbin'');
     perform k (Setpgid 0 0);
     (case seccomp_ctx a of
        Some c \<Rightarrow> do {
          r \<leftarrow> invoke k (Seccomp_load c);
          if rv r < 0 then child_fail k ''[Isolyx Child] seccomp_load failed'' else ret None }
      | None \<Rightarrow> ret None) }"

definition child_exec :: "kernel \<Rightarrow> clone_args \<Rightarrow> child_outcome os" where
  "child_exec k a = do {
     r \<leftarrow> invoke k (Execvp (ca_executable a) (ca_argv a));
     if rv r = -1 then do {
       perform k (Perror ''[Isolyx Child] execvp failed''); ret (Child_Returned (-1)) }
     else ret Child_Execed }"

definition and_then :: "child_outcome option os \<Rightarrow> child_outcome os \<Rightarrow> child_outcome os" where
  "and_then m n = do { r \<leftarrow> m; (case r of Some out \<Rightarrow> ret out | None \<Rightarrow> n) }"

definition child_entry :: "kernel \<Rightarrow> clone_args \<Rightarrow> child_outcome os" where
  "child_entry k a =
     and_then (child_sync k a) (and_then (child_mounts k a) (and_then (child_pivot k)
      (and_then (child_stdout k a) (and_then (child_stderr k a) (and_then (child_stdin k a)
      (and_then (child_seccomp k a) (child_exec k a)))))))"

subsection \<open>What has happened when a phase lets the child go on\<close>

text \<open>
  \<open>passed h cs\<close>: the calls \<open>cs\<close> occur in the history piece \<open>h\<close> in this order. \<open>all_ok\<close>: every
  call the code insists on that occurs in the piece was answered with success.
\<close>

definition passed :: "history \<Rightarrow> syscall list \<Rightarrow> bool" where
  "passed h cs \<longleftrightarrow> subseq cs (map fst h)"

fun insisted :: "clone_args \<Rightarrow> syscall \<Rightarrow> bool" where
  "insisted a (Read fd n) = True"
| "insisted a (Sethostname h) = True"
| "insisted a (Mount src t fs fl) = (fs \<noteq> Some ''proc'')"
| "insisted a (Chdir d) = True"
| "insisted a (Pivot_root x y) = True"
| "insisted a (Umount2 x y) = True"
| "insisted a (Seccomp_load c) = True"
| "insisted a (Open f m) = (m = Rd_Only)"
| "insisted a _ = False"

definition call_ok :: "syscall \<Rightarrow> sysret \<Rightarrow> bool" where
  "call_ok c r = (case c of Read fd n \<Rightarrow> rv r = 1 | Sethostname h \<Rightarrow> rv r = 0
                   | Seccomp_load x \<Rightarrow> 0 \<le> rv r | _ \<Rightarrow> rv r \<noteq> -1)"

definition all_ok :: "clone_args \<Rightarrow> history \<Rightarrow> bool" where
  "all_ok a h \<longleftrightarrow> (\<forall>(c, r) \<in> set h. insisted a c \<longrightarrow> call_ok c r)"

lemma all_ok_append [simp]: "all_ok a (h @ h') \<longleftrightarrow> all_ok a h \<and> all_ok a h'"
  by (auto simp: all_ok_def)

lemma all_ok_Cons [simp]:
  "all_ok a ((c, r) # h) \<longleftrightarrow> (insisted a c \<longrightarrow> call_ok c r) \<and> all_ok a h"
  by (simp add: all_ok_def)

lemma all_ok_Nil [simp]: "all_ok a []"
  by (simp add: all_ok_def)

fun is_exec :: "syscall \<Rightarrow> bool" where
  "is_exec (Execvp e v) = True"
| "is_exec _ = False"

definition no_exec :: "history \<Rightarrow> bool" where
  "no_exec h \<longleftrightarrow> list_all (\<lambda>(c, r). \<not> is_exec c) h"

lemma no_exec_simps [simp]:
  "no_exec []" "no_exec ((c, r) # h) \<longleftrightarrow> \<not> is_exec c \<and> no_exec h"
  "no_exec (h @ h') \<longleftrightarrow> no_exec h \<and> no_exec h'"
  by (simp_all add: no_exec_def)

text \<open>
  A phase never executes the program. When it lets the child go on, the calls \<open>cs\<close> have been
  made in order and all insisted ones succeeded; when it does not, the child returns -1.
\<close>

definition adds :: "clone_args \<Rightarrow> syscall list \<Rightarrow> child_outcome option os \<Rightarrow> bool" where
  "adds a cs m \<longleftrightarrow> (\<forall>s. \<exists>out h. run_state m s = (out, after s h) \<and> no_exec h \<and>
     (case out of None \<Rightarrow> passed h cs \<and> all_ok a h | Some oc \<Rightarrow> oc = Child_Returned (-1)))"

lemmas phase_simps = child_fail_def redirect_fd_def passed_def call_ok_def adds_def

lemma adds_sync: "adds a [Read (sync_fd a) 1, Close (sync_fd a)] (child_sync k a)"
  by (auto simp: phase_simps child_sync_def)

lemma adds_mounts:
  "adds a [Sethostname ''isolyx-guest'', Mount None ''/'' None [''MS_REC'', ''MS_PRIVATE''],
           Mount (Some (rootfs_path a)) (rootfs_path a) (Some ''bind'') [''MS_BIND'', ''MS_REC''],
           Chdir (rootfs_path a)] (child_mounts k a)"
  by (auto simp: phase_simps child_mounts_def)

lemma adds_pivot:
  "adds a [Pivot_root ''.'' ''oldroot'', Chdir ''/'', Umount2 ''oldroot'' ''MNT_DETACH'']
     (child_pivot k)"
  by (auto simp: phase_simps child_pivot_def)

lemma adds_stdout: "adds a [] (child_stdout k a)"
  by (auto simp: phase_simps child_stdout_def split: option.split)

lemma adds_stderr: "adds a [] (child_stderr k a)"
  by (auto simp: phase_simps child_stderr_def)

lemma adds_stdin: "adds a [] (child_stdin k a)"
  by (auto simp: phase_simps child_stdin_def split: option.split)

definition filter_call :: "clone_args \<Rightarrow> syscall list" where
  "filter_call a = (case seccomp_ctx a of Some c \<Rightarrow> [Seccomp_load c] | None \<Rightarrow> [])"

lemma adds_seccomp: "adds a (filter_call a) (child_seccomp k a)"
  by (auto simp: phase_simps child_seccomp_def filter_call_def split: option.split)

text \<open>
  The same for a tail of the entry function: it either returns -1 without trying the program,
  or makes the calls \<open>cs\<close> and then its one and only \<open>execvp\<close>.
\<close>

definition exec_post :: "clone_args \<Rightarrow> syscall list \<Rightarrow> child_outcome \<Rightarrow> history \<Rightarrow> bool" where
  "exec_post a cs out h \<longleftrightarrow>
     out = Child_Returned (-1) \<and> no_exec h \<or>
     (\<exists>h1 r t. h = h1 @ (Execvp (ca_executable a) (ca_argv a), r) # t \<and> no_exec h1 \<and> no_exec t \<and>
        passed h1 cs \<and> all_ok a h1 \<and>
        out = (if rv r = -1 then Child_Returned (-1) else Child_Execed))"

definition execs :: "clone_args \<Rightarrow> syscall list \<Rightarrow> child_outcome os \<Rightarrow> bool" where
  "execs a cs m \<longleftrightarrow> (\<forall>s. \<exists>out h. run_state m s = (out, after s h) \<and> exec_post a cs out h)"

lemma exec_post_exec:
  "no_exec t \<Longrightarrow> out = (if rv r = -1 then Child_Returned (-1) else Child_Execed) \<Longrightarrow>
   exec_post a [] out ((Execvp (ca_executable a) (ca_argv a), r) # t)"
  unfolding exec_post_def by (rule disjI2, rule exI [of _ "[]"]) (auto simp: passed_def)

lemma execs_exec: "execs a [] (child_exec k a)"
  by (auto simp: execs_def child_exec_def intro!: exec_post_exec)

lemma exec_post_append:
  assumes "no_exec h" "passed h cs" "all_ok a h" "exec_post a cs' out h'"
  shows "exec_post a (cs @ cs') out (h @ h')"
  using assms(4) unfolding exec_post_def
proof (elim disjE exE conjE)
  fix h1 r t
  assume h': "h' = h1 @ (Execvp (ca_executable a) (ca_argv a), r) # t" "no_exec h1" "no_exec t"
    "passed h1 cs'" "all_ok a h1" "out = (if rv r = -1 then Child_Returned (-1) else Child_Execed)"
  have "passed (h @ h1) (cs @ cs')"
    using assms(2) h'(4) by (simp add: passed_def list_emb_append_mono)
  with assms h' show "out = Child_Returned (-1) \<and> no_exec (h @ h') \<or>
     (\<exists>h1 r t. h @ h' = h1 @ (Execvp (ca_executable a) (ca_argv a), r) # t \<and> no_exec h1 \<and>
        no_exec t \<and> passed h1 (cs @ cs') \<and> all_ok a h1 \<and>
        out = (if rv r = -1 then Child_Returned (-1) else Child_Execed))"
    by (intro disjI2 exI [of _ "h @ h1"] exI [of _ r] exI [of _ t]) simp
qed (use assms(1) in simp)

lemma execs_and_then:
  assumes m: "adds a cs m" and n: "execs a cs' n"
  shows "execs a (cs @ cs') (and_then m n)"
  unfolding execs_def
proof
  fix s :: os_state
  from m obtain out h where run: "run_state m s = (out, after s h)" and nx: "no_exec h"
    and c: "case out of None \<Rightarrow> passed h cs \<and> all_ok a h | Some oc \<Rightarrow> oc = Child_Returned (-1)"
    unfolding adds_def by blast
  from n obtain out2 h2 where run2: "run_state n (after s h) = (out2, after (after s h) h2)"
    and d: "exec_post a cs' out2 h2"
    unfolding execs_def by blast
  show "\<exists>out h. run_state (and_then m n) s = (out, after s h) \<and> exec_post a (cs @ cs') out h"
  proof (cases out)
    case (Some oc)
    with run nx c show ?thesis by (auto simp: and_then_def exec_post_def)
  next
    case None
    with c have "exec_post a (cs @ cs') out2 (h @ h2)"
      by (intro exec_post_append nx d) simp_all
    moreover have "run_state (and_then m n) s = (out2, after s (h @ h2))"
      using run run2 None by (simp add: and_then_def)
    ultimately show ?thesis by blast
  qed
qed

text \<open>The calls between the parent's go-ahead and the program.\<close>

definition confinement :: "clone_args \<Rightarrow> syscall list" where
  "confinement a =
     [Read (sync_fd a) 1, Close (sync_fd a),
      Sethostname ''isolyx-guest'', Mount None ''/'' None [''MS_REC'', ''MS_PRIVATE''],
      Mount (Some (rootfs_path a)) (rootfs_path a) (Some ''bind'') [''MS_BIND'', ''MS_REC''],
      Chdir (rootfs_path a),
      Pivot_root ''.'' ''oldroot'', Chdir ''/'', Umount2 ''oldroot'' ''MNT_DETACH''] @
     filter_call a"

lemma execs_child_entry: "execs a (confinement a) (child_entry k a)"
  using execs_and_then [OF adds_sync execs_and_then [OF adds_mounts execs_and_then [OF adds_pivot
      execs_and_then [OF adds_stdout execs_and_then [OF adds_stderr execs_and_then [OF adds_stdin
      execs_and_then [OF adds_seccomp execs_exec]]]]]], of a k k k k k k k k]
  by (simp add: child_entry_def confinement_def)

section \<open>The root file system\<close>

definition prepareRootfs :: "kernel \<Rightarrow> string os" where
  "prepareRootfs k = do { r \<leftarrow> invoke k (Absolute ''rootfs_base''); ret (data r) }"

definition teardownRootfs :: "unit os" where
  "teardownRootfs = ret ()"

section \<open>The parent: spawning\<close>

text \<open>\<open>file_counter.fetch_add(1)\<close>, which wraps.\<close>

definition fetch_add :: "int32 os" where
  "fetch_add = State (\<lambda>s. (file_counter s, s\<lparr>file_counter := file_counter s + 1\<rparr>))"

definition host_file :: "string \<Rightarrow> int32 \<Rightarrow> string" where
  "host_file stem n = snprintf 64 (stem @ show_int (sint n))"

definition prepare_args ::
    "command \<Rightarrow> string \<Rightarrow> int \<Rightarrow> nat option \<Rightarrow> int32 \<Rightarrow> clone_args" where
  "prepare_args c rootfs rfd ctx n =
     \<lparr>ca_executable = executable c, ca_argv = arguments c, rootfs_path = rootfs,
      input_file = (if redirectInput c = [] then None else Some (redirectInput c)),
      output_file = (if redirectOutput c = [] then None else Some (redirectOutput c)),
      sync_fd = rfd, seccomp_ctx = ctx,
      host_out_file = host_file ''/tmp/isolyx_out_'' n,
      host_err_file = host_file ''/tmp/isolyx_err_'' n\<rparr>"

definition clone_flags :: "string list" where
  "clone_flags = [''CLONE_NEWPID'', ''CLONE_NEWUTS'', ''CLONE_NEWNS'', ''CLONE_NEWUSER'',
     ''CLONE_NEWIPC'', ''SIGCHLD'']"

text \<open>
  The identity mapped to root inside: the process's own, or the one \<open>sudo\<close> was called from;
  \<open>None\<close> when \<open>std::stoi\<close> throws.
\<close>

definition host_id :: "kernel \<Rightarrow> int32 \<Rightarrow> string \<Rightarrow> int32 option os" where
  "host_id k own var = do {
     e \<leftarrow> invoke k (Getenv var);
     ret (case env_value e of None \<Rightarrow> Some own | Some v \<Rightarrow> stoi v) }"

text \<open>\<open>snprintf(map_buf, 100, "0 %d 1\n", id)\<close>: the id is unsigned, the conversion signed.\<close>

definition map_line :: "int32 \<Rightarrow> string" where
  "map_line i = snprintf 100 (''0 '' @ show_int (sint i) @ '' 1'' @ newline)"

definition proc_file :: "int \<Rightarrow> string \<Rightarrow> string" where
  "proc_file p name = ''/proc/'' @ show_int p @ ''/'' @ name"

definition write_proc :: "kernel \<Rightarrow> string \<Rightarrow> string \<Rightarrow> string option \<Rightarrow> unit os" where
  "write_proc k path txt msg = do {
     r \<leftarrow> invoke k (Open path Wr_Only);
     (if rv r \<noteq> -1 then do { perform k (Write (rv r) txt); perform k (Close (rv r)) }
      else (case msg of Some m \<Rightarrow> perform k (Perror m) | None \<Rightarrow> ret ())) }"

text \<open>
  How the first half of \<open>isolateAndRun\<close> ends: with a running child, with an early return, with
  an exception from \<open>std::stoi\<close>, or with the process terminated. Each carries the values of the
  reference parameters and of the watchdog at that point.
\<close>

datatype spawn_outcome =
    Spawned int int32 "watchdog option"
  | Spawn_Failed int32 "watchdog option"
  | Spawn_Threw int int32 "watchdog option"
  | Spawn_Terminated

definition map_ids :: "kernel \<Rightarrow> int \<Rightarrow> int \<Rightarrow> bool os" where
  "map_ids k child wfd = do {
     u \<leftarrow> invoke k Getuid;
     g \<leftarrow> invoke k Getgid;
     hu \<leftarrow> host_id k (word_of_int (rv u)) ''SUDO_UID'';
     (case hu of None \<Rightarrow> ret False
      | Some host_uid \<Rightarrow> do {
          hg \<leftarrow> host_id k (word_of_int (rv g)) ''SUDO_GID'';
          (case hg of None \<Rightarrow> ret False
           | Some host_gid \<Rightarrow> do {
               write_proc k (proc_file child ''uid_map'') (map_line host_uid)
                 (Some ''[Isolyx] failed to write uid_map'');
               write_proc k (proc_file child ''setgroups'') ''deny'' None;
               write_proc k (proc_file child ''gid_map'') (map_line host_gid)
                 (Some ''[Isolyx] failed to write gid_map'');
               r \<leftarrow> invoke k (Write wfd ''1'');
               (if rv r \<noteq> 1 then perform k (Perror ''[Isolyx] failed to write to sync pipe'') else ret ());
               perform k (Close wfd);
               ret True }) }) }"

definition start_watchdog :: "kernel \<Rightarrow> watchdog option \<Rightarrow> int \<Rightarrow> watchdog option option os" where
  "start_watchdog k wd p =
     (case wd of None \<Rightarrow> ret (Some None)
      | Some w \<Rightarrow> do { r \<leftarrow> watchdog_start k w p; ret (map_option Some r) })"

definition spawn ::
    "kernel \<Rightarrow> string option \<Rightarrow> watchdog option \<Rightarrow> nat option \<Rightarrow> string \<Rightarrow> command \<Rightarrow> int32 \<Rightarrow> spawn_outcome os"
  where
  "spawn k limiter wd ctx rootfs c uid = do {
     p \<leftarrow> invoke k Pipe;
     if rv p = -1
     then do { perform k (Perror ''[Isolyx] pipe() failed''); ret (Spawn_Failed uid wd) }
     else do {
       n \<leftarrow> (if uid = 0 then fetch_add else ret uid);
       r \<leftarrow> invoke k (Clone clone_flags (prepare_args c rootfs (fst (pipe_fds p)) ctx n));
       if rv r = -1
       then do { perform k (Perror ''[Isolyx] clone() failed''); ret (Spawn_Failed n wd) }
       else do {
         (case limiter of Some path \<Rightarrow> applyToPid k path (rv r) | None \<Rightarrow> ret ());
         w \<leftarrow> start_watchdog k wd (rv r);
         (case w of
            None \<Rightarrow> ret Spawn_Terminated
          | Some w' \<Rightarrow> do {
              perform k (Close (fst (pipe_fds p)));
              ok \<leftarrow> map_ids k (rv r) (snd (pipe_fds p));
              ret (if ok then Spawned (rv r) n w' else Spawn_Threw (rv r) n w') }) } } }"

section \<open>The parent: waiting, preempting, collecting\<close>

text \<open>How a wait status is written into the result; \<open>None\<close> when the status is none of the three.\<close>

definition classify :: "int32 \<Rightarrow> execution_result \<Rightarrow> execution_result option" where
  "classify st res =
     (if WIFEXITED st
      then Some (res\<lparr>exit_code := WEXITSTATUS st, success := (WEXITSTATUS st = 0)\<rparr>)
      else if WIFSIGNALED st then Some (res\<lparr>term_signal := WTERMSIG st, success := False\<rparr>)
      else if WIFSTOPPED st then Some (res\<lparr>preempted := True\<rparr>)
      else None)"

text \<open>
  The polling loop. \<open>Inl\<close> is the early return after a failed \<open>waitpid\<close>, \<open>Inr\<close> a finished wait;
  \<open>None\<close> that the fuel, one unit per round, ran out.
\<close>

fun wait_quantum ::
    "kernel \<Rightarrow> nat \<Rightarrow> int \<Rightarrow> int \<Rightarrow> int \<Rightarrow> execution_result \<Rightarrow> (execution_result + execution_result) option os"
  where
  "wait_quantum k 0 p q elapsed res = ret None"
| "wait_quantum k (Suc fuel) p q elapsed res = do {
     r \<leftarrow> invoke k (Waitpid p [''WNOHANG'', ''WUNTRACED'']);
     if rv r = p \<and> classify (wait_status r) res \<noteq> None
     then ret (Some (Inr (the (classify (wait_status r) res))))
     else if rv r \<noteq> p \<and> rv r = -1
     then do { perform k (Perror ''[Isolyx] waitpid() failed''); ret (Some (Inl res)) }
     else if q \<le> elapsed
     then do { perform k (Kill (- p) 19); wait_quantum k fuel p q elapsed res }
     else do { perform k (Usleep 1000); wait_quantum k fuel p q (elapsed + 1) res } }"

text \<open>The blocking wait of the non-preemptive case.\<close>

definition wait_blocking :: "kernel \<Rightarrow> int \<Rightarrow> execution_result \<Rightarrow> (execution_result + execution_result) os" where
  "wait_blocking k p res = do {
     r \<leftarrow> invoke k (Waitpid p []);
     if rv r = -1
     then do { perform k (Perror ''[Isolyx] waitpid() failed''); ret (Inl res) }
     else ret (Inr (if WIFEXITED (wait_status r) \<or> WIFSIGNALED (wait_status r)
                    then the (classify (wait_status r) res) else res)) }"

text \<open>\<open>read_and_delete\<close>: the loop over \<open>read\<close> takes fuel, one unit per call.\<close>

fun read_loop :: "kernel \<Rightarrow> nat \<Rightarrow> int \<Rightarrow> bytes \<Rightarrow> bytes option os" where
  "read_loop k 0 fd out = ret None"
| "read_loop k (Suc fuel) fd out = do {
     r \<leftarrow> invoke k (Read fd 4096);
     if 0 < rv r then read_loop k fuel fd (out @ take (nat (rv r)) (data r)) else ret (Some out) }"

definition read_and_delete :: "kernel \<Rightarrow> nat \<Rightarrow> string \<Rightarrow> bytes option os" where
  "read_and_delete k fuel path = do {
     r \<leftarrow> invoke k (Open path Rd_Only);
     if rv r = -1 then ret (Some [])
     else do {
       out \<leftarrow> read_loop k fuel (rv r) [];
       (case out of None \<Rightarrow> ret None
        | Some b \<Rightarrow> do { perform k (Close (rv r)); perform k (Unlink path); ret (Some b) }) } }"

definition collect_output ::
    "kernel \<Rightarrow> nat \<Rightarrow> string \<Rightarrow> int32 \<Rightarrow> execution_result \<Rightarrow> execution_result option os" where
  "collect_output k fuel rootfs n res =
     (if sint n \<le> 0 then ret (Some res)
      else do {
        let out_path = rootfs @ ''/tmp/isolyx_out_'' @ show_int (sint n);
        let err_path = rootfs @ ''/tmp/isolyx_err_'' @ show_int (sint n);
        perform k (Print (''[Isolyx] Trying to read: '' @ out_path @ newline));
        o1 \<leftarrow> read_and_delete k fuel out_path;
        (case o1 of None \<Rightarrow> ret None
         | Some b \<Rightarrow> do {
             o2 \<leftarrow> read_and_delete k fuel err_path;
             ret (map_option (\<lambda>e. res\<lparr>stdout_out := b, stderr_out := e\<rparr>) o2) }) })"

text \<open>
  One call of \<open>isolateAndRun\<close>: the result, the reference parameters afterwards, the watchdog, and
  whether an exception left the function or the process was terminated.
\<close>

datatype iso_status = Returned | Threw | Terminated

record burst =
  b_result :: execution_result
  b_pid :: int
  b_unique_id :: int32
  b_watchdog :: "watchdog option"
  b_status :: iso_status

definition wait_child ::
    "kernel \<Rightarrow> nat \<Rightarrow> int \<Rightarrow> int32 \<Rightarrow> execution_result \<Rightarrow> (execution_result + execution_result) option os" where
  "wait_child k fuel p quantum res =
     (if 0 < sint quantum then wait_quantum k fuel p (sint quantum) 0 res
      else do { r \<leftarrow> wait_blocking k p res; ret (Some r) })"

definition finish ::
    "kernel \<Rightarrow> nat \<Rightarrow> string \<Rightarrow> int \<Rightarrow> int32 \<Rightarrow> watchdog option \<Rightarrow> int32 \<Rightarrow> burst option os" where
  "finish k fuel rootfs p n wd quantum = do {
     w \<leftarrow> wait_child k fuel p quantum new_execution_result;
     (case w of
        None \<Rightarrow> ret None
      | Some (Inl res) \<Rightarrow>
          ret (Some \<lparr>b_result = res, b_pid = p, b_unique_id = n, b_watchdog = wd, b_status = Returned\<rparr>)
      | Some (Inr res) \<Rightarrow>
          if preempted res
          then ret (Some \<lparr>b_result = res, b_pid = p, b_unique_id = n, b_watchdog = wd, b_status = Returned\<rparr>)
          else do {
            wd' \<leftarrow> (case wd of None \<Rightarrow> ret None
                     | Some d \<Rightarrow> do { d' \<leftarrow> watchdog_stop k d; ret (Some d') });
            teardownRootfs;
            out \<leftarrow> collect_output k fuel rootfs n res;
            ret (map_option (\<lambda>res'. \<lparr>b_result = res', b_pid = p, b_unique_id = n,
                    b_watchdog = wd', b_status = Returned\<rparr>) out) }) }"

definition isolateAndRun ::
    "kernel \<Rightarrow> nat \<Rightarrow> command \<Rightarrow> int \<Rightarrow> int32 \<Rightarrow> int32 \<Rightarrow> string option \<Rightarrow> watchdog option \<Rightarrow>
     nat option \<Rightarrow> burst option os" where
  "isolateAndRun k fuel c p uid quantum limiter wd ctx =
     (let b = (\<lambda>p n w st. \<lparr>b_result = new_execution_result, b_pid = p, b_unique_id = n,
                 b_watchdog = w, b_status = st\<rparr>)
      in if isEmpty c then ret (Some (b p uid wd Returned))
      else do {
        rootfs \<leftarrow> prepareRootfs k;
        if p \<le> 0 then do {
          sp \<leftarrow> spawn k limiter wd ctx rootfs c uid;
          (case sp of
             Spawn_Failed n w \<Rightarrow> ret (Some (b p n w Returned))
           | Spawn_Threw child n w \<Rightarrow> ret (Some (b child n w Threw))
           | Spawn_Terminated \<Rightarrow> ret (Some (b p uid None Terminated))
           | Spawned child n w \<Rightarrow> finish k fuel rootfs child n w quantum) }
        else do {
          perform k (Kill (- p) 18);
          finish k fuel rootfs p uid wd quantum } })"

section \<open>Properties of the child\<close>

text \<open>
  C2: whatever the kernel answers, the child either returns -1 without having tried to run the
  program, or tries it exactly once, after it got the parent's go-ahead, renamed the host, made
  the mount tree private, bound and entered the new root, pivoted into it, left the old root and
  detached it, and loaded the filter if it has one, in this order, every one of these calls and
  the opening of the input file having succeeded. It never runs the program after a failed step.
\<close>

theorem child_confined_before_exec:
  "\<exists>out h. run_state (child_entry k a) s = (out, after s h) \<and>
     (out = Child_Returned (-1) \<and> no_exec h \<or>
      (\<exists>h1 r t. h = h1 @ (Execvp (ca_executable a) (ca_argv a), r) # t \<and> no_exec h1 \<and> no_exec t \<and>
         passed h1 (confinement a) \<and> all_ok a h1 \<and>
         out = (if rv r = -1 then Child_Returned (-1) else Child_Execed)))"
  using execs_child_entry [of a k] unfolding execs_def exec_post_def by blast

section \<open>Descriptors\<close>

text \<open>The descriptors a history obtained and the ones it gave back.\<close>

fun takes_fd :: "syscall \<times> sysret \<Rightarrow> int multiset" where
  "takes_fd (Pipe, r) = (if rv r = -1 then {#} else {#fst (pipe_fds r), snd (pipe_fds r)#})"
| "takes_fd (Open f m, r) = (if rv r = -1 then {#} else {#rv r#})"
| "takes_fd _ = {#}"

fun drops_fd :: "syscall \<times> sysret \<Rightarrow> int multiset" where
  "drops_fd (Close fd, r) = {#fd#}"
| "drops_fd _ = {#}"

definition obtained :: "history \<Rightarrow> int multiset" where
  "obtained h = sum_list (map takes_fd h)"

definition released :: "history \<Rightarrow> int multiset" where
  "released h = sum_list (map drops_fd h)"

lemma fds_simps [simp]:
  "obtained [] = {#}" "obtained (x # h) = takes_fd x + obtained h"
  "obtained (h @ h') = obtained h + obtained h'"
  "released [] = {#}" "released (x # h) = drops_fd x + released h"
  "released (h @ h') = released h + released h'"
  by (simp_all add: obtained_def released_def)

text \<open>\<open>clone\<close> was tried and failed.\<close>

definition clone_failed :: "history \<Rightarrow> bool" where
  "clone_failed h \<longleftrightarrow> (\<exists>a x. (Clone clone_flags a, x) \<in> set h \<and> rv x = -1)"

lemma clone_failed_Nil [simp]: "\<not> clone_failed []"
  by (simp add: clone_failed_def)

lemma clone_failed_append [simp]: "clone_failed (h @ h') \<longleftrightarrow> clone_failed h \<or> clone_failed h'"
  by (auto simp: clone_failed_def)

lemma clone_failed_Cons [simp]:
  "clone_failed (x # h) \<longleftrightarrow> (\<exists>a r. x = (Clone clone_flags a, r) \<and> rv r = -1) \<or> clone_failed h"
  by (auto simp: clone_failed_def)

text \<open>A computation that closes what it opens and does not fail to clone.\<close>

definition balanced :: "'a os \<Rightarrow> bool" where
  "balanced m \<longleftrightarrow> emits m (\<lambda>_ h. obtained h = released h \<and> \<not> clone_failed h)"

lemma balanced_emits: "balanced m \<Longrightarrow> emits m (\<lambda>_ h. obtained h = released h \<and> \<not> clone_failed h)"
  by (simp add: balanced_def)

lemma balanced_ret: "balanced (ret a)"
  by (simp add: balanced_def emits_ret)

lemma balanced_bind: "balanced m \<Longrightarrow> (\<And>a. balanced (f a)) \<Longrightarrow> balanced (m \<bind> f)"
  unfolding balanced_def
  by (rule emits_bind [where P = "\<lambda>_ h. obtained h = released h \<and> \<not> clone_failed h"], assumption, rule emits_mono) auto

lemma balanced_call:
  "(\<And>r. takes_fd (c, r) = {#} \<and> drops_fd (c, r) = {#} \<and> \<not> clone_failed [(c, r)]) \<Longrightarrow> balanced (invoke k c)"
  "(\<And>r. takes_fd (c, r) = {#} \<and> drops_fd (c, r) = {#} \<and> \<not> clone_failed [(c, r)]) \<Longrightarrow> balanced (perform k c)"
  by (simp_all add: balanced_def emits_invoke emits_perform)

lemma balanced_if: "balanced m \<Longrightarrow> balanced n \<Longrightarrow> balanced (if b then m else n)"
  by simp

lemma balanced_option: "balanced m \<Longrightarrow> (\<And>y. balanced (f y)) \<Longrightarrow> balanced (case x of None \<Rightarrow> m | Some y \<Rightarrow> f y)"
  by (cases x) simp_all

lemmas balanced_rules = balanced_ret balanced_bind balanced_call balanced_if balanced_option

lemma balanced_configure: "balanced (configure k p t m)"
  unfolding configure_def by (intro balanced_rules) simp_all

lemma balanced_applyToPid: "balanced (applyToPid k path p)"
  unfolding applyToPid_def by (rule balanced_configure)

lemma balanced_watcher: "balanced (watcher_start k n w p)" "balanced (watcher_stop k n w)"
  unfolding watcher_start_def watcher_stop_def by (intro balanced_rules; simp)+

lemma balanced_watchdog_start: "balanced (watchdog_start k w p)" "balanced (watchdogs_start k ws p)"
  by (induction k w p and k ws p rule: watchdog_start_watchdogs_start.induct)
     (auto intro!: balanced_rules balanced_watcher)

lemma balanced_watchdog_stop: "balanced (watchdog_stop k w)" "balanced (watchdogs_stop k ws)"
  by (induction k w and k ws rule: watchdog_stop_watchdogs_stop.induct)
     (auto intro!: balanced_rules balanced_watcher)

lemma balanced_start_watchdog: "balanced (start_watchdog k wd p)"
  unfolding start_watchdog_def by (intro balanced_rules balanced_watchdog_start)

lemma balanced_host_id: "balanced (host_id k own var)"
  unfolding host_id_def by (intro balanced_rules) simp_all

lemma balanced_write_proc: "balanced (write_proc k path t m)"
  unfolding balanced_def write_proc_def by (intro emits_rules) simp_all

lemma balanced_wait_quantum: "balanced (wait_quantum k fuel p q e res)"
  by (induction fuel arbitrary: e) (auto intro!: balanced_rules)

lemma balanced_wait_child: "balanced (wait_child k fuel p q res)"
  unfolding wait_child_def wait_blocking_def
  by (intro balanced_rules balanced_wait_quantum) simp_all

lemma balanced_read_loop: "balanced (read_loop k fuel fd out)"
  by (induction fuel arbitrary: out) (auto intro!: balanced_rules)

lemma balanced_sync:
  "balanced (fetch_add)" "balanced (prepareRootfs k)"
proof -
  show "balanced fetch_add" by (simp add: balanced_def emits_def fetch_add_def)
  show "balanced (prepareRootfs k)" unfolding prepareRootfs_def by (intro balanced_rules) simp_all
qed

lemma read_and_delete_fds:
  "emits (read_and_delete k fuel path) (\<lambda>r h. r \<noteq> None \<longrightarrow> obtained h = released h \<and> \<not> clone_failed h)"
  unfolding read_and_delete_def
  by (intro emits_invoke_bind emits_if emits_bind [OF balanced_read_loop [THEN balanced_emits]]
      emits_case_option emits_perform_bind emits_ret) simp_all

lemma collect_output_fds:
  "emits (collect_output k fuel rootfs n res) (\<lambda>r h. r \<noteq> None \<longrightarrow> obtained h = released h \<and> \<not> clone_failed h)"
  unfolding collect_output_def Let_def
  by (intro emits_if emits_perform_bind emits_bind [OF read_and_delete_fds] emits_case_option emits_ret)
     auto

lemma finish_fds:
  "emits (finish k fuel rootfs p n wd q) (\<lambda>r h. \<forall>b. r = Some b \<longrightarrow> b_status b = Returned \<and> obtained h = released h \<and> \<not> clone_failed h)"
  unfolding finish_def teardownRootfs_def
  by (rule emits_bind [OF balanced_wait_child [THEN balanced_emits]])
     (auto split: option.split sum.split intro!: emits_ret emits_if
       emits_bind [OF balanced_watchdog_stop(1) [THEN balanced_emits]]
       emits_bind [OF collect_output_fds])

text \<open>The descriptors still held when spawning is over.\<close>

definition spawn_leak :: "spawn_outcome \<Rightarrow> history \<Rightarrow> int multiset \<Rightarrow> bool" where
  "spawn_leak out h m =
     (case out of Spawned child n w \<Rightarrow> m = {#} \<and> \<not> clone_failed h
      | Spawn_Failed n w \<Rightarrow> if clone_failed h then size m = 2 else m = {#}
      | Spawn_Threw child n w \<Rightarrow> size m = 1
      | Spawn_Terminated \<Rightarrow> True)"

lemma map_ids_fds:
  "emits (map_ids k child wfd)
     (\<lambda>ok h. (if ok then obtained h + {#wfd#} = released h else obtained h = released h) \<and> \<not> clone_failed h)"
  unfolding map_ids_def
  by (intro emits_invoke_bind emits_bind [OF balanced_host_id [THEN balanced_emits]] emits_case_option
      emits_bind [OF balanced_write_proc [THEN balanced_emits]] emits_if_bind emits_perform_bind
      emits_ret_bind emits_ret) simp_all

lemma spawn_fds:
  "emits (spawn k limiter wd ctx rootfs c uid)
     (\<lambda>out h. \<exists>m. obtained h = released h + m \<and> spawn_leak out h m)"
proof -
  have n: "balanced (if uid = 0 then fetch_add else ret uid)"
    by (intro balanced_rules balanced_sync)
  have l: "balanced (case limiter of Some path \<Rightarrow> applyToPid k path p | None \<Rightarrow> ret ())" for p
    by (cases limiter) (simp_all add: balanced_ret balanced_applyToPid)
  show ?thesis
    unfolding spawn_def
    by (intro emits_invoke_bind emits_if emits_perform_bind emits_ret
        emits_bind [OF n [THEN balanced_emits]] emits_bind [OF l [THEN balanced_emits]]
        emits_bind [OF balanced_start_watchdog [THEN balanced_emits]] emits_case_option
        emits_bind [OF map_ids_fds])
       (auto simp: spawn_leak_def union_commute split: if_splits)
qed

text \<open>
  C34: descriptor hygiene of one execution. When the call returns and \<open>clone\<close> did not fail,
  everything opened has been closed; a failing \<open>clone\<close> leaves both ends of the synchronisation
  pipe open (the early return skips their \<open>close\<close>), and an exception from \<open>std::stoi\<close> leaves the
  write end.
\<close>

theorem isolate_descriptors:
  "emits (isolateAndRun k fuel c p uid quantum limiter wd ctx) (\<lambda>r h.
     (case r of None \<Rightarrow> True
      | Some b \<Rightarrow>
         (case b_status b of
            Returned \<Rightarrow>
              (if clone_failed h then (\<exists>fds. obtained h = released h + fds \<and> size fds = 2)
               else obtained h = released h)
          | Threw \<Rightarrow> (\<exists>fd. obtained h = released h + {#fd#})
          | Terminated \<Rightarrow> True)))"
  unfolding isolateAndRun_def Let_def
  apply (intro emits_if emits_ret emits_bind [OF balanced_sync(2) [THEN balanced_emits]]
      emits_bind [OF spawn_fds] emits_perform_bind)
  subgoal by simp
  subgoal for rootfs h sp h'
    by (cases sp) (auto simp: spawn_leak_def size_1_singleton_mset split: option.split
        intro!: emits_ret emits_mono [OF finish_fds])
  subgoal by (rule emits_mono [OF finish_fds]) (auto split: option.split)
  done

section \<open>The go-ahead comes last\<close>

text \<open>The names of the threads a watchdog starts, in order.\<close>

fun wd_names :: "watchdog \<Rightarrow> string list" and wds_names :: "watchdog list \<Rightarrow> string list" where
  "wd_names (TimeoutWatchdog t w) = [''timeout'']"
| "wd_names (AnomalyWatchdog w) = [''anomaly'']"
| "wd_names (CompositeWatchdog ws) = wds_names ws"
| "wds_names [] = []"
| "wds_names (w # ws) = wd_names w @ wds_names ws"

definition starts :: "string list \<Rightarrow> int \<Rightarrow> syscall list" where
  "starts ns p = map (\<lambda>n. Thread_start n p) ns"

text \<open>\<open>calls h\<close> are the starts of all the threads, or, where the start failed, of the first ones.\<close>

definition started :: "'a option \<Rightarrow> string list \<Rightarrow> int \<Rightarrow> history \<Rightarrow> bool" where
  "started r ns p h \<longleftrightarrow> (if r \<noteq> None then calls h = starts ns p else \<exists>m. calls h = take m (starts ns p))"

lemma watcher_start_started: "emits (watcher_start k n w p) (\<lambda>r. started r [n] p)"
  unfolding watcher_start_def by (intro emits_rules) (auto simp: started_def starts_def intro: exI [of _ 0])

lemma watchdog_start_started:
  "emits (watchdog_start k w p) (\<lambda>r. started r (wd_names w) p)"
  "emits (watchdogs_start k ws p) (\<lambda>r. started r (wds_names ws) p)"
proof (induction k w p and k ws p rule: watchdog_start_watchdogs_start.induct)
  case (5 k w ws p)
  have first: "\<exists>m. take n (starts (wd_names w) p) = take m (starts (wd_names w @ wds_names ws) p)" for n
    by (rule exI [of _ "min n (length (wd_names w))"]) (simp add: starts_def min_def)
  have both: "\<exists>m. starts (wd_names w) p @ take n (starts (wds_names ws) p) = take m (starts (wd_names w @ wds_names ws) p)" for n
    by (rule exI [of _ "length (wd_names w) + n"]) (simp add: starts_def)
  show ?case
    unfolding watchdogs_start.simps
  proof (rule emits_bind [OF "5.IH"(1)], rule emits_case_option)
    fix r :: "watchdog option" and h assume "started r (wd_names w) p h" "r = None"
    with first show "emits (ret None) (\<lambda>b h'. started b (wds_names (w # ws)) p (h @ h'))"
      by (intro emits_ret) (auto simp: started_def)
  next
    fix r :: "watchdog option" and h w' assume s: "started r (wd_names w) p h" "r = Some w'"
    have "started (map_option ((#) w') rs) (wds_names (w # ws)) p (h @ h' @ [])" if "started rs (wds_names ws) p h'" for rs h'
      using that s both by (auto simp: started_def starts_def)
    then show "emits (watchdogs_start k ws p \<bind> (\<lambda>rs. ret (map_option ((#) w') rs)))
        (\<lambda>b h'. started b (wds_names (w # ws)) p (h @ h'))"
      by (intro emits_bind [OF "5.IH"(2)] emits_ret) auto
  qed
qed (auto intro!: emits_ret emits_bind [OF watcher_start_started]
      simp: started_def starts_def intro: emits_bind)

text \<open>A file below \<open>/proc\<close> was opened and, where that succeeded, \<open>txt\<close> was written through the descriptor.\<close>

definition written_to :: "string \<Rightarrow> bytes \<Rightarrow> history \<Rightarrow> bool" where
  "written_to path txt h \<longleftrightarrow> (\<exists>r t. h = (Open path Wr_Only, r) # t \<and>
     (if rv r = -1 then effects t = [] else calls t = [Write (rv r) txt, Close (rv r)]))"

lemma write_proc_emits: "emits (write_proc k path t m) (\<lambda>_ h. written_to path t h)"
  unfolding write_proc_def by (intro emits_rules) (auto simp: written_to_def)

text \<open>The identity that is mapped to root, from the answers of \<open>getuid\<close> and \<open>getenv\<close>.\<close>

definition mapped_id :: "sysret \<Rightarrow> sysret \<Rightarrow> int32 option" where
  "mapped_id own e = (case env_value e of None \<Rightarrow> Some (word_of_int (rv own)) | Some v \<Rightarrow> stoi v)"

lemma host_id_emits: "emits (host_id k (word_of_int (rv own)) var) (\<lambda>x h. \<exists>e. h = [(Getenv var, e)] \<and> x = mapped_id own e)"
  unfolding host_id_def by (intro emits_rules) (simp add: mapped_id_def)

text \<open>
  The history \<open>h\<close> maps the identities of \<open>child\<close> in all three files and only then writes the
  go-ahead into \<open>wfd\<close>.
\<close>

definition maps_then_go :: "int \<Rightarrow> int \<Rightarrow> history \<Rightarrow> bool" where
  "maps_then_go child wfd h \<longleftrightarrow> (\<exists>u g eu eg host_uid host_gid h1 h2 h3 y t.
     h = [(Getuid, u), (Getgid, g), (Getenv ''SUDO_UID'', eu), (Getenv ''SUDO_GID'', eg)] @ h1 @ h2 @ h3 @ (Write wfd ''1'', y) # t
     \<and> mapped_id u eu = Some host_uid \<and> mapped_id g eg = Some host_gid
     \<and> written_to (proc_file child ''uid_map'') (map_line host_uid) h1
     \<and> written_to (proc_file child ''setgroups'') ''deny'' h2
     \<and> written_to (proc_file child ''gid_map'') (map_line host_gid) h3
     \<and> effects t = [Close wfd])"

text \<open>\<open>SUDO_UID\<close> or \<open>SUDO_GID\<close> has a value for which \<open>std::stoi\<close> throws.\<close>

definition bad_identity :: "history \<Rightarrow> bool" where
  "bad_identity h \<longleftrightarrow> (\<exists>var e v. var \<in> {''SUDO_UID'', ''SUDO_GID''} \<and> (Getenv var, e) \<in> set h \<and> env_value e = Some v \<and> stoi v = None)"

lemma mapped_id_None: "mapped_id own e = None \<Longrightarrow> \<exists>v. env_value e = Some v \<and> stoi v = None"
  by (auto simp: mapped_id_def split: option.splits)

definition only_asks :: "history \<Rightarrow> bool" where
  "only_asks h \<longleftrightarrow> set (calls h) \<subseteq> {Getuid, Getgid, Getenv ''SUDO_UID'', Getenv ''SUDO_GID''}"

lemma go_ahead_emits:
  "emits (do { r \<leftarrow> invoke k (Write wfd ''1'');
      (if rv r \<noteq> 1 then perform k (Perror m) else ret ());
      perform k (Close wfd);
      ret True })
    (\<lambda>ok h. ok \<and> (\<exists>y t. h = (Write wfd ''1'', y) # t \<and> effects t = [Close wfd]))"
  by (intro emits_rules) auto

lemma map_ids_emits:
  "emits (map_ids k child wfd) (\<lambda>ok h. if ok then maps_then_go child wfd h else only_asks h \<and> bad_identity h)"
  unfolding map_ids_def
proof (intro emits_invoke_bind emits_bind [OF host_id_emits] emits_case_option)
  fix u g hu h assume a: "\<exists>e. h = [(Getenv ''SUDO_UID'', e)] \<and> hu = mapped_id u e" "hu = None"
  then obtain e where e: "h = [(Getenv ''SUDO_UID'', e)]" "mapped_id u e = None" by auto
  from mapped_id_None [OF e(2)] obtain v where "env_value e = Some v" "stoi v = None" by blast
  with e have "bad_identity ((Getuid, u) # (Getgid, g) # h)" unfolding bad_identity_def by auto
  with e show "emits (ret False) (\<lambda>b h'. if b then maps_then_go child wfd ((Getuid, u) # (Getgid, g) # h @ h')
      else only_asks ((Getuid, u) # (Getgid, g) # h @ h') \<and> bad_identity ((Getuid, u) # (Getgid, g) # h @ h'))"
    by (intro emits_ret) (simp add: only_asks_def)
next
  fix u g hu h host_uid hg h' assume a: "\<exists>e. h = [(Getenv ''SUDO_UID'', e)] \<and> hu = mapped_id u e" "hu = Some host_uid"
    "\<exists>e. h' = [(Getenv ''SUDO_GID'', e)] \<and> hg = mapped_id g e" "hg = None"
  then obtain e e' where e: "h = [(Getenv ''SUDO_UID'', e)]" "h' = [(Getenv ''SUDO_GID'', e')]" "mapped_id g e' = None" by auto
  from mapped_id_None [OF e(3)] obtain v where "env_value e' = Some v" "stoi v = None" by blast
  with e have "bad_identity ((Getuid, u) # (Getgid, g) # h @ h')" unfolding bad_identity_def by auto
  with e show "emits (ret False) (\<lambda>b h''. if b then maps_then_go child wfd ((Getuid, u) # (Getgid, g) # h @ h' @ h'')
      else only_asks ((Getuid, u) # (Getgid, g) # h @ h' @ h'') \<and> bad_identity ((Getuid, u) # (Getgid, g) # h @ h' @ h''))"
    by (intro emits_ret) (simp add: only_asks_def)
next
  fix u g hu h host_uid hg h' host_gid assume a: "\<exists>e. h = [(Getenv ''SUDO_UID'', e)] \<and> hu = mapped_id u e" "hu = Some host_uid"
    "\<exists>e. h' = [(Getenv ''SUDO_GID'', e)] \<and> hg = mapped_id g e" "hg = Some host_gid"
  then obtain eu eg where e: "h = [(Getenv ''SUDO_UID'', eu)]" "h' = [(Getenv ''SUDO_GID'', eg)]"
    "mapped_id u eu = Some host_uid" "mapped_id g eg = Some host_gid" by auto
  have go: "maps_then_go child wfd ((Getuid, u) # (Getgid, g) # h @ h' @ h1 @ h2 @ h3 @ (Write wfd ''1'', y) # t)"
    if "written_to (proc_file child ''uid_map'') (map_line host_uid) h1"
      "written_to (proc_file child ''setgroups'') ''deny'' h2"
      "written_to (proc_file child ''gid_map'') (map_line host_gid) h3" "effects t = [Close wfd]" for h1 h2 h3 y t
    unfolding maps_then_go_def
    by (rule exI [of _ u], rule exI [of _ g], rule exI [of _ eu], rule exI [of _ eg], rule exI [of _ host_uid],
        rule exI [of _ host_gid], rule exI [of _ h1], rule exI [of _ h2], rule exI [of _ h3], rule exI [of _ y],
        rule exI [of _ t], simp add: e that)
  show "emits (do {
      write_proc k (proc_file child ''uid_map'') (map_line host_uid) (Some ''[Isolyx] failed to write uid_map'');
      write_proc k (proc_file child ''setgroups'') ''deny'' None;
      write_proc k (proc_file child ''gid_map'') (map_line host_gid) (Some ''[Isolyx] failed to write gid_map'');
      r \<leftarrow> invoke k (Write wfd ''1'');
      (if rv r \<noteq> 1 then perform k (Perror ''[Isolyx] failed to write to sync pipe'') else ret ());
      perform k (Close wfd);
      ret True })
    (\<lambda>b h''. if b then maps_then_go child wfd ((Getuid, u) # (Getgid, g) # h @ h' @ h'')
      else only_asks ((Getuid, u) # (Getgid, g) # h @ h' @ h'') \<and> bad_identity ((Getuid, u) # (Getgid, g) # h @ h' @ h''))"
  proof (intro emits_bind [OF write_proc_emits] emits_mono [OF go_ahead_emits])
    fix h1 h2 h3 ok h4
    assume "written_to (proc_file child ''uid_map'') (map_line host_uid) h1" "written_to (proc_file child ''setgroups'') ''deny'' h2"
      "written_to (proc_file child ''gid_map'') (map_line host_gid) h3" "ok \<and> (\<exists>y t. h4 = (Write wfd ''1'', y) # t \<and> effects t = [Close wfd])"
    with go show "if ok then maps_then_go child wfd ((Getuid, u) # (Getgid, g) # h @ h' @ h1 @ h2 @ h3 @ h4)
      else only_asks ((Getuid, u) # (Getgid, g) # h @ h' @ h1 @ h2 @ h3 @ h4) \<and> bad_identity ((Getuid, u) # (Getgid, g) # h @ h' @ h1 @ h2 @ h3 @ h4)"
      by auto
  qed
qed

definition apply_call :: "string option \<Rightarrow> int \<Rightarrow> syscall list" where
  "apply_call limiter child =
     (case limiter of None \<Rightarrow> []
      | Some path \<Rightarrow> [Write_stream (path @ ''/cgroup.procs'') (show_int child @ newline)])"

definition watch_calls :: "watchdog option \<Rightarrow> int \<Rightarrow> syscall list" where
  "watch_calls wd child = (case wd of None \<Rightarrow> [] | Some d \<Rightarrow> starts (wd_names d) child)"

lemma apply_emits:
  "emits (case limiter of None \<Rightarrow> ret () | Some path \<Rightarrow> applyToPid k path child) (\<lambda>_ h. effects h = apply_call limiter child)"
  unfolding applyToPid_def apply_call_def by (cases limiter) (auto intro!: emits_ret configure_emits)

lemma start_watchdog_emits:
  "emits (start_watchdog k wd child) (\<lambda>r h. if r \<noteq> None then calls h = watch_calls wd child
     else \<exists>m. calls h = take m (watch_calls wd child))"
proof (cases wd)
  case (Some d)
  then show ?thesis
    unfolding start_watchdog_def watch_calls_def option.case
    by (auto simp: started_def intro!: emits_bind [OF watchdog_start_started(1)] emits_ret)
qed (auto simp: start_watchdog_def watch_calls_def intro: emits_ret)

text \<open>A quiet watchdog can be started, so that the process is not terminated.\<close>

lemma start_watchdog_quiet: "\<forall>d. wd = Some d \<longrightarrow> quiet d \<Longrightarrow> fst (run_state (start_watchdog k wd child) s) \<noteq> None"
proof (cases wd)
  case (Some d)
  assume "\<forall>d. wd = Some d \<longrightarrow> quiet d"
  with Some start_quiet(1) [of d k child s] obtain w h where "run_state (watchdog_start k d child) s = (Some w, after s h)"
    by (auto simp: quiet_def)
  with Some show ?thesis by (simp add: start_watchdog_def)
qed (simp add: start_watchdog_def)

lemma fetch_quiet: "emits (if uid = 0 then fetch_add else ret uid) (\<lambda>_ h. h = [])"
  by (simp add: emits_def fetch_add_def)

text \<open>
  The whole history of spawning \<open>child\<close>: the pipe, the clone, the cgroup, the watchdogs, the child's
  end of the pipe, the identities, the go-ahead.
\<close>

definition sets_up :: "string option \<Rightarrow> watchdog option \<Rightarrow> nat option \<Rightarrow> string \<Rightarrow> command \<Rightarrow> int32 \<Rightarrow> int \<Rightarrow> history \<Rightarrow> bool" where
  "sets_up limiter wd ctx rootfs c n child h \<longleftrightarrow> (\<exists>p q ha hw x hm.
     h = [(Pipe, p), (Clone clone_flags (prepare_args c rootfs (fst (pipe_fds p)) ctx n), q)] @ ha @ hw @
         [(Close (fst (pipe_fds p)), x)] @ hm
     \<and> rv p \<noteq> -1 \<and> rv q = child \<and> child \<noteq> -1
     \<and> effects ha = apply_call limiter child \<and> calls hw = watch_calls wd child
     \<and> maps_then_go child (snd (pipe_fds p)) hm)"

text \<open>No byte \<open>1\<close> has been written, the go-ahead the child waits for.\<close>

definition no_go :: "history \<Rightarrow> bool" where
  "no_go h \<longleftrightarrow> (\<forall>fd. Write fd ''1'' \<notin> set (calls h))"

lemma no_go_simps [simp]:
  "no_go []" "no_go ((c, r) # h) \<longleftrightarrow> (\<forall>fd. c \<noteq> Write fd ''1'') \<and> no_go h" "no_go (h @ h') \<longleftrightarrow> no_go h \<and> no_go h'"
  by (auto simp: no_go_def)

lemma no_go_effects: "no_go h \<longleftrightarrow> (\<forall>fd. Write fd ''1'' \<notin> set (effects h))"
  by (simp add: no_go_def)

lemma no_go_apply: "effects h = apply_call limiter child \<Longrightarrow> no_go h"
  unfolding no_go_effects by (simp add: apply_call_def split: option.split)

lemma no_go_watch: "calls h = take m (watch_calls wd child) \<Longrightarrow> no_go h"
  by (auto simp: no_go_def watch_calls_def starts_def split: option.splits dest!: in_set_takeD)

lemma no_go_asks: "only_asks h \<Longrightarrow> no_go h"
  by (auto simp: no_go_def only_asks_def)

text \<open>Every branch of spawning.\<close>

lemma spawn_emits:
  "emits (spawn k limiter wd ctx rootfs c uid) (\<lambda>out h.
     case out of
       Spawned child n w \<Rightarrow> sets_up limiter wd ctx rootfs c n child h
     | Spawn_Failed n w \<Rightarrow> no_go h \<and> (\<forall>a q. (Clone clone_flags a, q) \<in> set h \<longrightarrow> rv q = -1)
         \<and> set (effects h) \<subseteq> {Pipe} \<union> range (Clone clone_flags)
     | Spawn_Threw child n w \<Rightarrow> no_go h \<and> bad_identity h
     | Spawn_Terminated \<Rightarrow> no_go h)"
  unfolding spawn_def
proof (intro emits_invoke_bind emits_if emits_perform_bind emits_bind [OF fetch_quiet]
    emits_bind [OF apply_emits] emits_bind [OF start_watchdog_emits] emits_bind [OF map_ids_emits]
    emits_case_option emits_ret)
  fix p q x :: sysret and n and g ha hw hm :: history and u :: unit and w and w' :: "watchdog option" and ok
  assume a: "rv p \<noteq> -1" "g = []" "rv q \<noteq> -1" "effects ha = apply_call limiter (rv q)"
    "if w \<noteq> None then calls hw = watch_calls wd (rv q) else \<exists>m. calls hw = take m (watch_calls wd (rv q))" "w = Some w'"
    "if ok then maps_then_go (rv q) (snd (pipe_fds p)) hm else only_asks hm \<and> bad_identity hm"
  let ?h = "(Pipe, p) # g @ (Clone clone_flags (prepare_args c rootfs (fst (pipe_fds p)) ctx n), q) # ha @ hw @ (Close (fst (pipe_fds p)), x) # hm @ []"
  have w: "calls hw = watch_calls wd (rv q)" using a(5,6) by simp
  show "case (if ok then Spawned (rv q) n w' else Spawn_Threw (rv q) n w') of
       Spawned child n w \<Rightarrow> sets_up limiter wd ctx rootfs c n child ?h
     | Spawn_Failed n w \<Rightarrow> no_go ?h \<and> (\<forall>a q. (Clone clone_flags a, q) \<in> set ?h \<longrightarrow> rv q = -1)
         \<and> set (effects ?h) \<subseteq> {Pipe} \<union> range (Clone clone_flags)
     | Spawn_Threw child n w \<Rightarrow> no_go ?h \<and> bad_identity ?h
     | Spawn_Terminated \<Rightarrow> no_go ?h"
  proof (cases ok)
    case True
    with a(7) have go: "maps_then_go (rv q) (snd (pipe_fds p)) hm" by simp
    have "sets_up limiter wd ctx rootfs c n (rv q) ?h"
      unfolding sets_up_def
      by (rule exI [of _ p], rule exI [of _ q], rule exI [of _ ha], rule exI [of _ hw], rule exI [of _ x],
          rule exI [of _ hm], simp add: a(1-4) w go)
    with True show ?thesis by simp
  next
    case False
    then have "no_go hm" "bad_identity hm" using a(7) no_go_asks by simp_all
    moreover from this(2) have "bad_identity ?h" unfolding bad_identity_def by auto
    moreover have "no_go ha" "no_go hw" using no_go_apply [OF a(4)] no_go_watch [of hw "length (watch_calls wd (rv q))" wd "rv q"] w by simp_all
    ultimately show ?thesis using False a(2) by simp
  qed
qed (auto dest: no_go_apply no_go_watch)

text \<open>
  C14: a child is released only after everything that is done for it. If spawning succeeds, the
  history is exactly this: a pipe; the clone into new PID, UTS, mount, user and IPC namespaces,
  with the arguments of the command and the read end of that pipe; the child's number into the
  list of its cgroup; the start of every watchdog thread for it; its user map, \<open>deny\<close> for
  \<open>setgroups\<close> and its group map, each opened and, where that succeeds, written with the identity
  the environment says and closed; and only then the go-ahead byte, into the write end of that
  pipe. A file that cannot be opened does not hold the child back. If spawning
  fails or throws, no go-ahead is ever written, so that the child never passes its first step;
  and it throws only if \<open>SUDO_UID\<close> or \<open>SUDO_GID\<close> is not a number.
\<close>

theorem spawn_releases_last:
  "emits (spawn k limiter wd ctx rootfs c uid) (\<lambda>out h.
     case out of
       Spawned child n w \<Rightarrow>
         (\<exists>p q ha hw x u g eu eg host_uid host_gid h1 h2 h3 y t.
            h = [(Pipe, p), (Clone clone_flags (prepare_args c rootfs (fst (pipe_fds p)) ctx n), q)] @ ha @ hw @
              [(Close (fst (pipe_fds p)), x), (Getuid, u), (Getgid, g), (Getenv ''SUDO_UID'', eu), (Getenv ''SUDO_GID'', eg)] @
              h1 @ h2 @ h3 @ (Write (snd (pipe_fds p)) ''1'', y) # t
            \<and> rv p \<noteq> -1 \<and> rv q = child \<and> child \<noteq> -1
            \<and> effects ha = apply_call limiter child \<and> calls hw = watch_calls wd child
            \<and> mapped_id u eu = Some host_uid \<and> mapped_id g eg = Some host_gid
            \<and> written_to (proc_file child ''uid_map'') (map_line host_uid) h1
            \<and> written_to (proc_file child ''setgroups'') ''deny'' h2
            \<and> written_to (proc_file child ''gid_map'') (map_line host_gid) h3
            \<and> effects t = [Close (snd (pipe_fds p))])
     | Spawn_Threw child n w \<Rightarrow> no_go h \<and> bad_identity h
     | _ \<Rightarrow> no_go h)"
proof (rule emits_mono [OF spawn_emits])
  fix out h
  assume a: "case out of
       Spawned child n w \<Rightarrow> sets_up limiter wd ctx rootfs c n child h
     | Spawn_Failed n w \<Rightarrow> no_go h \<and> (\<forall>a q. (Clone clone_flags a, q) \<in> set h \<longrightarrow> rv q = -1)
         \<and> set (effects h) \<subseteq> {Pipe} \<union> range (Clone clone_flags)
     | Spawn_Threw child n w \<Rightarrow> no_go h \<and> bad_identity h
     | Spawn_Terminated \<Rightarrow> no_go h"
  show "case out of
       Spawned child n w \<Rightarrow>
         (\<exists>p q ha hw x u g eu eg host_uid host_gid h1 h2 h3 y t.
            h = [(Pipe, p), (Clone clone_flags (prepare_args c rootfs (fst (pipe_fds p)) ctx n), q)] @ ha @ hw @
              [(Close (fst (pipe_fds p)), x), (Getuid, u), (Getgid, g), (Getenv ''SUDO_UID'', eu), (Getenv ''SUDO_GID'', eg)] @
              h1 @ h2 @ h3 @ (Write (snd (pipe_fds p)) ''1'', y) # t
            \<and> rv p \<noteq> -1 \<and> rv q = child \<and> child \<noteq> -1
            \<and> effects ha = apply_call limiter child \<and> calls hw = watch_calls wd child
            \<and> mapped_id u eu = Some host_uid \<and> mapped_id g eg = Some host_gid
            \<and> written_to (proc_file child ''uid_map'') (map_line host_uid) h1
            \<and> written_to (proc_file child ''setgroups'') ''deny'' h2
            \<and> written_to (proc_file child ''gid_map'') (map_line host_gid) h3
            \<and> effects t = [Close (snd (pipe_fds p))])
     | Spawn_Threw child n w \<Rightarrow> no_go h \<and> bad_identity h
     | _ \<Rightarrow> no_go h"
    using a unfolding sets_up_def maps_then_go_def
    by (cases out) (simp, elim exE conjE, hypsubst, intro exI conjI, simp, assumption+, simp_all)
qed

end
