(* ===== verification/Isolator_Waiting.thy ===== *)
theory Isolator_Waiting
  imports Isolator
begin

text \<open>
  The second half of \<open>LinuxNamespaceIsolator::isolateAndRun\<close>: the time quantum, the
  classification of wait statuses and the collection of the output files. Loops whose end depends
  on the kernel are shown to return within an explicit amount of fuel when the kernel behaves as
  documented.
\<close>

section \<open>Wait statuses\<close>

text \<open>The status words the kernel builds: exited with a code, killed (and dumped core), stopped.\<close>

definition status_exited :: "nat \<Rightarrow> int32" where
  "status_exited c = push_bit 8 (of_nat c)"

definition status_killed :: "nat \<Rightarrow> bool \<Rightarrow> int32" where
  "status_killed g core = (if core then of_nat g OR 0x80 else of_nat g)"

definition status_stopped :: "nat \<Rightarrow> int32" where
  "status_stopped g = push_bit 8 (of_nat g) OR 0x7F"

lemma and_push_bit_low: "n \<le> m \<Longrightarrow> push_bit m (w :: int32) AND mask n = 0"
  by (rule bit_eqI) (auto simp: bit_simps)

lemma status_exited_low: "status_exited c AND 0x7F = 0" "status_exited c AND 0xFF = 0"
  using and_push_bit_low [of 7 8 "of_nat c"] and_push_bit_low [of 8 8 "of_nat c"]
  by (simp_all add: status_exited_def mask_eq_exp_minus_1)

lemma status_exited_code: "c \<le> 255 \<Longrightarrow> WEXITSTATUS (status_exited c) = of_nat c"
proof -
  assume "c \<le> 255"
  then have c: "take_bit 8 (of_nat c :: int32) = of_nat c"
    by (simp add: take_bit_of_nat take_bit_nat_eq_self)
  have "WEXITSTATUS (status_exited c) = drop_bit 8 (push_bit 8 (of_nat c)) AND (drop_bit 8 0xFF00 :: int32)"
    by (simp only: WEXITSTATUS_def status_exited_def drop_bit_and)
  also have "drop_bit 8 (0xFF00 :: int32) = mask 8" by (simp add: mask_eq_exp_minus_1)
  also have "drop_bit 8 (push_bit 8 (of_nat c :: int32)) AND mask 8 = take_bit 8 (drop_bit 8 (push_bit 8 (of_nat c)))"
    by (simp add: take_bit_eq_mask)
  also have "\<dots> = take_bit 8 (of_nat c)"
    by (rule bit_eqI) (auto simp: bit_simps)
  finally show ?thesis by (simp add: c)
qed

lemma low7: "(of_nat g :: int32) AND 0x7F = of_nat (g mod 128)" 
proof -
  have "(of_nat g :: int32) AND mask 7 = take_bit 7 (of_nat g)" by (simp add: take_bit_eq_mask)
  also have "\<dots> = of_nat (take_bit 7 g)" by (simp add: take_bit_of_nat)
  finally show ?thesis by (simp add: mask_eq_exp_minus_1 take_bit_eq_mod)
qed

lemma status_killed_signal: "g < 128 \<Longrightarrow> WTERMSIG (status_killed g core) = of_nat g"
  by (simp add: WTERMSIG_def status_killed_def low7 bit.conj_disj_distrib2 [symmetric]
      and.commute bit.conj_disj_distrib)

lemma of_nat_small: "a < 256 \<Longrightarrow> b < 256 \<Longrightarrow> (of_nat a :: int32) = of_nat b \<longleftrightarrow> a = b"
  by (simp add: of_nat_eq_iff unsigned_of_nat word_unat_eq_iff take_bit_nat_eq_self)

lemma classify_exited:
  "c \<le> 255 \<Longrightarrow> classify (status_exited c) res = Some (res\<lparr>exit_code := of_nat c, success := (c = 0)\<rparr>)"
  using of_nat_small [of c 0]
  by (simp add: classify_def WIFEXITED_def WTERMSIG_def status_exited_low status_exited_code)

lemma classify_killed:
  assumes "0 < g" "g < 127"
  shows "classify (status_killed g core) res = Some (res\<lparr>term_signal := of_nat g, success := False\<rparr>)"
proof -
  have "(of_nat g :: int32) \<noteq> 0" "(of_nat g :: int32) \<noteq> 127"
    using assms of_nat_small [of g 0] of_nat_small [of g 127] by simp_all
  then show ?thesis
    using assms by (simp add: classify_def WIFEXITED_def WIFSIGNALED_def status_killed_signal)
qed

lemma classify_stopped: "classify (status_stopped g) res = Some (res\<lparr>preempted := True\<rparr>)"
proof -
  have "status_stopped g AND 0xFF = 0x7F" "status_stopped g AND 0x7F = 0x7F"
    using and_push_bit_low [of 7 8 "of_nat g"] and_push_bit_low [of 8 8 "of_nat g"]
    by (simp_all add: status_stopped_def bit.conj_disj_distrib2 mask_eq_exp_minus_1)
  then show ?thesis
    by (simp add: classify_def WIFEXITED_def WIFSIGNALED_def WIFSTOPPED_def WTERMSIG_def)
qed

text \<open>
  C35: what became of a child is decoded correctly from the 32-bit wait status and lands in the
  right verdict: exit code \<open>c\<close> (0 to 255) gives that exit code and SUCCESS exactly for 0, else
  FAILED; death by signal \<open>g\<close> (1 to 126, with or without a core dump) gives that signal, and
  TIMEOUT for 9, SECCOMP_VIOLATION for 31, KILLED otherwise; a stopped child is preempted. Every
  SIGKILL is reported as TIMEOUT, also one from the anomaly watchdog or the memory limit.
\<close>

theorem status_to_verdict:
  "(c \<le> 255 \<longrightarrow> (\<exists>r. classify (status_exited c) new_execution_result = Some r \<and> \<not> preempted r \<and>
      exit_code r = of_nat c \<and> verdict r = (if c = 0 then ''SUCCESS'' else ''FAILED'')))
   \<and> (0 < g \<and> g < 127 \<longrightarrow> (\<exists>r. classify (status_killed g core) new_execution_result = Some r \<and>
      \<not> preempted r \<and> term_signal r = of_nat g \<and>
      verdict r = (if g = 9 then ''TIMEOUT'' else if g = 31 then ''SECCOMP_VIOLATION'' else ''KILLED'')))
   \<and> (\<exists>r. classify (status_stopped g) new_execution_result = Some r \<and> preempted r)"
proof -
  have "g < 127 \<Longrightarrow> ((of_nat g :: int32) = 9 \<longleftrightarrow> g = 9) \<and> ((of_nat g :: int32) = 31 \<longleftrightarrow> g = 31) \<and>
      ((of_nat g :: int32) = 0 \<longleftrightarrow> g = 0)"
    using of_nat_small [of g 9] of_nat_small [of g 31] of_nat_small [of g 0] by simp
  then show ?thesis
    by (auto simp: classify_exited classify_killed classify_stopped new_execution_result_def verdict_def)
qed

theorem status_to_verdict_witness:
  "(\<exists>r. classify (status_exited 3) new_execution_result = Some r \<and> verdict r = ''FAILED'')
   \<and> (\<exists>r. classify (status_killed 31 True) new_execution_result = Some r \<and>
        verdict r = ''SECCOMP_VIOLATION'')"
  using status_to_verdict [of 3 31 True] by auto

section \<open>The time quantum\<close>

definition sleeps :: "history \<Rightarrow> nat" where
  "sleeps h = length (filter (\<lambda>c. c = Usleep 1000) (calls h))"

lemma sleeps_simps [simp]:
  "sleeps [] = 0" "sleeps ((c, r) # h) = (if c = Usleep 1000 then 1 else 0) + sleeps h"
  "sleeps (h @ h') = sleeps h + sleeps h'"
  by (simp_all add: sleeps_def)

abbreviation poll :: "int \<Rightarrow> syscall" where
  "poll p \<equiv> Waitpid p [''WNOHANG'', ''WUNTRACED'']"

text \<open>Every SIGSTOP of the group comes when \<open>n\<close> milliseconds have been slept.\<close>

definition stops_after :: "int \<Rightarrow> nat \<Rightarrow> history \<Rightarrow> bool" where
  "stops_after p n h \<longleftrightarrow> sleeps h \<le> n \<and>
     (\<forall>h1 r h2. h = h1 @ (Kill (- p) 19, r) # h2 \<longrightarrow> sleeps h1 = n)"

lemma stops_after_Nil [simp]: "stops_after p n []"
  by (simp add: stops_after_def)

lemma stops_after_other:
  assumes "stops_after p n h" and "c \<noteq> Kill (- p) 19" and "c \<noteq> Usleep 1000"
  shows "stops_after p n ((c, r) # h)"
  using assms by (auto simp: stops_after_def Cons_eq_append_conv)

lemma stops_after_sleep: "stops_after p n h \<Longrightarrow> stops_after p (Suc n) ((Usleep 1000, r) # h)"
  by (fastforce simp: stops_after_def Cons_eq_append_conv)

lemma stops_after_stop: "stops_after p 0 h \<Longrightarrow> stops_after p 0 ((Kill (- p) 19, r) # h)"
  by (auto simp: stops_after_def Cons_eq_append_conv)

text \<open>How the loop's outcome relates to the last poll.\<close>

definition poll_outcome ::
    "int \<Rightarrow> execution_result \<Rightarrow> (execution_result + execution_result) option \<Rightarrow> history \<Rightarrow> bool" where
  "poll_outcome p res out h =
     (case out of None \<Rightarrow> True
      | Some (Inr x) \<Rightarrow> (\<exists>h1 r. h = h1 @ [(poll p, r)] \<and> rv r = p \<and> classify (wait_status r) res = Some x)
      | Some (Inl x) \<Rightarrow> x = res \<and> (\<exists>h1 r t. h = h1 @ [(poll p, r), t] \<and> rv r = -1))"

lemma poll_outcome_Cons: "poll_outcome p res out h \<Longrightarrow> poll_outcome p res out (x # h)"
  by (auto simp: poll_outcome_def split: option.splits sum.splits)

lemma wait_quantum_emits:
  assumes "e \<le> q"
  shows "emits (wait_quantum k fuel p q e res)
     (\<lambda>out h. stops_after p (nat (q - e)) h \<and> poll_outcome p res out h)"
  using assms
proof (induction fuel arbitrary: e)
  case 0
  then show ?case by (auto simp: poll_outcome_def intro: emits_ret)
next
  case (Suc fuel)
  show ?case
    unfolding wait_quantum.simps
  proof (intro emits_invoke_bind emits_if emits_perform_bind emits_ret)
    fix r :: sysret assume "rv r = p \<and> classify (wait_status r) res \<noteq> None"
    then show "stops_after p (nat (q - e)) [(poll p, r)] \<and>
        poll_outcome p res (Some (Inr (the (classify (wait_status r) res)))) [(poll p, r)]"
      by (auto simp: poll_outcome_def intro: stops_after_other)
  next
    fix r x :: sysret assume "rv r \<noteq> p \<and> rv r = -1"
    then show "stops_after p (nat (q - e)) [(poll p, r), (Perror ''[Isolyx] waitpid() failed'', x)] \<and>
        poll_outcome p res (Some (Inl res)) [(poll p, r), (Perror ''[Isolyx] waitpid() failed'', x)]"
      by (auto simp: poll_outcome_def intro!: stops_after_other)
  next
    fix r x :: sysret assume "q \<le> e"
    with Suc.prems have "e = q" by simp
    with Suc.IH [of e] show "emits (wait_quantum k fuel p q e res)
        (\<lambda>out h. stops_after p (nat (q - e)) ((poll p, r) # (Kill (- p) 19, x) # h) \<and>
           poll_outcome p res out ((poll p, r) # (Kill (- p) 19, x) # h))"
      by (auto elim!: emits_mono intro!: stops_after_other stops_after_stop poll_outcome_Cons)
  next
    fix r x :: sysret assume "\<not> q \<le> e"
    with Suc.prems have e: "e + 1 \<le> q" "nat (q - e) = Suc (nat (q - (e + 1)))" by simp_all
    show "emits (wait_quantum k fuel p q (e + 1) res)
        (\<lambda>out h. stops_after p (nat (q - e)) ((poll p, r) # (Usleep 1000, x) # h) \<and>
           poll_outcome p res out ((poll p, r) # (Usleep 1000, x) # h))"
      unfolding e(2) using Suc.IH [OF e(1)]
      by (auto elim!: emits_mono intro!: stops_after_other stops_after_sleep poll_outcome_Cons)
  qed
qed

text \<open>
  C36: the quantum is honoured. While a job with a positive quantum is awaited, its group is sent
  SIGSTOP only after exactly the quantum's number of one-millisecond sleeps, and the loop never
  sleeps longer; it ends with a result only when the last \<open>waitpid\<close> reported the child, whose
  status then determines the result, and gives up only after a failed \<open>waitpid\<close>.
\<close>

theorem quantum_honoured:
  assumes "0 < sint quantum"
  shows "emits (wait_child k fuel p quantum res)
     (\<lambda>out h. stops_after p (nat (sint quantum)) h \<and> poll_outcome p res out h)"
  using assms wait_quantum_emits [of 0 "sint quantum" k fuel p res] by (simp add: wait_child_def)

theorem quantum_honoured_witness:
  "\<forall>k fuel. emits (wait_child k fuel 42 2000 new_execution_result)
     (\<lambda>out h. stops_after 42 2000 h \<and> poll_outcome 42 new_execution_result out h)"
  using quantum_honoured [of 2000 _ _ 42 new_execution_result] by simp

text \<open>
  What ends the loop: once the group has been stopped \<open>m\<close> times since it was last resumed or
  created, \<open>waitpid\<close> reports the child's state change (or fails). \<open>stops_since\<close> counts the
  SIGSTOPs at the end of a history.
\<close>

fun resumes :: "int \<Rightarrow> syscall \<Rightarrow> bool" where
  "resumes p (Kill q g) = (q = - p \<and> g = 18)"
| "resumes p (Clone f a) = True"
| "resumes p _ = False"

definition stops_since :: "int \<Rightarrow> history \<Rightarrow> nat" where
  "stops_since p h =
     length (filter (\<lambda>c. c = Kill (- p) 19) (takeWhile (\<lambda>c. \<not> resumes p c) (rev (calls h))))"

lemma stops_since_snoc:
  "\<not> resumes p c \<Longrightarrow> stops_since p (h @ [(c, r)]) = (if c = Kill (- p) 19 then 1 else 0) + stops_since p h"
  by (simp add: stops_since_def)

definition responsive :: "kernel \<Rightarrow> int \<Rightarrow> nat \<Rightarrow> bool" where
  "responsive k p m \<longleftrightarrow> (\<forall>h. m \<le> stops_since p h \<longrightarrow>
     rv (k h (poll p)) = -1 \<or>
     rv (k h (poll p)) = p \<and> classify (wait_status (k h (poll p))) new_execution_result \<noteq> None)"

lemma classify_None: "classify st res = None \<longleftrightarrow> classify st res' = None"
  by (simp add: classify_def)

lemma wait_quantum_returns:
  assumes "responsive k p m" and "0 < p"
  shows "nat (q - e) + (m - stops_since p (trace s)) < fuel \<Longrightarrow>
    \<exists>out s'. run_state (wait_quantum k fuel p q e res) s = (Some out, s')"
proof (induction fuel arbitrary: e s)
  case (Suc fuel)
  let ?r = "k (trace s) (poll p)"
  let ?s1 = "after s [(poll p, ?r)]"
  show ?case
  proof (cases "rv ?r = p \<and> classify (wait_status ?r) res \<noteq> None \<or> rv ?r = -1")
    case True
    then show ?thesis using assms(2) by auto
  next
    case False
    then have m: "stops_since p (trace s) < m"
      using assms(1) classify_None unfolding responsive_def by (metis not_le_imp_less)
    have 1: "stops_since p (trace s @ [(poll p, ?r)]) = stops_since p (trace s)"
      by (simp add: stops_since_snoc)
    show ?thesis
    proof (cases "q \<le> e")
      case True
      let ?x = "(Kill (- p) 19, k (trace ?s1) (Kill (- p) 19))"
      have "stops_since p (trace (after ?s1 [?x])) = Suc (stops_since p (trace s))"
        using 1 stops_since_snoc [of p "Kill (- p) 19" "trace ?s1"] by simp
      with Suc.prems m True have "nat (q - e) + (m - stops_since p (trace (after ?s1 [?x]))) < fuel"
        by simp
      from Suc.IH [OF this] False True show ?thesis by auto
    next
      case le: False
      let ?x = "(Usleep 1000, k (trace ?s1) (Usleep 1000))"
      have "stops_since p (trace (after ?s1 [?x])) = stops_since p (trace s)"
        using 1 stops_since_snoc [of p "Usleep 1000" "trace ?s1"] by simp
      with Suc.prems le have "nat (q - (e + 1)) + (m - stops_since p (trace (after ?s1 [?x]))) < fuel"
        by simp
      from Suc.IH [OF this] False le show ?thesis by auto
    qed
  qed
qed simp

text \<open>
  A preemptible wait ends. If the kernel reports a stopped or ended child after at most \<open>m\<close>
  SIGSTOPs, the loop returns after at most quantum plus \<open>m\<close> plus one polls, from every state and
  whatever the other answers are.
\<close>

lemma quantum_wait_returns:
  assumes "responsive k p m" and "0 < p" and "0 < sint quantum"
    and "nat (sint quantum) + m < fuel"
  shows "\<exists>out s'. run_state (wait_child k fuel p quantum res) s = (Some out, s')"
  using wait_quantum_returns [OF assms(1,2), of "sint quantum" 0 s fuel res] assms
  by (simp add: wait_child_def)

text \<open>A kernel whose child runs until its group is stopped.\<close>

definition busy_child :: "int \<Rightarrow> kernel" where
  "busy_child p h c =
     (let none = \<lparr>rv = 0, pipe_fds = (3, 4), wait_status = 0, data = [], env_value = None, numbers = [], err_number = 0\<rparr>
      in if c = poll p \<and> 1 \<le> stops_since p h
         then none\<lparr>rv := p, wait_status := status_stopped 19\<rparr> else none)"

lemma quantum_wait_returns_example:
  "responsive (busy_child 42) 42 1 \<and>
   (\<exists>out s'. run_state (wait_child (busy_child 42) 2002 42 2000 new_execution_result)
      \<lparr>trace = [], file_counter = 1\<rparr> = (Some out, s'))"
proof -
  have r: "responsive (busy_child 42) 42 1"
    by (simp add: responsive_def busy_child_def Let_def classify_stopped)
  then show ?thesis
    using quantum_wait_returns [OF r, of 2000 2002 new_execution_result "\<lparr>trace = [], file_counter = 1\<rparr>"]
    by simp
qed

section \<open>Collecting the output\<close>

text \<open>
  A kernel that, from the history \<open>h0\<close> on, serves the contents \<open>f\<close> on descriptor \<open>fd\<close>: as long as
  only \<open>read\<close> is called, each call delivers a non-empty piece of what is left, of any size, and
  nothing at the end.
\<close>

fun delivered :: "history \<Rightarrow> nat" where
  "delivered [] = 0"
| "delivered ((c, r) # h) = nat (rv r) + delivered h"

lemma delivered_append [simp]: "delivered (h @ h') = delivered h + delivered h'"
  by (induction h rule: delivered.induct) simp_all

definition serves :: "kernel \<Rightarrow> history \<Rightarrow> int \<Rightarrow> bytes \<Rightarrow> bool" where
  "serves k h0 fd f \<longleftrightarrow> (\<forall>h. set (calls h) \<subseteq> {Read fd 4096} \<longrightarrow>
     (let r = k (h0 @ h) (Read fd 4096); left = drop (delivered h) f
      in 0 \<le> rv r \<and> nat (rv r) \<le> length left \<and> (rv r = 0 \<longleftrightarrow> left = []) \<and>
         take (nat (rv r)) (data r) = take (nat (rv r)) left))"

lemma read_loop_serves:
  assumes "serves k h0 fd f"
  shows "trace s = h0 @ h \<Longrightarrow> set (calls h) \<subseteq> {Read fd 4096} \<Longrightarrow> delivered h \<le> length f \<Longrightarrow>
    length f - delivered h < fuel \<Longrightarrow>
    \<exists>h'. run_state (read_loop k fuel fd (take (delivered h) f)) s = (Some f, after s h')"
proof (induction fuel arbitrary: s h)
  case (Suc fuel)
  let ?r = "k (trace s) (Read fd 4096)"
  have r: "0 \<le> rv ?r" "nat (rv ?r) \<le> length f - delivered h"
      "rv ?r = 0 \<longleftrightarrow> length f \<le> delivered h"
      "take (nat (rv ?r)) (data ?r) = take (nat (rv ?r)) (drop (delivered h) f)"
    using assms Suc.prems(1,2) unfolding serves_def Let_def by (metis length_drop drop_eq_Nil)+
  show ?case
  proof (cases "0 < rv ?r")
    case True
    let ?h = "h @ [(Read fd 4096, ?r)]"
    let ?s = "after s [(Read fd 4096, ?r)]"
    have d: "delivered ?h = delivered h + nat (rv ?r)" by simp
    have "\<exists>h'. run_state (read_loop k fuel fd (take (delivered ?h) f)) ?s = (Some f, after ?s h')"
      by (rule Suc.IH) (use Suc.prems r True in \<open>auto simp: d\<close>)
    moreover have "take (delivered h) f @ take (nat (rv ?r)) (data ?r) = take (delivered ?h) f"
      unfolding d r(4) by (simp add: take_add)
    ultimately show ?thesis using True by auto
  next
    case False
    with r have "take (delivered h) f = f" by simp
    with False show ?thesis by auto
  qed
qed simp

text \<open>
  C37: the output of a finished job is collected completely. If the file can be opened and the
  kernel serves its contents \<open>f\<close> in pieces of any size, \<open>read_and_delete\<close> returns exactly \<open>f\<close> with
  fuel one more than its length, and ends by closing the descriptor and unlinking the file.
\<close>

theorem output_collected:
  assumes "k (trace s) (Open path Rd_Only) = r" and "rv r \<noteq> -1"
    and "serves k (trace s @ [(Open path Rd_Only, r)]) (rv r) f" and "length f < fuel"
  shows "\<exists>s' h x y. run_state (read_and_delete k fuel path) s = (Some f, s') \<and>
    trace s' = trace s @ h @ [(Close (rv r), x), (Unlink path, y)]"
proof -
  from read_loop_serves [OF assms(3), of "after s [(Open path Rd_Only, r)]" "[]" fuel] assms(4)
  obtain h' where "run_state (read_loop k fuel (rv r) []) (after s [(Open path Rd_Only, r)])
      = (Some f, after (after s [(Open path Rd_Only, r)]) h')" by auto
  then show ?thesis using assms(1,2) by (auto simp: read_and_delete_def)
qed

text \<open>A kernel with one file, read in pieces of at most 4096 bytes.\<close>

definition one_file :: "bytes \<Rightarrow> kernel" where
  "one_file f h c =
     (let none = \<lparr>rv = 0, pipe_fds = (3, 4), wait_status = 0, data = [], env_value = None, numbers = [], err_number = 0\<rparr>
      in case c of
           Open _ _ \<Rightarrow> none\<lparr>rv := 5\<rparr>
         | Read _ _ \<Rightarrow>
             (let piece = take 4096 (drop (delivered (tl h)) f)
              in none\<lparr>rv := int (length piece), data := piece\<rparr>)
         | _ \<Rightarrow> none)"

theorem output_collected_witness:
  "\<exists>s'. run_state (read_and_delete (one_file ''hello'') 6 ''out'') \<lparr>trace = [], file_counter = 1\<rparr>
     = (Some ''hello'', s')"
proof -
  let ?s = "\<lparr>trace = [], file_counter = 1\<rparr> :: os_state"
  let ?r = "one_file ''hello'' [] (Open ''out'' Rd_Only)"
  have "serves (one_file ''hello'') [(Open ''out'' Rd_Only, ?r)] 5 ''hello''"
    by (simp add: serves_def one_file_def Let_def)
  then show ?thesis
    using output_collected [of "one_file ''hello''" ?s "''out''" ?r "''hello''" 6]
    by (auto simp: one_file_def Let_def)
qed

section \<open>Names of the output files\<close>

lemma show_int_inject: "show_int i = show_int j \<longleftrightarrow> i = j"
proof -
  have hd: "hd (digits n) \<noteq> CHR ''-''" for n
  proof -
    have "is_digit (hd (digits n))"
      using digits_are_digits [of n] by (simp add: list_all_iff)
    then show ?thesis by (auto simp: is_digit_def)
  qed
  have dg: "digits m = digits n \<longleftrightarrow> m = n" for m n
    by (metis decimal_value_digits)
  show ?thesis
    using hd [of "nat i"] hd [of "nat j"]
    by (auto simp: show_int_def dg split: if_splits) (metis list.sel(1))+
qed

lemma host_file_fits: "length stem \<le> 52 \<Longrightarrow> host_file stem n = stem @ show_int (sint n)"
  using show_int32_length [of n] by (simp add: host_file_def snprintf_def)

text \<open>
  The 64-byte buffers for the output file names never truncate, for any of the 2^32 values
  of the id, so the name the child writes to is the name the parent later reads below the root
  file system; and different ids give different names.
\<close>

lemma host_file_names:
  "host_file ''/tmp/isolyx_out_'' n = ''/tmp/isolyx_out_'' @ show_int (sint n)
   \<and> host_file ''/tmp/isolyx_err_'' n = ''/tmp/isolyx_err_'' @ show_int (sint n)
   \<and> (host_file ''/tmp/isolyx_out_'' n = host_file ''/tmp/isolyx_out_'' m \<longleftrightarrow> n = m)
   \<and> (host_file ''/tmp/isolyx_err_'' n = host_file ''/tmp/isolyx_err_'' m \<longleftrightarrow> n = m)"
  using show_int_inject [of "sint n" "sint m"] by (auto simp: host_file_fits intro: signed_word_eqI)

end
