(* ===== verification/Json_Utf8.thy ===== *)
theory Json_Utf8
  imports Isolyx_Prelude
begin

text \<open>
  The UTF-8 decoder of the vendored JSON library (\<open>serializer::decode\<close> in \<open>include/json.hpp\<close>), a
  table-driven automaton that checks strings before they are written, against the definition of
  UTF-8 as the encoding of Unicode scalar values. Bytes are natural numbers below 256.
\<close>

unbundle bit_operations_syntax

section \<open>The automaton\<close>

definition utf8d :: "nat list" where
  "utf8d = [
      0, 0, 0, 0, 0, 0, 0, 0, 0, 0, 0, 0, 0, 0, 0, 0, 0, 0, 0, 0, 0, 0, 0, 0, 0, 0, 0, 0, 0, 0, 0, 0,
      0, 0, 0, 0, 0, 0, 0, 0, 0, 0, 0, 0, 0, 0, 0, 0, 0, 0, 0, 0, 0, 0, 0, 0, 0, 0, 0, 0, 0, 0, 0, 0,
      0, 0, 0, 0, 0, 0, 0, 0, 0, 0, 0, 0, 0, 0, 0, 0, 0, 0, 0, 0, 0, 0, 0, 0, 0, 0, 0, 0, 0, 0, 0, 0,
      0, 0, 0, 0, 0, 0, 0, 0, 0, 0, 0, 0, 0, 0, 0, 0, 0, 0, 0, 0, 0, 0, 0, 0, 0, 0, 0, 0, 0, 0, 0, 0,
      1, 1, 1, 1, 1, 1, 1, 1, 1, 1, 1, 1, 1, 1, 1, 1, 9, 9, 9, 9, 9, 9, 9, 9, 9, 9, 9, 9, 9, 9, 9, 9,
      7, 7, 7, 7, 7, 7, 7, 7, 7, 7, 7, 7, 7, 7, 7, 7, 7, 7, 7, 7, 7, 7, 7, 7, 7, 7, 7, 7, 7, 7, 7, 7,
      8, 8, 2, 2, 2, 2, 2, 2, 2, 2, 2, 2, 2, 2, 2, 2, 2, 2, 2, 2, 2, 2, 2, 2, 2, 2, 2, 2, 2, 2, 2, 2,
      10, 3, 3, 3, 3, 3, 3, 3, 3, 3, 3, 3, 3, 4, 3, 3, 11, 6, 6, 6, 5, 8, 8, 8, 8, 8, 8, 8, 8, 8, 8, 8,
      0, 1, 2, 3, 5, 8, 7, 1, 1, 1, 4, 6, 1, 1, 1, 1, 1, 1, 1, 1, 1, 1, 1, 1, 1, 1, 1, 1, 1, 1, 1, 1,
      1, 0, 1, 1, 1, 1, 1, 0, 1, 0, 1, 1, 1, 1, 1, 1, 1, 2, 1, 1, 1, 1, 1, 2, 1, 2, 1, 1, 1, 1, 1, 1,
      1, 1, 1, 1, 1, 1, 1, 2, 1, 1, 1, 1, 1, 1, 1, 1, 1, 2, 1, 1, 1, 1, 1, 1, 1, 2, 1, 1, 1, 1, 1, 1,
      1, 1, 1, 1, 1, 1, 1, 3, 1, 3, 1, 1, 1, 1, 1, 1, 1, 3, 1, 1, 1, 1, 1, 3, 1, 3, 1, 1, 1, 1, 1, 1,
      1, 3, 1, 1, 1, 1, 1, 1, 1, 1, 1, 1, 1, 1, 1, 1]"

definition UTF8_ACCEPT :: nat where "UTF8_ACCEPT = 0"
definition UTF8_REJECT :: nat where "UTF8_REJECT = 1"

text \<open>
  One step: the new state and code point. Both lookups are within the table's 400 entries; the
  code point is a \<open>uint32_t\<close>.
\<close>

definition decode :: "nat \<Rightarrow> nat \<Rightarrow> nat \<Rightarrow> nat \<times> nat" where
  "decode state codep byte =
     (let type = utf8d ! byte;
          codep' = (if state \<noteq> UTF8_ACCEPT then ((byte AND 0x3F) OR (push_bit 6 codep)) mod 2 ^ 32
                    else (drop_bit type 0xFF) AND byte)
      in (utf8d ! (256 + state * 16 + type), codep'))"

fun decode_run :: "nat \<Rightarrow> nat \<Rightarrow> nat list \<Rightarrow> nat \<times> nat" where
  "decode_run state codep [] = (state, codep)"
| "decode_run state codep (b # bs) =
     (case decode state codep b of (st, cp) \<Rightarrow> decode_run st cp bs)"

section \<open>UTF-8\<close>

text \<open>Unicode scalar values: code points other than surrogates.\<close>

definition scalar :: "nat \<Rightarrow> bool" where
  "scalar c \<longleftrightarrow> c < 0x110000 \<and> \<not> (0xD800 \<le> c \<and> c \<le> 0xDFFF)"

definition utf8_encode :: "nat \<Rightarrow> nat list" where
  "utf8_encode c =
     (if c < 0x80 then [c]
      else if c < 0x800 then [0xC0 + c div 64, 0x80 + c mod 64]
      else if c < 0x10000 then [0xE0 + c div 4096, 0x80 + c div 64 mod 64, 0x80 + c mod 64]
      else [0xF0 + c div 262144, 0x80 + c div 4096 mod 64, 0x80 + c div 64 mod 64, 0x80 + c mod 64])"

definition utf8_string :: "nat list \<Rightarrow> nat list" where
  "utf8_string cs = concat (map utf8_encode cs)"

definition valid_utf8 :: "nat list \<Rightarrow> bool" where
  "valid_utf8 bs \<longleftrightarrow> (\<exists>cs. list_all scalar cs \<and> bs = utf8_string cs)"

section \<open>The automaton as a relation between ranges\<close>

text \<open>The character class of a byte.\<close>

definition byte_type :: "nat \<Rightarrow> nat" where
  "byte_type b = (if b < 0x80 then 0 else if b < 0x90 then 1 else if b < 0xA0 then 9
     else if b < 0xC0 then 7 else if b < 0xC2 then 8 else if b < 0xE0 then 2
     else if b = 0xE0 then 10 else if b < 0xED then 3 else if b = 0xED then 4 else if b < 0xF0 then 3
     else if b = 0xF0 then 11 else if b < 0xF4 then 6 else if b = 0xF4 then 5 else 8)"

lemma utf8d_types: "b < 256 \<Longrightarrow> utf8d ! b = byte_type b"
proof -
  have "list_all (\<lambda>b. utf8d ! b = byte_type b) [0..<256]" by code_simp
  then show "b < 256 \<Longrightarrow> utf8d ! b = byte_type b" by (simp add: list_all_iff)
qed

text \<open>
  The states: 0 accept, 1 reject, 2 and 3 expect one and two continuation bytes, 4 and 5 follow E0
  and ED, 6 follows F0, 7 follows F1 to F3, 8 follows F4.
\<close>

definition next_state :: "nat \<Rightarrow> nat \<Rightarrow> nat" where
  "next_state st b =
     (if st = 0 then (if b < 0x80 then 0 else if b < 0xC2 then 1 else if b < 0xE0 then 2
        else if b = 0xE0 then 4 else if b = 0xED then 5 else if b < 0xF0 then 3
        else if b = 0xF0 then 6 else if b < 0xF4 then 7 else if b = 0xF4 then 8 else 1)
      else if st = 2 \<and> 0x80 \<le> b \<and> b < 0xC0 then 0
      else if st = 3 \<and> 0x80 \<le> b \<and> b < 0xC0 then 2
      else if st = 4 \<and> 0xA0 \<le> b \<and> b < 0xC0 then 2
      else if st = 5 \<and> 0x80 \<le> b \<and> b < 0xA0 then 2
      else if st = 6 \<and> 0x90 \<le> b \<and> b < 0xC0 then 3
      else if st = 7 \<and> 0x80 \<le> b \<and> b < 0xC0 then 3
      else if st = 8 \<and> 0x80 \<le> b \<and> b < 0x90 then 3
      else 1)"

definition next_by_type :: "nat \<Rightarrow> nat \<Rightarrow> nat" where
  "next_by_type st t =
     (if st = 0 then [0, 1, 2, 3, 5, 8, 7, 1, 1, 1, 4, 6] ! t
      else if st = 2 \<and> t \<in> {1, 7, 9} then 0
      else if st = 3 \<and> t \<in> {1, 7, 9} then 2
      else if st = 4 \<and> t = 7 then 2
      else if st = 5 \<and> t \<in> {1, 9} then 2
      else if st = 6 \<and> t \<in> {7, 9} then 3
      else if st = 7 \<and> t \<in> {1, 7, 9} then 3
      else if st = 8 \<and> t = 1 then 3
      else 1)"

lemma utf8d_by_type: "st < 9 \<Longrightarrow> t < 12 \<Longrightarrow> utf8d ! (256 + st * 16 + t) = next_by_type st t"
proof -
  have "list_all (\<lambda>st. list_all (\<lambda>t. utf8d ! (256 + st * 16 + t) = next_by_type st t) [0..<12]) [0..<9]"
    by code_simp
  then show "st < 9 \<Longrightarrow> t < 12 \<Longrightarrow> utf8d ! (256 + st * 16 + t) = next_by_type st t"
    by (simp add: list_all_iff)
qed

lemma next_by_byte_type: "b < 256 \<Longrightarrow> next_by_type st (byte_type b) = next_state st b"
  by (auto simp: next_by_type_def next_state_def byte_type_def)

lemma byte_type_bound: "byte_type b < 12"
  by (simp add: byte_type_def)

lemma utf8d_next: "st < 9 \<Longrightarrow> b < 256 \<Longrightarrow> utf8d ! (256 + st * 16 + utf8d ! b) = next_state st b"
  by (simp add: utf8d_types utf8d_by_type byte_type_bound next_by_byte_type)

lemma next_state_bound: "next_state st b < 9"
  by (simp add: next_state_def)

text \<open>The lookups of \<open>decode\<close> stay inside the table.\<close>

lemma utf8d_length: "length utf8d = 400"
  by code_simp

section \<open>Code points\<close>

lemma or_push_bit: "((b :: nat) AND 0x3F) OR push_bit 6 c = 64 * c + b mod 64"
proof -
  have b: "b AND 0x3F = take_bit 6 b"
    by (simp add: take_bit_eq_mask mask_eq_exp_minus_1)
  have "take_bit 6 b AND push_bit 6 c = 0"
    by (rule bit_eqI) (auto simp: bit_simps)
  then have "take_bit 6 b OR push_bit 6 c = take_bit 6 b + push_bit 6 c"
    by (simp add: disjunctive_add_eq_or)
  then show ?thesis by (simp add: b push_bit_eq_mult take_bit_eq_mod)
qed

lemma lead_bits: "(drop_bit t 0xFF :: nat) AND b = b mod 2 ^ (8 - t)"
proof -
  have "(0xFF :: nat) = mask 8" by (simp add: mask_eq_exp_minus_1)
  then have "(drop_bit t 0xFF :: nat) = mask (8 - t)" by (simp only: drop_bit_mask_eq)
  then show ?thesis by (simp add: and.commute flip: take_bit_eq_mask take_bit_eq_mod)
qed

lemma decode_eq:
  assumes "st < 9" and "b < 256"
  shows "decode st cp b = (next_state st b,
     if st = 0 then b mod 2 ^ (8 - byte_type b) else (64 * cp + b mod 64) mod 2 ^ 32)"
  using assms utf8d_next [OF assms]
  by (simp add: decode_def Let_def UTF8_ACCEPT_def or_push_bit lead_bits utf8d_types)

text \<open>The payload of a leading byte.\<close>

definition lead :: "nat \<Rightarrow> nat" where
  "lead b = b mod 2 ^ (8 - byte_type b)"

lemma lead_payload:
  "2 \<le> x \<Longrightarrow> x < 32 \<Longrightarrow> lead (192 + x) = x" "x < 16 \<Longrightarrow> lead (224 + x) = x" "x < 5 \<Longrightarrow> lead (240 + x) = x"
proof -
  have "list_all (\<lambda>x. 2 \<le> x \<longrightarrow> lead (192 + x) = x) [0..<32]" "list_all (\<lambda>x. lead (224 + x) = x) [0..<16]"
    "list_all (\<lambda>x. lead (240 + x) = x) [0..<5]" by code_simp+
  then show "2 \<le> x \<Longrightarrow> x < 32 \<Longrightarrow> lead (192 + x) = x" "x < 16 \<Longrightarrow> lead (224 + x) = x"
    "x < 5 \<Longrightarrow> lead (240 + x) = x" by (simp_all add: list_all_iff)
qed

lemma decode_lead: "b < 256 \<Longrightarrow> decode 0 cp b = (next_state 0 b, lead b)"
  by (simp add: decode_eq lead_def)

lemma continuation_payload: "y < 64 \<Longrightarrow> (128 + y) mod 64 = (y :: nat)"
proof -
  assume "y < 64"
  have "(128 + y) mod 64 = (2 * 64 + y) mod 64" by simp
  also have "\<dots> = y mod 64" by (rule mod_mult_self3)
  finally show ?thesis using \<open>y < 64\<close> by simp
qed

lemma decode_continuation:
  "0 < st \<Longrightarrow> st < 9 \<Longrightarrow> y < 64 \<Longrightarrow> cp < 2 ^ 20 \<Longrightarrow>
   decode st cp (128 + y) = (next_state st (128 + y), 64 * cp + y)"
  by (simp add: decode_eq continuation_payload)

lemma decode_two:
  "2 \<le> x \<Longrightarrow> x < 32 \<Longrightarrow> z < 64 \<Longrightarrow> decode_run 0 cp [192 + x, 128 + z] = (0, 64 * x + z)"
  by (simp add: decode_lead decode_continuation lead_payload next_state_def)

lemma decode_three:
  "x < 16 \<Longrightarrow> y < 64 \<Longrightarrow> z < 64 \<Longrightarrow> (x = 0 \<longrightarrow> 32 \<le> y) \<Longrightarrow> (x = 13 \<longrightarrow> y < 32) \<Longrightarrow>
   decode_run 0 cp [224 + x, 128 + y, 128 + z] = (0, 64 * (64 * x + y) + z)"
  by (auto simp: decode_lead decode_continuation lead_payload next_state_def)

lemma decode_four:
  "w < 5 \<Longrightarrow> x < 64 \<Longrightarrow> y < 64 \<Longrightarrow> z < 64 \<Longrightarrow> (w = 0 \<longrightarrow> 16 \<le> x) \<Longrightarrow> (w = 4 \<longrightarrow> x < 16) \<Longrightarrow>
   decode_run 0 cp [240 + w, 128 + x, 128 + y, 128 + z] = (0, 64 * (64 * (64 * w + x) + y) + z)"
  by (auto simp: decode_lead decode_continuation lead_payload next_state_def)

text \<open>The base-64 digits of a code point.\<close>

lemma base64_digits:
  "c = 64 * (c div 64) + c mod 64" "c div 64 = 64 * (c div 4096) + c div 64 mod 64"
  "c div 4096 = 64 * (c div 262144) + c div 4096 mod (64 :: nat)"
proof -
  have "c div 4096 = c div 64 div 64" "c div 262144 = c div 4096 div 64"
    by (simp_all add: div_mult2_eq [symmetric])
  then show "c = 64 * (c div 64) + c mod 64" "c div 64 = 64 * (c div 4096) + c div 64 mod 64"
    "c div 4096 = 64 * (c div 262144) + c div 4096 mod (64 :: nat)" by simp_all
qed

text \<open>The four shapes of an encoded scalar value.\<close>

lemma encode_shape:
  assumes "scalar c"
  obtains (one) "c < 0x80" "utf8_encode c = [c]"
  | (two) x z where "2 \<le> x" "x < 32" "z < 64" "c = 64 * x + z" "utf8_encode c = [192 + x, 128 + z]"
  | (three) x y z where "x < 16" "y < 64" "z < 64" "x = 0 \<longrightarrow> 32 \<le> y" "x = 13 \<longrightarrow> y < 32"
      "c = 64 * (64 * x + y) + z" "utf8_encode c = [224 + x, 128 + y, 128 + z]"
  | (four) w x y z where "w < 5" "x < 64" "y < 64" "z < 64" "w = 0 \<longrightarrow> 16 \<le> x" "w = 4 \<longrightarrow> x < 16"
      "c = 64 * (64 * (64 * w + x) + y) + z" "utf8_encode c = [240 + w, 128 + x, 128 + y, 128 + z]"
proof -
  from assms have c: "c < 0x110000" "\<not> (0xD800 \<le> c \<and> c \<le> 0xDFFF)" by (auto simp: scalar_def)
  note d = base64_digits [of c]
  have lt: "c mod 64 < 64" "c div 64 mod 64 < 64" "c div 4096 mod 64 < 64" by simp_all
  consider "c < 0x80" | "0x80 \<le> c" "c < 0x800" | "0x800 \<le> c" "c < 0x10000" | "0x10000 \<le> c"
    by linarith
  then show thesis
  proof cases
    case 1
    then show ?thesis by (intro one) (simp_all add: utf8_encode_def)
  next
    case 2
    then have "2 \<le> c div 64" "c div 64 < 32" using d(1) lt by linarith+
    with 2 show ?thesis by (intro two [of "c div 64" "c mod 64"]) (simp_all add: utf8_encode_def)
  next
    case 3
    then have "c div 4096 < 16" using d lt by linarith
    moreover have "c div 4096 = 0 \<longrightarrow> 32 \<le> c div 64 mod 64" "c div 4096 = 13 \<longrightarrow> c div 64 mod 64 < 32"
      using 3 c d lt by linarith+
    moreover have "c = 64 * (64 * (c div 4096) + c div 64 mod 64) + c mod 64"
      by (simp only: d [symmetric])
    moreover have "utf8_encode c = [224 + c div 4096, 128 + c div 64 mod 64, 128 + c mod 64]"
      using 3 by (simp add: utf8_encode_def)
    ultimately show ?thesis using lt by (intro three)
  next
    case 4
    then have "c div 262144 < 5" using d lt c by linarith
    moreover have "c div 262144 = 0 \<longrightarrow> 16 \<le> c div 4096 mod 64" "c div 262144 = 4 \<longrightarrow> c div 4096 mod 64 < 16"
      using 4 c d lt by linarith+
    moreover have "c = 64 * (64 * (64 * (c div 262144) + c div 4096 mod 64) + c div 64 mod 64) + c mod 64"
      by (simp only: d [symmetric])
    moreover have "utf8_encode c =
        [240 + c div 262144, 128 + c div 4096 mod 64, 128 + c div 64 mod 64, 128 + c mod 64]"
      using 4 by (simp add: utf8_encode_def)
    ultimately show ?thesis using lt by (intro four)
  qed
qed

text \<open>From the accepting state, an encoded scalar value is accepted and decoded.\<close>

lemma decode_encode: "scalar c \<Longrightarrow> decode_run 0 cp (utf8_encode c) = (0, c)"
proof (erule encode_shape)
  assume "c < 0x80" "utf8_encode c = [c]"
  then show ?thesis by (simp add: decode_eq next_state_def byte_type_def)
next
  fix x z
  assume "2 \<le> x" "x < 32" "z < 64" "c = 64 * x + z" "utf8_encode c = [192 + x, 128 + z]"
  with decode_two [of x z cp] show ?thesis by (simp only:)
next
  fix x y z
  assume "x < 16" "y < 64" "z < 64" "x = 0 \<longrightarrow> 32 \<le> y" "x = 13 \<longrightarrow> y < 32"
    "c = 64 * (64 * x + y) + z" "utf8_encode c = [224 + x, 128 + y, 128 + z]"
  with decode_three [of x y z cp] show ?thesis by (simp only:)
next
  fix w x y z
  assume "w < 5" "x < 64" "y < 64" "z < 64" "w = 0 \<longrightarrow> 16 \<le> x" "w = 4 \<longrightarrow> x < 16"
    "c = 64 * (64 * (64 * w + x) + y) + z" "utf8_encode c = [240 + w, 128 + x, 128 + y, 128 + z]"
  with decode_four [of w x y z cp] show ?thesis by (simp only:)
qed

section \<open>What the automaton accepts\<close>

abbreviation dfa :: "nat \<Rightarrow> nat list \<Rightarrow> nat" where
  "dfa st bs \<equiv> foldl next_state st bs"

text \<open>Bytes that leave the automaton in the middle of a code point.\<close>

fun pending :: "nat \<Rightarrow> nat list \<Rightarrow> bool" where
  "pending st [] = True"
| "pending st (b # bs) \<longleftrightarrow> next_state st b \<notin> {0, 1} \<and> pending (next_state st b) bs"

lemma pending_or_end:
  "pending st bs \<or> (\<exists>p b r. bs = p @ b # r \<and> pending st p \<and> next_state (dfa st p) b \<in> {0, 1})"
proof (induction bs arbitrary: st)
  case (Cons b bs)
  show ?case
  proof (cases "next_state st b \<in> {0, 1}")
    case True
    then show ?thesis by (intro disjI2 exI [of _ "[]"]) auto
  next
    case False
    with Cons.IH [of "next_state st b"] show ?thesis
    proof (elim disjE exE conjE)
      fix p c r
      assume "bs = p @ c # r" "pending (next_state st b) p" "next_state (dfa (next_state st b) p) c \<in> {0, 1}"
      with False show ?thesis by (intro disjI2 exI [of _ "b # p"] exI [of _ c] exI [of _ r]) auto
    qed auto
  qed
qed simp

lemma next_accept: "next_state st b = 0 \<longleftrightarrow> st = 0 \<and> b < 0x80 \<or> st = 2 \<and> 0x80 \<le> b \<and> b < 0xC0"
  by (auto simp: next_state_def)

lemma next_one:
  "next_state st b = 2 \<longleftrightarrow> st = 0 \<and> 0xC2 \<le> b \<and> b < 0xE0 \<or> st = 3 \<and> 0x80 \<le> b \<and> b < 0xC0 \<or>
     st = 4 \<and> 0xA0 \<le> b \<and> b < 0xC0 \<or> st = 5 \<and> 0x80 \<le> b \<and> b < 0xA0"
  by (auto simp: next_state_def)

lemma next_two:
  "next_state st b = 3 \<longleftrightarrow> st = 0 \<and> 0xE0 < b \<and> b < 0xF0 \<and> b \<noteq> 0xED \<or>
     st = 6 \<and> 0x90 \<le> b \<and> b < 0xC0 \<or> st = 7 \<and> 0x80 \<le> b \<and> b < 0xC0 \<or> st = 8 \<and> 0x80 \<le> b \<and> b < 0x90"
  by (auto simp: next_state_def)

lemma next_lead:
  "next_state st b = 4 \<longleftrightarrow> st = 0 \<and> b = 0xE0" "next_state st b = 5 \<longleftrightarrow> st = 0 \<and> b = 0xED"
  "next_state st b = 6 \<longleftrightarrow> st = 0 \<and> b = 0xF0" "next_state st b = 7 \<longleftrightarrow> st = 0 \<and> 0xF0 < b \<and> b < 0xF4"
  "next_state st b = 8 \<longleftrightarrow> st = 0 \<and> b = 0xF4"
  by (auto simp: next_state_def)

lemma encode_one: "b < 0x80 \<Longrightarrow> scalar b \<and> utf8_encode b = [b]"
  by (simp add: scalar_def utf8_encode_def)

lemma encode_two:
  assumes "2 \<le> x" "x < 32" "z < 64"
  shows "scalar (64 * x + z) \<and> utf8_encode (64 * x + z) = [192 + x, 128 + z]"
  using assms by (simp add: scalar_def utf8_encode_def)

lemma horner64: "z < 64 \<Longrightarrow> (64 * q + z) div 64 = q" "z < 64 \<Longrightarrow> (64 * q + z) mod 64 = (z :: nat)"
  by (simp, simp only: mod_mult_self4 mod_less)

lemma horner4096: "y < 64 \<Longrightarrow> z < 64 \<Longrightarrow> (64 * (64 * x + y) + z) div 4096 = (x :: nat)"
  using horner64(1) [of z "64 * x + y"] horner64(1) [of y x] div_mult2_eq [of "64 * (64 * x + y) + z" 64 64]
  by simp

lemma horner262144:
  "x < 64 \<Longrightarrow> y < 64 \<Longrightarrow> z < 64 \<Longrightarrow> (64 * (64 * (64 * w + x) + y) + z) div 262144 = (w :: nat)"
  using horner4096 [of y z "64 * w + x"] horner64(1) [of x w]
    div_mult2_eq [of "64 * (64 * (64 * w + x) + y) + z" 4096 64]
  by simp

lemma encode_three:
  assumes "x < 16" "y < 64" "z < 64" "x = 0 \<longrightarrow> 32 \<le> y" "x = 13 \<longrightarrow> y < 32"
  shows "scalar (64 * (64 * x + y) + z) \<and>
    utf8_encode (64 * (64 * x + y) + z) = [224 + x, 128 + y, 128 + z]"
proof -
  define c where "c = 64 * (64 * x + y) + z"
  have "c div 64 mod 64 = y" "c div 4096 = x" "c mod 64 = z"
    unfolding c_def using assms horner64 [of z "64 * x + y"] horner64(2) [of y x] horner4096 by simp_all
  moreover have b: "0x800 \<le> c" "c < 0x10000" unfolding c_def using assms by (cases "x = 0"; simp)+
  moreover have "x < 13 \<or> x = 13 \<or> 14 \<le> x" by linarith
  then have "\<not> (0xD800 \<le> c \<and> c \<le> 0xDFFF)" unfolding c_def using assms by auto
  with b have "scalar c" by (simp add: scalar_def)
  ultimately show ?thesis unfolding c_def [symmetric] by (simp add: utf8_encode_def)
qed

lemma encode_four:
  assumes "w < 5" "x < 64" "y < 64" "z < 64" "w = 0 \<longrightarrow> 16 \<le> x" "w = 4 \<longrightarrow> x < 16"
  shows "scalar (64 * (64 * (64 * w + x) + y) + z) \<and>
    utf8_encode (64 * (64 * (64 * w + x) + y) + z) = [240 + w, 128 + x, 128 + y, 128 + z]"
proof -
  define c where "c = 64 * (64 * (64 * w + x) + y) + z"
  have "c div 64 mod 64 = y" "c div 4096 mod 64 = x" "c mod 64 = z" "c div 262144 = w"
    unfolding c_def using assms horner64 [of z "64 * (64 * w + x) + y"] horner64(2) [of y "64 * w + x"]
      horner4096 [of y z "64 * w + x"] horner64(2) [of x w] horner262144 [of x y z w] by simp_all
  moreover have "0x10000 \<le> c" "c < 0x110000"
    unfolding c_def using assms by (cases "w = 0"; cases "w = 4"; simp)+
  then have "0x10000 \<le> c" "scalar c" by (simp_all add: scalar_def)
  ultimately show ?thesis unfolding c_def [symmetric] by (simp add: utf8_encode_def)
qed

lemma offset: "(a :: nat) \<le> b \<Longrightarrow> \<exists>x. b = a + x"
  by (rule le_Suc_ex)

lemma pending_second:
  assumes "st \<noteq> 0" and "next_state st b \<notin> {0, 1}"
  shows "next_state st b \<in> {2, 3}"
proof -
  have "next_state st b \<notin> {4, 5, 6, 7, 8}" using assms(1) by (simp add: next_lead)
  with assms(2) next_state_bound [of st b] show ?thesis by auto
qed

lemma accept_from: "next_state st b = 0 \<Longrightarrow> st \<noteq> 0 \<Longrightarrow> st = 2 \<and> 0x80 \<le> b \<and> b < 0xC0"
  by (simp add: next_accept)

lemma two_from: "next_state st b = 2 \<Longrightarrow> st \<in> {2, 3} \<Longrightarrow> st = 3 \<and> 0x80 \<le> b \<and> b < 0xC0"
  by (auto simp: next_one)

lemma three_from:
  "next_state st b = 3 \<Longrightarrow> st \<noteq> 0 \<Longrightarrow> st = 6 \<and> 0x90 \<le> b \<and> b < 0xC0 \<or> st = 7 \<and> 0x80 \<le> b \<and> b < 0xC0 \<or>
     st = 8 \<and> 0x80 \<le> b \<and> b < 0x90"
  by (simp add: next_two)

text \<open>At most three bytes wait for the end of a code point.\<close>

lemma pending_length: "pending 0 p \<Longrightarrow> length p \<le> 3"
proof (rule ccontr)
  assume p: "pending 0 p" and "\<not> length p \<le> 3"
  then have "Suc (Suc (Suc (Suc 0))) \<le> length p" by simp
  then obtain b1 b2 b3 b4 r where p4: "p = b1 # b2 # b3 # b4 # r"
    by (auto simp only: Suc_le_length_iff)
  let ?s2 = "next_state (next_state 0 b1) b2"
  from p p4 have s: "next_state 0 b1 \<noteq> 0" "?s2 \<notin> {0, 1}" "next_state ?s2 b3 \<notin> {0, 1}"
    "next_state (next_state ?s2 b3) b4 \<notin> {0, 1}" by simp_all
  from s(1,2) have "?s2 \<in> {2, 3}" by (rule pending_second)
  with s(3) have "next_state ?s2 b3 = 2"
    using pending_second [of ?s2 b3] next_two [of ?s2 b3] by auto
  with s(4) pending_second [of 2 b4] next_one [of 2 b4] next_two [of 2 b4] show False by auto
qed

text \<open>A completed code point is the encoding of a scalar value.\<close>

lemma accepted_scalar:
  assumes "pending 0 p" and "next_state (dfa 0 p) b = 0"
  shows "\<exists>c. scalar c \<and> p @ [b] = utf8_encode c"
proof -
  consider "p = []" | b1 where "p = [b1]" | b1 b2 where "p = [b1, b2]" | b1 b2 b3 where "p = [b1, b2, b3]"
    | b1 b2 b3 b4 r where "p = b1 # b2 # b3 # b4 # r"
    by (metis neq_Nil_conv)
  then show ?thesis
  proof cases
    case 1
    with assms have "b < 0x80" by (simp add: next_accept)
    with encode_one 1 show ?thesis by fastforce
  next
    case 2
    with assms have "0xC2 \<le> b1" "b1 < 0xE0" "0x80 \<le> b" "b < 0xC0"
      by (auto simp: next_accept next_one)
    then obtain x z where "b1 = 192 + x" "b = 128 + z" "2 \<le> x" "x < 32" "z < 64"
      by (auto dest!: offset)
    with encode_two [of x z] 2 show ?thesis by (intro exI [of _ "64 * x + z"]) simp
  next
    case 3
    with assms have b: "0x80 \<le> b" "b < 0xC0" "0xE0 \<le> b1" "b1 < 0xF0" "0x80 \<le> b2" "b2 < 0xC0"
      "b1 = 0xE0 \<longrightarrow> 0xA0 \<le> b2" "b1 = 0xED \<longrightarrow> b2 < 0xA0"
      by (auto simp: next_accept next_one next_two next_lead)
    then obtain x y z where "b1 = 224 + x" "b2 = 128 + y" "b = 128 + z" by (auto dest!: offset)
    with b encode_three [of x y z] 3 show ?thesis
      by (intro exI [of _ "64 * (64 * x + y) + z"]) auto
  next
    case 4
    let ?s1 = "next_state 0 b1" and ?s2 = "next_state (next_state 0 b1) b2"
    from 4 assms have s: "?s1 \<noteq> 0" "?s2 \<notin> {0, 1}" "next_state ?s2 b3 \<noteq> 0"
      "next_state (next_state ?s2 b3) b = 0" by simp_all
    from accept_from [OF s(4,3)] have 1: "0x80 \<le> b" "b < 0xC0" "next_state ?s2 b3 = 2" by blast+
    from two_from [OF 1(3) pending_second [OF s(1,2)]] have 2: "?s2 = 3" "0x80 \<le> b3" "b3 < 0xC0" by blast+
    from three_from [OF 2(1) s(1)]
    have b: "0xF0 \<le> b1" "b1 < 0xF5" "0x80 \<le> b2" "b2 < 0xC0"
      "b1 = 0xF0 \<longrightarrow> 0x90 \<le> b2" "b1 = 0xF4 \<longrightarrow> b2 < 0x90"
      by (auto simp: next_lead)
    note b = b 1(1,2) 2(2,3)
    then obtain w x y z where "b1 = 240 + w" "b2 = 128 + x" "b3 = 128 + y" "b = 128 + z"
      by (auto dest!: offset)
    with b encode_four [of w x y z] 4 show ?thesis
      by (intro exI [of _ "64 * (64 * (64 * w + x) + y) + z"]) auto
  next
    case 5
    with pending_length [OF assms(1)] show ?thesis by simp
  qed
qed

text \<open>The automaton walks through the bytes before the last of a scalar value without ending.\<close>

lemma decode_run_dfa:
  "list_all (\<lambda>b. b < 256) bs \<Longrightarrow> st < 9 \<Longrightarrow> fst (decode_run st cp bs) = dfa st bs"
  by (induction bs arbitrary: st cp) (simp_all add: decode_eq next_state_bound)

lemma decode_run_snoc:
  "decode_run st cp (p @ [b]) = (case decode_run st cp p of (st', cp') \<Rightarrow> decode st' cp' b)"
  by (induction p arbitrary: st cp) (simp_all split: prod.splits)

lemma pending_snoc: "pending st p \<Longrightarrow> next_state (dfa st p) b \<notin> {0, 1} \<Longrightarrow> pending st (p @ [b])"
  by (induction p arbitrary: st) auto

lemma utf8_encode_bytes: "scalar c \<Longrightarrow> list_all (\<lambda>b. b < 256) (utf8_encode c)"
  by (auto simp: utf8_encode_def scalar_def)

lemma encode_pending:
  assumes "scalar c"
  shows "pending 0 (butlast (utf8_encode c)) \<and> utf8_encode c \<noteq> []"
  using assms by (rule encode_shape) (auto simp: next_state_def)

lemma encode_split:
  assumes "scalar c"
  obtains p b where "utf8_encode c = p @ [b]" "pending 0 p" "next_state (dfa 0 p) b = 0"
proof -
  from encode_pending [OF assms] have e: "utf8_encode c = butlast (utf8_encode c) @ [last (utf8_encode c)]"
    and p: "pending 0 (butlast (utf8_encode c))" by simp_all
  have "dfa 0 (utf8_encode c) = 0"
    using decode_encode [OF assms, of 0] decode_run_dfa [OF utf8_encode_bytes [OF assms], of 0 0] by simp
  then have "next_state (dfa 0 (butlast (utf8_encode c))) (last (utf8_encode c)) = 0"
    by (subst (asm) e) simp
  with e p that show ?thesis by blast
qed

lemma pending_state: "pending st bs \<Longrightarrow> bs \<noteq> [] \<Longrightarrow> dfa st bs \<notin> {0, 1}"
proof (induction bs arbitrary: st)
  case (Cons b bs)
  then show ?case by (cases bs) auto
qed simp

lemma dfa_reject: "dfa 1 bs = 1"
  by (induction bs) (simp_all add: next_state_def)

lemma utf8_string_simps [simp]:
  "utf8_string [] = []" "utf8_string (c # cs) = utf8_encode c @ utf8_string cs"
  by (simp_all add: utf8_string_def)

lemma dfa_utf8_string: "list_all scalar cs \<Longrightarrow> dfa 0 (utf8_string cs) = 0"
proof (induction cs)
  case (Cons c cs)
  then obtain p b where "utf8_encode c = p @ [b]" "next_state (dfa 0 p) b = 0"
    by (auto elim: encode_split)
  with Cons show ?case by simp
qed simp

lemma dfa_accepts_valid: "dfa 0 bs = 0 \<Longrightarrow> valid_utf8 bs"
proof (induction bs rule: length_induct)
  case (1 bs)
  show ?case
  proof (cases "bs = []")
    case True
    then show ?thesis by (auto simp: valid_utf8_def intro: exI [of _ "[]"])
  next
    case False
    with "1.prems" pending_state [of 0 bs] have "\<not> pending 0 bs" by auto
    with pending_or_end [of 0 bs] obtain p b r where bs: "bs = p @ b # r" and p: "pending 0 p"
      and e: "next_state (dfa 0 p) b \<in> {0, 1}" by blast
    from "1.prems" bs e dfa_reject [of r] have n: "next_state (dfa 0 p) b = 0" by auto
    from accepted_scalar [OF p n] obtain c where c: "scalar c" "p @ [b] = utf8_encode c" by blast
    from "1.prems" bs n have "dfa 0 r = 0" by simp
    with "1.IH" bs have "valid_utf8 r" by simp
    then obtain cs where "list_all scalar cs" "r = utf8_string cs" by (auto simp: valid_utf8_def)
    with c bs have "list_all scalar (c # cs)" "bs = utf8_string (c # cs)" by simp_all
    then show ?thesis unfolding valid_utf8_def by blast
  qed
qed

lemma valid_iff_dfa [code]: "valid_utf8 bs \<longleftrightarrow> dfa 0 bs = 0"
  using dfa_accepts_valid dfa_utf8_string by (auto simp: valid_utf8_def)

text \<open>
  C23: the table-driven automaton accepts exactly UTF-8: started in the accepting state with any
  stale code point, it ends in the accepting state after a byte string if and only if the string
  is the concatenation of encodings of Unicode scalar values (no surrogates, no overlong forms,
  nothing above U+10FFFF), and after the encoding of a single scalar value it has decoded it.
\<close>

theorem decode_accepts_utf8:
  assumes "list_all (\<lambda>b. b < 256) bs"
  shows "(fst (decode_run UTF8_ACCEPT cp bs) = UTF8_ACCEPT \<longleftrightarrow> valid_utf8 bs)
    \<and> (scalar c \<longrightarrow> decode_run UTF8_ACCEPT cp (utf8_encode c) = (UTF8_ACCEPT, c))"
  using decode_run_dfa [OF assms, of 0 cp] decode_encode [of c cp]
  by (simp add: valid_iff_dfa UTF8_ACCEPT_def)

theorem decode_accepts_utf8_witness:
  "(fst (decode_run UTF8_ACCEPT 0 [0xE2, 0x82, 0xAC]) = UTF8_ACCEPT \<longleftrightarrow> valid_utf8 [0xE2, 0x82, 0xAC])
   \<and> decode_run UTF8_ACCEPT 0 (utf8_encode 0x20AC) = (UTF8_ACCEPT, 0x20AC)"
  using decode_accepts_utf8 [of "[0xE2, 0x82, 0xAC]" 0 "0x20AC"] by (simp add: scalar_def)

end
