(* ===== verification/Json_Serializer.thy ===== *)
theory Json_Serializer
  imports Json_Utf8
begin

text \<open>
  The serializer of the vendored JSON library (class \<open>serializer\<close> in \<open>include/json.hpp\<close>), which
  the dashboard observer uses through \<open>dump()\<close>. Writes into its two fixed buffers are checked: a
  write outside them is the error \<open>Buffer_overrun\<close>, shown unreachable below; a violated
  \<open>JSON_ASSERT\<close> of the parser is \<open>Assertion_failed\<close>. Doubles are their 64-bit patterns; their
  text is the subject of \<open>Json_Float\<close>.
\<close>

section \<open>Values and errors\<close>

datatype json =
    J_null
  | J_bool bool
  | J_int "64 word"
  | J_uint "64 word"
  | J_float "64 word"
  | J_string string
  | J_array "json list"
  | J_object "(string \<times> json) list"
  | J_binary string "nat option"
  | J_discarded

datatype json_error =
    Type_error nat string
  | Parse_error nat string
  | Out_of_range nat string
  | Other_error nat string
  | Buffer_overrun
  | Assertion_failed

type_synonym 'a result = "json_error + 'a"

text \<open>\<open>exception::name\<close> and \<open>what()\<close>; diagnostics are compiled out.\<close>

definition exception_name :: "string \<Rightarrow> nat \<Rightarrow> string" where
  "exception_name ename n = ''[json.exception.'' @ ename @ ''.'' @ digits n @ ''] ''"

fun what :: "json_error \<Rightarrow> string" where
  "what (Type_error n m) = exception_name ''type_error'' n @ m"
| "what (Parse_error n m) = exception_name ''parse_error'' n @ m"
| "what (Out_of_range n m) = exception_name ''out_of_range'' n @ m"
| "what (Other_error n m) = exception_name ''other_error'' n @ m"
| "what Buffer_overrun = []"
| "what Assertion_failed = []"

text \<open>Exceptions propagate.\<close>

definition bindr :: "'a result \<Rightarrow> ('a \<Rightarrow> 'b result) \<Rightarrow> 'b result" where
  "bindr r f = (case r of Inl e \<Rightarrow> Inl e | Inr x \<Rightarrow> f x)"

lemma bindr_simps [simp]: "bindr (Inl e) f = Inl e" "bindr (Inr x) f = f x"
  by (simp_all add: bindr_def)

lemma bindr_cong [fundef_cong]:
  "r = r' \<Longrightarrow> (\<And>x. r' = Inr x \<Longrightarrow> f x = f' x) \<Longrightarrow> bindr r f = bindr r' f'"
  by (simp add: bindr_def split: sum.split)

lemma bindr_assoc: "bindr (bindr r f) g = bindr r (\<lambda>x. bindr (f x) g)"
  by (simp add: bindr_def split: sum.split)

lemma bindr_Inr_iff: "bindr r f = Inr y \<longleftrightarrow> (\<exists>x. r = Inr x \<and> f x = Inr y)"
  by (auto simp: bindr_def split: sum.splits)

section \<open>Escaping strings\<close>

datatype error_handler_t = Strict | Ignore | Replace

definition nibble_to_hex :: string where
  "nibble_to_hex = ''0123456789ABCDEF''"

definition hex_bytes :: "nat \<Rightarrow> string" where
  "hex_bytes byte = [nibble_to_hex ! (byte div 16), nibble_to_hex ! (byte mod 16)]"

text \<open>\<open>%04x\<close> of a \<open>uint16_t\<close>.\<close>

definition hex4 :: "nat \<Rightarrow> string" where
  "hex4 n = (let d = (\<lambda>i. ''0123456789abcdef'' ! (n div 16 ^ i mod 16)) in [d 3, d 2, d 1, d 0])"

text \<open>
  The local variables of \<open>dump_escaped\<close>: the first \<open>bytes\<close> characters of \<open>string_buffer\<close>, what has
  been written to the output, and the decoder's state.
\<close>

record escaping =
  codepoint :: nat
  dec_state :: nat
  string_buffer :: string
  bytes_after_last_accept :: nat
  undumped_chars :: nat
  written :: string

definition new_escaping :: escaping where
  "new_escaping = \<lparr>codepoint = 0, dec_state = UTF8_ACCEPT, string_buffer = [],
     bytes_after_last_accept = 0, undumped_chars = 0, written = []\<rparr>"

text \<open>Store characters behind the used part of the buffer of 512, and \<open>nul\<close> terminators.\<close>

definition store :: "string \<Rightarrow> nat \<Rightarrow> escaping \<Rightarrow> escaping result" where
  "store cs nul e =
     (if length (string_buffer e) + length cs + nul \<le> 512
      then Inr (e\<lparr>string_buffer := string_buffer e @ cs\<rparr>) else Inl Buffer_overrun)"

text \<open>Write the buffer out when fewer than 13 bytes are left, and remember the position.\<close>

definition flush_accept :: "escaping \<Rightarrow> escaping" where
  "flush_accept e =
     (let e' = (if 512 - length (string_buffer e) < 13
                then e\<lparr>written := written e @ string_buffer e, string_buffer := []\<rparr> else e)
      in e'\<lparr>bytes_after_last_accept := length (string_buffer e')\<rparr>)"

definition store_codepoint :: "bool \<Rightarrow> char \<Rightarrow> escaping \<Rightarrow> escaping result" where
  "store_codepoint ensure_ascii c e =
     (let cp = codepoint e in
      if cp = 0x08 then store [CHR 0x5C, CHR ''b''] 0 e
      else if cp = 0x09 then store [CHR 0x5C, CHR ''t''] 0 e
      else if cp = 0x0A then store [CHR 0x5C, CHR ''n''] 0 e
      else if cp = 0x0C then store [CHR 0x5C, CHR ''f''] 0 e
      else if cp = 0x0D then store [CHR 0x5C, CHR ''r''] 0 e
      else if cp = 0x22 then store [CHR 0x5C, CHR 0x22] 0 e
      else if cp = 0x5C then store [CHR 0x5C, CHR 0x5C] 0 e
      else if cp \<le> 0x1F \<or> ensure_ascii \<and> 0x7F \<le> cp then
        (if cp \<le> 0xFFFF then store ([CHR 0x5C, CHR ''u''] @ hex4 (cp mod 65536)) 1 e
         else store ([CHR 0x5C, CHR ''u''] @ hex4 ((0xD7C0 + cp div 1024) mod 65536) @
                     [CHR 0x5C, CHR ''u''] @ hex4 ((0xDC00 + cp mod 1024) mod 65536)) 1 e)
      else store [c] 0 e)"

text \<open>The replacement character, escaped or in UTF-8.\<close>

definition replacement :: "bool \<Rightarrow> string" where
  "replacement ensure_ascii =
     (if ensure_ascii then [CHR 0x5C, CHR ''u'', CHR ''f'', CHR ''f'', CHR ''f'', CHR ''d'']
      else [CHR 0xEF, CHR 0xBF, CHR 0xBD])"

text \<open>An invalid byte under \<open>ignore\<close> and \<open>replace\<close>: back to the last accepted position.\<close>

definition drop_invalid :: "error_handler_t \<Rightarrow> bool \<Rightarrow> escaping \<Rightarrow> escaping result" where
  "drop_invalid h ensure_ascii e =
     (let e1 = e\<lparr>string_buffer := take (bytes_after_last_accept e) (string_buffer e)\<rparr>
      in bindr (if h = Replace then bindr (store (replacement ensure_ascii) 0 e1) (\<lambda>e2. Inr (flush_accept e2))
                else Inr e1)
           (\<lambda>e3. Inr (e3\<lparr>undumped_chars := 0, dec_state := UTF8_ACCEPT\<rparr>)))"

text \<open>After the loop; \<open>s\<close> is the whole string.\<close>

definition dump_end :: "error_handler_t \<Rightarrow> bool \<Rightarrow> string \<Rightarrow> escaping \<Rightarrow> string result" where
  "dump_end h ensure_ascii s e =
     (if dec_state e = UTF8_ACCEPT then Inr (written e @ string_buffer e)
      else case h of
        Strict \<Rightarrow> Inl (Type_error 316 (''incomplete UTF-8 string; last byte: 0x'' @
                    hex_bytes (of_char (last s))))
      | Ignore \<Rightarrow> Inr (written e @ take (bytes_after_last_accept e) (string_buffer e))
      | Replace \<Rightarrow> Inr (written e @ take (bytes_after_last_accept e) (string_buffer e) @
                       replacement ensure_ascii))"

function dump_loop ::
    "error_handler_t \<Rightarrow> bool \<Rightarrow> string \<Rightarrow> nat \<Rightarrow> string \<Rightarrow> escaping \<Rightarrow> string result" where
  "dump_loop h ensure_ascii s i [] e = dump_end h ensure_ascii s e"
| "dump_loop h ensure_ascii s i (c # r) e =
     (let (st, cp) = decode (dec_state e) (codepoint e) (of_char c);
          e1 = e\<lparr>dec_state := st, codepoint := cp\<rparr>
      in if st = UTF8_ACCEPT
         then bindr (store_codepoint ensure_ascii c e1)
                (\<lambda>e2. dump_loop h ensure_ascii s (i + 1) r ((flush_accept e2)\<lparr>undumped_chars := 0\<rparr>))
         else if st = UTF8_REJECT
         then (if h = Strict
               then Inl (Type_error 316 (''invalid UTF-8 byte at index '' @ show_int (int i) @ '': 0x'' @
                      hex_bytes (of_char c)))
               else if 0 < undumped_chars e
               then bindr (drop_invalid h ensure_ascii e1)
                      (\<lambda>e2. dump_loop h ensure_ascii s i (c # r) (e2\<lparr>undumped_chars := 0\<rparr>))
               else bindr (drop_invalid h ensure_ascii e1)
                      (\<lambda>e2. dump_loop h ensure_ascii s (i + 1) r (e2\<lparr>undumped_chars := 0\<rparr>)))
         else bindr (if ensure_ascii then Inr e1 else store [c] 0 e1)
                (\<lambda>e2. dump_loop h ensure_ascii s (i + 1) r
                        (e2\<lparr>undumped_chars := undumped_chars e2 + 1\<rparr>)))"
  by pat_completeness auto
termination
  by (relation "measure (\<lambda>(h, a, s, i, r, e). 2 * length r + (if 0 < undumped_chars e then 1 else 0))")
     auto

definition dump_escaped :: "error_handler_t \<Rightarrow> bool \<Rightarrow> string \<Rightarrow> string result" where
  "dump_escaped h ensure_ascii s = dump_loop h ensure_ascii s 0 s new_escaping"

section \<open>Integers\<close>

fun count_digits :: "nat \<Rightarrow> nat \<Rightarrow> nat" where
  "count_digits x n_digits =
     (if x < 10 then n_digits
      else if x < 100 then n_digits + 1
      else if x < 1000 then n_digits + 2
      else if x < 10000 then n_digits + 3
      else count_digits (x div 10000) (n_digits + 4))"

declare count_digits.simps [simp del]

definition digits_to_99 :: "string list" where
  "digits_to_99 = [
      ''00'', ''01'', ''02'', ''03'', ''04'', ''05'', ''06'', ''07'', ''08'', ''09'',
      ''10'', ''11'', ''12'', ''13'', ''14'', ''15'', ''16'', ''17'', ''18'', ''19'',
      ''20'', ''21'', ''22'', ''23'', ''24'', ''25'', ''26'', ''27'', ''28'', ''29'',
      ''30'', ''31'', ''32'', ''33'', ''34'', ''35'', ''36'', ''37'', ''38'', ''39'',
      ''40'', ''41'', ''42'', ''43'', ''44'', ''45'', ''46'', ''47'', ''48'', ''49'',
      ''50'', ''51'', ''52'', ''53'', ''54'', ''55'', ''56'', ''57'', ''58'', ''59'',
      ''60'', ''61'', ''62'', ''63'', ''64'', ''65'', ''66'', ''67'', ''68'', ''69'',
      ''70'', ''71'', ''72'', ''73'', ''74'', ''75'', ''76'', ''77'', ''78'', ''79'',
      ''80'', ''81'', ''82'', ''83'', ''84'', ''85'', ''86'', ''87'', ''88'', ''89'',
      ''90'', ''91'', ''92'', ''93'', ''94'', ''95'', ''96'', ''97'', ''98'', ''99'']"

text \<open>\<open>-(x + 1)\<close> as unsigned, plus 1.\<close>

definition remove_sign :: "64 word \<Rightarrow> 64 word" where
  "remove_sign x = word_of_int (- (sint x + 1)) + 1"

text \<open>The loop that fills the buffer backwards from \<open>ptr\<close>.\<close>

fun fill_digits :: "nat \<Rightarrow> nat \<Rightarrow> string \<Rightarrow> string" where
  "fill_digits abs_value ptr buf =
     (if abs_value \<ge> 100
      then fill_digits (abs_value div 100) (ptr - 2)
             (buf[ptr - 1 := digits_to_99 ! (abs_value mod 100) ! 1,
                  ptr - 2 := digits_to_99 ! (abs_value mod 100) ! 0])
      else if abs_value \<ge> 10
      then buf[ptr - 1 := digits_to_99 ! abs_value ! 1, ptr - 2 := digits_to_99 ! abs_value ! 0]
      else buf[ptr - 1 := char_of (48 + abs_value)])"

declare fill_digits.simps [simp del]

text \<open>The number buffer has 64 bytes; the digits and a terminator must fit.\<close>

definition dump_digits :: "bool \<Rightarrow> nat \<Rightarrow> string result" where
  "dump_digits neg abs_value =
     (let n_chars = (if neg then 1 else 0) + count_digits abs_value 1;
          buf = (if neg then (replicate 64 (CHR 0x00))[0 := CHR ''-''] else replicate 64 (CHR 0x00))
      in if n_chars < 63 then Inr (take n_chars (fill_digits abs_value n_chars buf))
         else Inl Buffer_overrun)"

definition dump_integer :: "64 word \<Rightarrow> string result" where
  "dump_integer x =
     (if x = 0 then Inr ''0''
      else if sint x < 0 then dump_digits True (unat (remove_sign x))
      else dump_digits False (unat x))"

definition dump_unsigned :: "64 word \<Rightarrow> string result" where
  "dump_unsigned x = (if x = 0 then Inr ''0'' else dump_digits False (unat x))"

section \<open>Integers are written in decimal\<close>

lemma digits_to_99_nth:
  "n < 100 \<Longrightarrow> digits_to_99 ! n = [digit (n div 10), digit (n mod 10)]"
proof -
  have "list_all (\<lambda>n. digits_to_99 ! n = [digit (n div 10), digit (n mod 10)]) [0..<100]"
    by code_simp
  then show "n < 100 \<Longrightarrow> digits_to_99 ! n = [digit (n div 10), digit (n mod 10)]"
    by (simp add: list_all_iff)
qed

lemma digits_small: "n < 10 \<Longrightarrow> digits n = [digit n]"
  by (simp add: digits.simps)

lemma digits_step: "10 \<le> n \<Longrightarrow> digits n = digits (n div 10) @ [digit (n mod 10)]"
  by (simp add: digits.simps [of n])

lemma digits_hundred: "100 \<le> n \<Longrightarrow> digits n = digits (n div 100) @ digits_to_99 ! (n mod 100)"
proof -
  assume n: "100 \<le> n"
  then have "10 \<le> n div 10" by simp
  with n have "digits n = digits (n div 10 div 10) @ [digit (n div 10 mod 10), digit (n mod 10)]"
    using digits_step [of n] digits_step [of "n div 10"] by simp
  moreover have "n mod 100 div 10 = n div 10 mod 10" "n mod 100 mod 10 = n mod 10"
    using mod_mult2_eq [of n 10 10] by (simp_all add: mod_mod_cancel)
  ultimately show ?thesis by (simp add: digits_to_99_nth div_mult2_eq [symmetric])
qed

lemma count_digits_length: "count_digits x n = n + length (digits x) - 1"
proof (induction x n rule: count_digits.induct)
  case (1 x n)
  have len: "10 \<le> y \<Longrightarrow> length (digits y) = Suc (length (digits (y div 10)))" for y
    using digits_step [of y] by simp
  have pos: "0 < length (digits y)" for y by simp
  show ?case
  proof (cases "x < 10000")
    case True
    consider "x < 10" | "10 \<le> x" "x < 100" | "100 \<le> x" "x < 1000" | "1000 \<le> x" by linarith
    then show ?thesis
      by cases (use True in \<open>simp_all add: count_digits.simps [of x] len digits_small div_mult2_eq [symmetric]\<close>)
  next
    case False
    then have "length (digits x) = 4 + length (digits (x div 10000))"
      using len [of x] len [of "x div 10"] len [of "x div 100"] len [of "x div 1000"]
      by (simp add: div_mult2_eq [symmetric])
    with False 1 pos [of "x div 10000"] show ?thesis by (simp add: count_digits.simps [of x])
  qed
qed

lemma update_back:
  assumes "Suc 0 \<le> p" "p \<le> length buf"
  shows "buf[p - Suc 0 := c] = take (p - Suc 0) buf @ c # drop p buf"
  using assms by (simp add: upd_conv_take_nth_drop)

lemma fill_digits_correct:
  "length (digits x) \<le> ptr \<Longrightarrow> ptr \<le> length buf \<Longrightarrow>
   fill_digits x ptr buf = take (ptr - length (digits x)) buf @ digits x @ drop ptr buf"
proof (induction x ptr buf rule: fill_digits.induct)
  case (1 x ptr buf)
  let ?d = "digits_to_99 ! (x mod 100)"
  show ?case
  proof (cases "100 \<le> x")
    case True
    then have d: "digits x = digits (x div 100) @ ?d" "length ?d = 2"
      by (simp_all add: digits_hundred digits_to_99_nth)
    let ?b = "buf[ptr - 1 := ?d ! 1, ptr - 2 := ?d ! 0]"
    have p: "2 \<le> ptr" "length (digits (x div 100)) \<le> ptr - 2" using "1.prems" d by simp_all
    have b: "take (ptr - 2) ?b = take (ptr - 2) buf" "drop (ptr - 2) ?b = ?d @ drop ptr buf"
    proof -
      show "take (ptr - 2) ?b = take (ptr - 2) buf" by simp
      have "ptr - 2 < length buf" "ptr - 1 < length buf" "Suc (ptr - 2) = ptr - 1" "Suc (ptr - 1) = ptr"
        using p "1.prems"(2) by auto
      then show "drop (ptr - 2) ?b = ?d @ drop ptr buf"
        using d(2) by (simp add: drop_update_cancel Cons_nth_drop_Suc [symmetric] length_Suc_conv
            numeral_2_eq_2) auto
    qed
    from "1.IH" [OF True] p "1.prems"(2)
    have "fill_digits (x div 100) (ptr - 2) ?b
      = take (ptr - 2 - length (digits (x div 100))) ?b @ digits (x div 100) @ drop (ptr - 2) ?b" by simp
    also have "take (ptr - 2 - length (digits (x div 100))) ?b = take (ptr - length (digits x)) buf"
      using d by simp
    finally show ?thesis using True d b(2) by (simp add: fill_digits.simps [of x])
  next
    case False
    show ?thesis
    proof (cases "10 \<le> x")
      case True
      with False have d: "digits x = [digit (x div 10), digit (x mod 10)]"
        by (simp add: digits_step digits_small)
      have "ptr - 2 < length buf" "ptr - 1 < length buf" "Suc (ptr - 2) = ptr - 1" "Suc (ptr - 1) = ptr"
        using d "1.prems" by auto
      with True False d show ?thesis
        by (simp add: fill_digits.simps [of x] digits_to_99_nth upd_conv_take_nth_drop numeral_2_eq_2)
    next
      case small: False
      with "1.prems" False show ?thesis
        by (simp add: fill_digits.simps [of x] digits_small digit_def update_back)
    qed
  qed
qed

lemma dump_digits_correct:
  assumes "x < 2 ^ 64"
  shows "dump_digits neg x = Inr ((if neg then ''-'' else []) @ digits x)"
proof -
  have l: "length (digits x) \<le> 20" using assms by (intro digits_length) simp_all
  have p: "0 < length (digits x)" by simp
  have n: "count_digits x (Suc 0) = length (digits x)" by (simp add: count_digits_length)
  show ?thesis
  proof (cases neg)
    case True
    with l p show ?thesis
      using fill_digits_correct [of x "Suc (length (digits x))" "(replicate 64 (CHR 0x00))[0 := CHR ''-'']"]
      by (simp add: dump_digits_def Let_def n numeral_eq_Suc)
  next
    case False
    with l p show ?thesis
      using fill_digits_correct [of x "length (digits x)" "replicate 64 (CHR 0x00)"]
      by (simp add: dump_digits_def Let_def n)
  qed
qed

lemma digit_0: "digit 0 = CHR ''0''"
  by code_simp

lemma unat64_less: "unat (x :: 64 word) < 2 ^ 64"
  by (rule order_less_le_trans [OF unsigned_less]) simp

lemma unat_remove_sign: "sint x < 0 \<Longrightarrow> unat (remove_sign x) = nat (- sint x)"
proof -
  assume "sint x < 0"
  have r: "- (2 ^ 63) \<le> sint x" using sint_range_size [of x] by (simp add: size_word.rep_eq)
  have "remove_sign x = word_of_int (- sint x)" by (simp add: remove_sign_def)
  then have "uint (remove_sign x) = take_bit 64 (- sint x)" by (simp only: uint_word_of_int) (simp add: take_bit_eq_mod)
  also have "\<dots> = - sint x" using r \<open>sint x < 0\<close> by (intro take_bit_int_eq_self) simp_all
  finally show ?thesis by (simp flip: nat_uint_eq)
qed

lemma dump_unsigned_correct: "dump_unsigned x = Inr (digits (unat x))"
  using dump_digits_correct [of "unat x" False] unat64_less [of x]
  by (auto simp: dump_unsigned_def digits_small digit_0)

lemma dump_integer_correct: "dump_integer x = Inr (show_int (sint x))"
proof (cases "sint x < 0")
  case True
  then have "unat (remove_sign x) < 2 ^ 64" using unat64_less [of "remove_sign x"] by simp
  with True dump_digits_correct [of "unat (remove_sign x)" True] show ?thesis
    by (auto simp: dump_integer_def show_int_def unat_remove_sign)
next
  case False
  have "uint x = take_bit 64 (sint x)" by (simp add: uint_sint)
  also have "\<dots> = sint x"
    using False sint_range_size [of x] by (intro take_bit_int_eq_self) (simp_all add: size_word.rep_eq)
  finally have "nat (sint x) = unat x" by (simp flip: nat_uint_eq)
  with False dump_digits_correct [of "unat x" False] unat64_less [of x] show ?thesis
    by (auto simp: dump_integer_def show_int_def digits_small digit_0)
qed

section \<open>Escaping is character by character\<close>

text \<open>What a scalar value becomes.\<close>

definition escape :: "bool \<Rightarrow> nat \<Rightarrow> string" where
  "escape ensure_ascii c =
     (if c = 0x08 then [CHR 0x5C, CHR ''b'']
      else if c = 0x09 then [CHR 0x5C, CHR ''t'']
      else if c = 0x0A then [CHR 0x5C, CHR ''n'']
      else if c = 0x0C then [CHR 0x5C, CHR ''f'']
      else if c = 0x0D then [CHR 0x5C, CHR ''r'']
      else if c = 0x22 then [CHR 0x5C, CHR 0x22]
      else if c = 0x5C then [CHR 0x5C, CHR 0x5C]
      else if c \<le> 0x1F \<or> ensure_ascii \<and> 0x7F \<le> c then
        (if c \<le> 0xFFFF then [CHR 0x5C, CHR ''u''] @ hex4 c
         else [CHR 0x5C, CHR ''u''] @ hex4 (0xD7C0 + c div 1024) @
              [CHR 0x5C, CHR ''u''] @ hex4 (0xDC00 + c mod 1024))
      else map char_of (utf8_encode c))"

text \<open>Between code points: nothing pending, everything in the buffer accepted, room for the next.\<close>

definition clean :: "escaping \<Rightarrow> bool" where
  "clean e \<longleftrightarrow> dec_state e = UTF8_ACCEPT \<and> undumped_chars e = 0 \<and>
     bytes_after_last_accept e = length (string_buffer e) \<and> length (string_buffer e) \<le> 499"

definition so_far :: "escaping \<Rightarrow> string" where
  "so_far e = written e @ string_buffer e"

lemma clean_new [simp]: "clean new_escaping" "so_far new_escaping = []"
  by (simp_all add: clean_def new_escaping_def so_far_def)

lemma byte_char: "b < 256 \<Longrightarrow> of_char (char_of b :: char) = (b :: nat)"
  by simp

text \<open>The loop over the bytes of an unfinished code point.\<close>

lemma dump_loop_pending:
  assumes "pending (dec_state e) p" and "list_all (\<lambda>b. b < 256) p" and "dec_state e < 9"
    and "length (string_buffer e) + length p \<le> 512"
  shows "dump_loop h ea s i (map char_of p @ r) e =
    dump_loop h ea s (i + length p) r
      (e\<lparr>dec_state := dfa (dec_state e) p, codepoint := snd (decode_run (dec_state e) (codepoint e) p),
         string_buffer := string_buffer e @ (if ea then [] else map char_of p),
         undumped_chars := undumped_chars e + length p\<rparr>)"
  using assms
proof (induction p arbitrary: e i)
  case Nil
  then show ?case by simp
next
  case (Cons b p)
  then have b: "b < 256" and n: "next_state (dec_state e) b \<notin> {0, 1}" by simp_all
  obtain cp where d: "decode (dec_state e) (codepoint e) b = (next_state (dec_state e) b, cp)"
    using decode_eq [OF Cons.prems(3) b] by simp
  let ?e = "e\<lparr>dec_state := next_state (dec_state e) b, codepoint := cp,
     string_buffer := string_buffer e @ (if ea then [] else [char_of b]),
     undumped_chars := undumped_chars e + 1\<rparr>"
  have "dump_loop h ea s i (map char_of (b # p) @ r) e = dump_loop h ea s (i + 1) (map char_of p @ r) ?e"
    using d b n Cons.prems(4) by (simp add: UTF8_ACCEPT_def UTF8_REJECT_def store_def)
  also have "\<dots> = dump_loop h ea s (i + 1 + length p) r
      (?e\<lparr>dec_state := dfa (dec_state ?e) p, codepoint := snd (decode_run (dec_state ?e) (codepoint ?e) p),
         string_buffer := string_buffer ?e @ (if ea then [] else map char_of p),
         undumped_chars := undumped_chars ?e + length p\<rparr>)"
    by (rule Cons.IH) (use Cons.prems next_state_bound in auto)
  finally show ?case using d by (simp add: algebra_simps)
qed


definition escaped :: "bool \<Rightarrow> nat \<Rightarrow> bool" where
  "escaped ea c \<longleftrightarrow> c \<le> 0x1F \<or> ea \<and> 0x7F \<le> c \<or> c = 0x22 \<or> c = 0x5C"

lemma escape_copied: "\<not> escaped ea c \<Longrightarrow> escape ea c = map char_of (utf8_encode c)"
  by (auto simp: escape_def escaped_def)

lemma store_room:
  "length (string_buffer e) + length x + n \<le> 512 \<Longrightarrow>
   store x n e = Inr (e\<lparr>string_buffer := string_buffer e @ x\<rparr>)"
  by (simp add: store_def)

lemma hex4_length [simp]: "length (hex4 n) = 4"
  by (simp add: hex4_def Let_def)

lemma surrogate_fits:
  assumes "c < (0x110000 :: nat)"
  shows "(0xD7C0 + c div 1024) mod 65536 = 0xD7C0 + c div 1024"
    "(0xDC00 + c mod 1024) mod 65536 = 0xDC00 + c mod 1024"
proof -
  have "c div 1024 < 1088" using assms by (simp add: div_less_iff_less_mult)
  then show "(0xD7C0 + c div 1024) mod 65536 = 0xD7C0 + c div 1024" by simp
  have "c mod 1024 < 1024" by simp
  then show "(0xDC00 + c mod 1024) mod 65536 = 0xDC00 + c mod 1024" by (intro mod_less) linarith
qed

lemma store_escaped:
  assumes "escaped ea (codepoint e)" and "codepoint e < 0x110000"
    and "length (string_buffer e) + 13 \<le> 512"
  shows "store_codepoint ea c e = Inr (e\<lparr>string_buffer := string_buffer e @ escape ea (codepoint e)\<rparr>)"
  using assms(1) surrogate_fits [OF assms(2)] assms(3)
  unfolding store_codepoint_def escape_def escaped_def Let_def
  by (auto simp: store_room)

lemma store_copied:
  assumes "\<not> escaped ea (codepoint e)" and "length (string_buffer e) + 1 \<le> 512"
  shows "store_codepoint ea c e = Inr (e\<lparr>string_buffer := string_buffer e @ [c]\<rparr>)"
proof -
  have n: "codepoint e \<noteq> n" if "n \<le> 0x1F \<or> n = 0x22 \<or> n = 0x5C" for n
    using assms(1) that by (auto simp: escaped_def)
  show ?thesis
    using assms n [of 8] n [of 9] n [of 10] n [of 12] n [of 13]
    by (auto simp: store_codepoint_def escaped_def Let_def store_room)
qed


text \<open>One code point, from a clean state to a clean state.\<close>

lemma flush_accept_clean:
  assumes "dec_state e = UTF8_ACCEPT" and "length (string_buffer e) \<le> 512"
  shows "clean ((flush_accept e)\<lparr>undumped_chars := 0\<rparr>)"
    "so_far ((flush_accept e)\<lparr>undumped_chars := 0\<rparr>) = so_far e"
  using assms by (auto simp: flush_accept_def clean_def so_far_def Let_def)

lemma escape_length: "scalar c \<Longrightarrow> length (escape ea c) \<le> 12"
  by (auto simp: escape_def utf8_encode_def)

lemma small_one_byte: "c < 0x80 \<Longrightarrow> utf8_encode c = p @ [b] \<Longrightarrow> p = []"
  by (simp add: utf8_encode_def)

lemma dump_loop_scalar:
  assumes "scalar c" and "clean e"
  shows "\<exists>e'. dump_loop h ea s i (map char_of (utf8_encode c) @ r) e =
      dump_loop h ea s (i + length (utf8_encode c)) r e' \<and>
    clean e' \<and> so_far e' = so_far e @ escape ea c"
proof -
  from assms(1) obtain p b where pb: "utf8_encode c = p @ [b]" "pending 0 p" "next_state (dfa 0 p) b = 0"
    by (rule encode_split)
  from utf8_encode_bytes [OF assms(1)] pb have by256: "list_all (\<lambda>b. b < 256) p" "b < 256" by simp_all
  from assms(2) have e: "dec_state e = 0" "undumped_chars e = 0" "length (string_buffer e) \<le> 499"
    by (simp_all add: clean_def UTF8_ACCEPT_def)
  have lp: "length p \<le> 3" by (rule pending_length [OF pb(2)])
  let ?cp = "snd (decode_run 0 (codepoint e) p)"
  let ?e1 = "e\<lparr>dec_state := dfa 0 p, codepoint := ?cp,
     string_buffer := string_buffer e @ (if ea then [] else map char_of p), undumped_chars := length p\<rparr>"
  have 1: "dump_loop h ea s i (map char_of (utf8_encode c) @ r) e =
      dump_loop h ea s (i + length p) (char_of b # r) ?e1"
    using dump_loop_pending [of e p h ea s i "char_of b # r"] pb by256 e lp by simp
  have dr: "fst (decode_run 0 (codepoint e) p) = dfa 0 p"
    using decode_run_dfa [OF by256(1), of 0 "codepoint e"] by simp
  have d: "decode (dfa 0 p) ?cp b = (0, c)"
    using decode_run_snoc [of 0 "codepoint e" p b] dr decode_encode [OF assms(1), of "codepoint e"] pb(1)
    by (simp add: case_prod_beta)
  let ?e2 = "?e1\<lparr>dec_state := 0, codepoint := c\<rparr>"
  have st: "store_codepoint ea (char_of b) ?e2 = Inr (?e2\<lparr>string_buffer := string_buffer e @ escape ea c\<rparr>)"
  proof (cases "escaped ea c")
    case True
    then have "\<not> ea \<Longrightarrow> p = []" using pb(1) small_one_byte [of c p b] by (auto simp: escaped_def)
    then have "string_buffer ?e2 = string_buffer e" by auto
    with True store_escaped [of ea ?e2 "char_of b"] assms(1) e(3) show ?thesis
      by (simp add: scalar_def)
  next
    case False
    then have "ea \<Longrightarrow> p = []" using pb(1) small_one_byte [of c p b] by (auto simp: escaped_def)
    then have "string_buffer ?e2 @ [char_of b] = string_buffer e @ map char_of (utf8_encode c)"
      by (auto simp: pb(1))
    with False store_copied [of ea ?e2 "char_of b"] e(3) lp show ?thesis
      by (simp add: escape_copied)
  qed
  let ?e3 = "?e2\<lparr>string_buffer := string_buffer e @ escape ea c\<rparr>"
  let ?e4 = "(flush_accept ?e3)\<lparr>undumped_chars := 0\<rparr>"
  have "length (string_buffer ?e3) \<le> 512" using e(3) escape_length [OF assms(1), of ea] by simp
  then have "clean ?e4" "so_far ?e4 = so_far ?e3"
    by (intro flush_accept_clean; simp add: UTF8_ACCEPT_def)+
  moreover have "dump_loop h ea s (i + length p) (char_of b # r) ?e1 = dump_loop h ea s (i + length p + 1) r ?e4"
    using d st by256(2) by (simp add: UTF8_ACCEPT_def)
  moreover have "so_far ?e3 = so_far e @ escape ea c" by (simp add: so_far_def)
  ultimately show ?thesis using 1 pb(1) by (intro exI [of _ ?e4]) simp
qed

text \<open>A string of scalar values.\<close>

lemma dump_loop_scalars:
  "list_all scalar cs \<Longrightarrow> clean e \<Longrightarrow>
   \<exists>e'. dump_loop h ea s i (map char_of (utf8_string cs) @ r) e =
      dump_loop h ea s (i + length (utf8_string cs)) r e' \<and>
    clean e' \<and> so_far e' = so_far e @ concat (map (escape ea) cs)"
proof (induction cs arbitrary: i e)
  case Nil
  then show ?case by auto
next
  case (Cons c cs)
  from Cons.prems have c: "scalar c" by simp
  from dump_loop_scalar [OF c Cons.prems(2), of h ea s i "map char_of (utf8_string cs) @ r"]
  obtain e1 where 1: "dump_loop h ea s i (map char_of (utf8_encode c) @ map char_of (utf8_string cs) @ r) e
      = dump_loop h ea s (i + length (utf8_encode c)) (map char_of (utf8_string cs) @ r) e1"
    "clean e1" "so_far e1 = so_far e @ escape ea c" by blast
  from Cons.IH [OF _ 1(2), of "i + length (utf8_encode c)"] Cons.prems(1)
  obtain e2 where "dump_loop h ea s (i + length (utf8_encode c)) (map char_of (utf8_string cs) @ r) e1
      = dump_loop h ea s (i + length (utf8_encode c) + length (utf8_string cs)) r e2"
    "clean e2" "so_far e2 = so_far e1 @ concat (map (escape ea) cs)" by auto
  with 1 show ?case by (intro exI [of _ e2]) (simp add: algebra_simps)
qed


definition bytes_of :: "string \<Rightarrow> nat list" where
  "bytes_of s = map of_char s"

lemma bytes_of_less: "list_all (\<lambda>b. b < 256) (bytes_of s)"
  by (simp add: bytes_of_def list_all_iff)

lemma chars_of_bytes: "map char_of (bytes_of s) = s"
  by (simp add: bytes_of_def comp_def)

lemma dump_loop_invalid:
  "clean e \<Longrightarrow> list_all (\<lambda>b. b < 256) bs \<Longrightarrow> \<not> valid_utf8 bs \<Longrightarrow>
   \<exists>m. dump_loop Strict ea s i (map char_of bs) e = Inl (Type_error 316 m)"
proof (induction bs arbitrary: i e rule: length_induct)
  case (1 bs)
  from 1(2) have e: "dec_state e = 0" "length (string_buffer e) \<le> 499"
    by (simp_all add: clean_def UTF8_ACCEPT_def)
  have ne: "bs \<noteq> []" using 1(4) dfa_accepts_valid [of "[]"] by auto
  from pending_or_end [of 0 bs] show ?case
  proof (elim disjE exE conjE)
    assume p: "pending 0 bs"
    with ne pending_state [of 0 bs] have "dfa 0 bs \<noteq> 0" by auto
    with dump_loop_pending [of e bs Strict ea s i "[]"] p 1(3) e pending_length [OF p] show ?thesis
      by (simp add: dump_end_def UTF8_ACCEPT_def)
  next
    fix p b r
    assume bs: "bs = p @ b # r" and p: "pending 0 p" and n: "next_state (dfa 0 p) b \<in> {0, 1}"
    show ?thesis
    proof (cases "next_state (dfa 0 p) b = 0")
      case True
      from accepted_scalar [OF p True] obtain c where c: "scalar c" "p @ [b] = utf8_encode c" by blast
      from dump_loop_scalar [OF c(1) 1(2), of Strict ea s i "map char_of r"] c(2) bs
      obtain e' where "dump_loop Strict ea s i (map char_of bs) e
          = dump_loop Strict ea s (i + length (utf8_encode c)) (map char_of r) e'" "clean e'"
        by (metis append.assoc append_Cons append_Nil map_append)
      moreover have "\<not> valid_utf8 r"
        using 1(4) bs True by (simp add: valid_iff_dfa)
      ultimately show ?thesis using 1(1) bs 1(3) by auto
    next
      case False
      with n have n1: "next_state (dfa 0 p) b = 1" by simp
      let ?e = "e\<lparr>dec_state := dfa 0 p, codepoint := snd (decode_run 0 (codepoint e) p),
         string_buffer := string_buffer e @ (if ea then [] else map char_of p),
         undumped_chars := undumped_chars e + length p\<rparr>"
      have 256: "list_all (\<lambda>b. b < 256) p" "b < 256" using 1(3) bs by simp_all
      have "dump_loop Strict ea s i (map char_of bs) e =
          dump_loop Strict ea s (i + length p) (char_of b # map char_of r) ?e"
        using dump_loop_pending [of e p Strict ea s i "char_of b # map char_of r"] p 256 e
          pending_length [OF p] bs by simp
      moreover have "dfa 0 p < 9" by (cases p rule: rev_cases) (simp_all add: next_state_bound)
      ultimately show ?thesis
        using decode_eq [of "dfa 0 p" b] 256(2) n1
        by (simp add: UTF8_ACCEPT_def UTF8_REJECT_def)
    qed
  qed
qed

lemma dump_escaped_valid:
  assumes "list_all scalar cs" and "bytes_of s = utf8_string cs"
  shows "dump_escaped h ea s = Inr (concat (map (escape ea) cs))"
proof -
  from dump_loop_scalars [OF assms(1) clean_new(1), of h ea s 0 "[]"]
  obtain e where "dump_loop h ea s 0 (map char_of (utf8_string cs)) new_escaping =
      dump_loop h ea s (length (utf8_string cs)) [] e" "clean e" "so_far e = concat (map (escape ea) cs)"
    by auto
  then show ?thesis
    using chars_of_bytes [of s] assms(2) by (simp add: dump_escaped_def dump_end_def clean_def so_far_def)
qed

lemma dump_escaped_invalid:
  "\<not> valid_utf8 (bytes_of s) \<Longrightarrow> \<exists>m. dump_escaped Strict ea s = Inl (Type_error 316 m)"
  using dump_loop_invalid [OF clean_new(1) bytes_of_less, of s ea s 0]
  by (simp add: dump_escaped_def chars_of_bytes)

section \<open>The buffer is large enough, and lenient handlers never throw\<close>

definition within :: "bool \<Rightarrow> escaping \<Rightarrow> bool" where
  "within ea e \<longleftrightarrow> (\<exists>p. pending 0 p \<and> dec_state e = dfa 0 p \<and> undumped_chars e = length p \<and>
     length (string_buffer e) = bytes_after_last_accept e + (if ea then 0 else length p)) \<and>
     bytes_after_last_accept e \<le> 499"

lemma within_bounds:
  assumes "within ea e"
  shows "length (string_buffer e) \<le> (if ea then 499 else 502)" "dec_state e < 9"
proof -
  from assms obtain p where p: "pending 0 p" "dec_state e = dfa 0 p"
    "length (string_buffer e) = bytes_after_last_accept e + (if ea then 0 else length p)"
    "bytes_after_last_accept e \<le> 499" by (auto simp: within_def)
  with pending_length [OF p(1)] show "length (string_buffer e) \<le> (if ea then 499 else 502)" by auto
  show "dec_state e < 9" using p(2) by (cases p rule: rev_cases) (simp_all add: next_state_bound)
qed

lemma within_clean: "clean e \<Longrightarrow> within ea e"
  unfolding within_def clean_def by (auto simp: UTF8_ACCEPT_def intro!: exI [of _ "[]"])

lemma store_codepoint_ok:
  assumes "length (string_buffer e) \<le> (if ea then 499 else 502)"
  shows "\<exists>e'. store_codepoint ea c e = Inr e' \<and> dec_state e' = dec_state e \<and> length (string_buffer e') \<le> 512"
  using assms by (auto simp: store_codepoint_def store_def Let_def split: if_splits)

lemma drop_invalid_ok:
  assumes "bytes_after_last_accept e \<le> 499" "bytes_after_last_accept e \<le> length (string_buffer e)"
  shows "\<exists>e'. drop_invalid h ea e = Inr e' \<and> clean e'"
  using assms
  by (auto simp: drop_invalid_def store_def replacement_def flush_accept_def clean_def Let_def)


lemma clean_undumped: "clean e \<Longrightarrow> clean (e\<lparr>undumped_chars := 0\<rparr>)"
  by (simp add: clean_def)

lemma dump_loop_lenient:
  "within ea e \<Longrightarrow> h \<noteq> Strict \<Longrightarrow> \<exists>out. dump_loop h ea s i r e = Inr out"
proof (induction h ea s i r e rule: dump_loop.induct)
  case (1 h ea s i e)
  then show ?case by (cases h) (simp_all add: dump_end_def)
next
  case (2 h ea s i c r e)
  let ?b = "of_char c :: nat"
  note bounds = within_bounds [OF "2.prems"(1)]
  from "2.prems"(1) have acc: "bytes_after_last_accept e \<le> 499"
    "bytes_after_last_accept e \<le> length (string_buffer e)" by (auto simp: within_def)
  have b: "?b < 256" by simp
  obtain cp where d: "decode (dec_state e) (codepoint e) ?b = (next_state (dec_state e) ?b, cp)"
    using decode_eq [OF bounds(2) b] by simp
  let ?st = "next_state (dec_state e) ?b"
  let ?e1 = "e\<lparr>dec_state := ?st, codepoint := cp\<rparr>"
  consider "?st = 0" | "?st = 1" | "?st \<notin> {0, 1}" by auto
  then show ?case
  proof cases
    case 1
    from store_codepoint_ok [of ?e1 ea c] bounds(1) obtain e2
      where e2: "store_codepoint ea c ?e1 = Inr e2" "dec_state e2 = 0" "length (string_buffer e2) \<le> 512"
      using 1 by auto
    then have "within ea ((flush_accept e2)\<lparr>undumped_chars := 0\<rparr>)"
      by (intro within_clean flush_accept_clean) (simp_all add: UTF8_ACCEPT_def)
    with "2.IH"(1) [OF d [symmetric] refl refl] 1 e2 d "2.prems"(2) show ?thesis
      by (simp add: UTF8_ACCEPT_def)
  next
    case 2
    from drop_invalid_ok [of ?e1 h ea] acc obtain e2 where e2: "drop_invalid h ea ?e1 = Inr e2" "clean e2"
      by auto
    then have "within ea (e2\<lparr>undumped_chars := 0\<rparr>)" by (intro within_clean clean_undumped)
    with "2.IH"(2,3) [OF d [symmetric] refl refl] 2 e2 d "2.prems"(2) show ?thesis
      by (subst dump_loop.simps(2))
         (simp add: Let_def UTF8_ACCEPT_def UTF8_REJECT_def del: dump_loop.simps)
  next
    case 3
    from "2.prems"(1) obtain p where p: "pending 0 p" "dec_state e = dfa 0 p" "undumped_chars e = length p"
      "length (string_buffer e) = bytes_after_last_accept e + (if ea then 0 else length p)"
      by (auto simp: within_def)
    let ?e2 = "?e1\<lparr>string_buffer := string_buffer e @ (if ea then [] else [c])\<rparr>"
    have st: "(if ea then Inr ?e1 else store [c] 0 ?e1) = Inr ?e2"
      using bounds(1) by (auto simp: store_def split: if_splits)
    have "within ea (?e2\<lparr>undumped_chars := undumped_chars ?e2 + 1\<rparr>)"
      unfolding within_def using p 3 acc pending_snoc [OF p(1), of ?b]
      by (auto intro!: exI [of _ "p @ [?b]"])
    from "2.IH"(4) [OF d [symmetric] refl refl _ _ st this "2.prems"(2)] 3
    have "\<exists>out. dump_loop h ea s (i + 1) r (?e2\<lparr>undumped_chars := undumped_chars ?e2 + 1\<rparr>) = Inr out"
      by (simp add: UTF8_ACCEPT_def UTF8_REJECT_def)
    moreover have "dump_loop h ea s i (c # r) e =
        bindr (if ea then Inr ?e1 else store [c] 0 ?e1)
          (\<lambda>e2. dump_loop h ea s (i + 1) r (e2\<lparr>undumped_chars := undumped_chars e2 + 1\<rparr>))"
      using d 3 by (subst dump_loop.simps(2)) (simp add: Let_def UTF8_ACCEPT_def UTF8_REJECT_def)
    ultimately show ?thesis unfolding st by simp
  qed
qed

lemma dump_escaped_lenient: "h \<noteq> Strict \<Longrightarrow> \<exists>out. dump_escaped h ea s = Inr out"
  unfolding dump_escaped_def by (intro dump_loop_lenient within_clean clean_new)

text \<open>
  C20: escaping a string into the 512-byte buffer never overruns it. For UTF-8 text the output is
  the escapes of its code points in order, whatever the error handler; for anything else the strict
  handler throws \<open>type_error\<close> 316 and the lenient ones return.
\<close>

theorem dump_escaped_correct:
  "if valid_utf8 (bytes_of s)
   then \<exists>cs. list_all scalar cs \<and> bytes_of s = utf8_string cs
     \<and> dump_escaped h ea s = Inr (concat (map (escape ea) cs))
   else if h = Strict then \<exists>m. dump_escaped h ea s = Inl (Type_error 316 m)
   else \<exists>out. dump_escaped h ea s = Inr out"
  using dump_escaped_valid [of _ s h ea] dump_escaped_invalid [of s ea] dump_escaped_lenient [of h ea s]
  by (auto simp: valid_utf8_def)

end
