(* ===== verification/Json_Memory.thy ===== *)
theory Json_Memory
  imports Json_Serializer
begin

text \<open>
  The memory of a JSON value: \<open>basic_json\<close>'s destructor and move constructor and
  \<open>json_value::destroy\<close> of \<open>include/json.hpp\<close>, on an explicit heap. Destroying a value frees each of
  its cells once, and nested values do not nest the calls.
\<close>

section \<open>Values and cells\<close>

text \<open>
  \<open>m_type\<close> and \<open>m_value\<close>: a pointer, perhaps null, for the four types that have memory, and the value
  itself for the others. A cell is freed when it is \<open>None\<close>.
\<close>

datatype data =
    D_object "nat option"
  | D_array "nat option"
  | D_string "nat option"
  | D_binary "nat option"
  | D_value json

datatype cell =
    Members "(string \<times> data) list"
  | Vector "data list"
  | Text string
  | Bytes string "nat option"

type_synonym heap = "cell option list"

text \<open>
  An access through a pointer that is not valid, also a second deallocation; a violated assertion; a
  nesting of destructors deeper than the given one; a loop that is not finished with its fuel.
\<close>

datatype memory_error = Invalid_pointer | Violated_assertion | Nested_too_deep | Out_of_fuel

type_synonym 'a memory = "memory_error + 'a"

definition bindm :: "'a memory \<Rightarrow> ('a \<Rightarrow> 'b memory) \<Rightarrow> 'b memory" where
  "bindm r f = (case r of Inl e \<Rightarrow> Inl e | Inr x \<Rightarrow> f x)"

lemma bindm_simps [simp]: "bindm (Inl e) f = Inl e" "bindm (Inr x) f = f x"
  by (simp_all add: bindm_def)

definition cell_at :: "nat \<Rightarrow> heap \<Rightarrow> cell memory" where
  "cell_at a h = (if a < length h then (case h ! a of Some c \<Rightarrow> Inr c | None \<Rightarrow> Inl Invalid_pointer) else Inl Invalid_pointer)"

definition deallocate :: "nat \<Rightarrow> heap \<Rightarrow> heap memory" where
  "deallocate a h = bindm (cell_at a h) (\<lambda>c. Inr (h[a := None]))"

text \<open>\<open>assert_invariant\<close>.\<close>

definition assert_invariant :: "data \<Rightarrow> bool" where
  "assert_invariant v \<longleftrightarrow> v \<noteq> D_object None \<and> v \<noteq> D_array None \<and> v \<noteq> D_string None \<and> v \<noteq> D_binary None"

text \<open>The move constructor: the new value, and what is left.\<close>

definition move :: "data \<Rightarrow> (data \<times> data) memory" where
  "move other = (if assert_invariant other then Inr (other, D_value J_null) else Inl Violated_assertion)"

text \<open>The elements of the container \<open>v\<close> are moved out, in order.\<close>

fun move_all :: "data list \<Rightarrow> (data list \<times> data list) memory" where
  "move_all [] = Inr ([], [])"
| "move_all (v # vs) = bindm (move v) (\<lambda>(w, u). bindm (move_all vs) (\<lambda>(ws, us). Inr (w # ws, u # us)))"

definition elements :: "data \<Rightarrow> heap \<Rightarrow> data list memory" where
  "elements v h =
     (case v of
        D_array (Some a) \<Rightarrow> bindm (cell_at a h) (\<lambda>c. case c of Vector vs \<Rightarrow> Inr vs | _ \<Rightarrow> Inl Invalid_pointer)
      | D_object (Some a) \<Rightarrow> bindm (cell_at a h) (\<lambda>c. case c of Members ms \<Rightarrow> Inr (map snd ms) | _ \<Rightarrow> Inl Invalid_pointer)
      | _ \<Rightarrow> Inr [])"

definition set_elements :: "data \<Rightarrow> data list \<Rightarrow> heap \<Rightarrow> heap" where
  "set_elements v us h =
     (case v of
        D_array (Some a) \<Rightarrow> h[a := Some (Vector us)]
      | D_object (Some a) \<Rightarrow>
          (case h ! a of Some (Members ms) \<Rightarrow> h[a := Some (Members (zip (map fst ms) us))] | _ \<Rightarrow> h)
      | _ \<Rightarrow> h)"

definition move_out :: "data \<Rightarrow> heap \<Rightarrow> (data list \<times> heap) memory" where
  "move_out v h = bindm (elements v h) (\<lambda>vs. bindm (move_all vs) (\<lambda>(ws, us). Inr (ws, set_elements v us h)))"

section \<open>Destruction\<close>

text \<open>\<open>clear\<close> and the destructor of a container run the destructor of each element.\<close>

fun destruct_all :: "(data \<Rightarrow> heap \<Rightarrow> heap memory) \<Rightarrow> data list \<Rightarrow> heap \<Rightarrow> heap memory" where
  "destruct_all dtor [] h = Inr h"
| "destruct_all dtor (v # vs) h = bindm (dtor v h) (destruct_all dtor vs)"

definition is_container :: "data \<Rightarrow> bool" where
  "is_container v \<longleftrightarrow> (case v of D_array p \<Rightarrow> True | D_object p \<Rightarrow> True | _ \<Rightarrow> False)"

definition clear :: "(data \<Rightarrow> heap \<Rightarrow> heap memory) \<Rightarrow> data \<Rightarrow> heap \<Rightarrow> heap memory" where
  "clear dtor v h = bindm (elements v h) (\<lambda>us. bindm (destruct_all dtor us h) (\<lambda>h. Inr (set_elements v [] h)))"

text \<open>The loop over the stack: the last value is taken, emptied if it is a container, and destructed.\<close>

fun flatten_loop :: "(data \<Rightarrow> heap \<Rightarrow> heap memory) \<Rightarrow> nat \<Rightarrow> data list \<Rightarrow> heap \<Rightarrow> heap memory" where
  "flatten_loop dtor fuel stack h =
     (if stack = [] then Inr h
      else case fuel of
        0 \<Rightarrow> Inl Out_of_fuel
      | Suc fuel \<Rightarrow>
          bindm (move (last stack)) (\<lambda>(current_item, moved).
          bindm (dtor moved h) (\<lambda>h.
          if is_container current_item
          then bindm (move_out current_item h) (\<lambda>(vs, h).
               bindm (clear dtor current_item h) (\<lambda>h.
               bindm (dtor current_item h) (flatten_loop dtor fuel (butlast stack @ vs))))
          else bindm (dtor current_item h) (flatten_loop dtor fuel (butlast stack)))))"

declare flatten_loop.simps [simp del]

definition pointer :: "data \<Rightarrow> nat option" where
  "pointer v = (case v of D_object p \<Rightarrow> p | D_array p \<Rightarrow> p | D_string p \<Rightarrow> p | D_binary p \<Rightarrow> p | D_value j \<Rightarrow> None)"

text \<open>\<open>destroy\<close>: the content first, then the elements left in the container and the cell itself.\<close>

definition destroy :: "(data \<Rightarrow> heap \<Rightarrow> heap memory) \<Rightarrow> nat \<Rightarrow> data \<Rightarrow> heap \<Rightarrow> heap memory" where
  "destroy dtor fuel v h =
     (case pointer v of
        None \<Rightarrow> Inr h
      | Some a \<Rightarrow>
          bindm (if is_container v then bindm (move_out v h) (\<lambda>(stack, h). flatten_loop dtor fuel stack h) else Inr h)
            (\<lambda>h. bindm (elements v h) (\<lambda>us. bindm (destruct_all dtor us h) (deallocate a))))"

text \<open>The destructor of \<open>basic_json\<close>, with the number of destructors that may be active at once.\<close>

primrec destruct :: "nat \<Rightarrow> nat \<Rightarrow> data \<Rightarrow> heap \<Rightarrow> heap memory" where
  "destruct 0 fuel v h = Inl Nested_too_deep"
| "destruct (Suc n) fuel v h =
     (if assert_invariant v then destroy (destruct n fuel) fuel v h else Inl Violated_assertion)"

section \<open>The memory of a value\<close>

text \<open>\<open>v\<close> holds the value \<open>j\<close>, in the cells \<open>cs\<close>.\<close>

inductive represents :: "heap \<Rightarrow> data \<Rightarrow> json \<Rightarrow> nat list \<Rightarrow> bool"
  and represents_all :: "heap \<Rightarrow> data list \<Rightarrow> json list \<Rightarrow> nat list \<Rightarrow> bool" for h :: heap where
  scalar: "j \<in> {J_null, J_discarded} \<union> range J_bool \<union> range J_int \<union> range J_uint \<union> range J_float \<Longrightarrow> represents h (D_value j) j []"
| text_cell: "a < length h \<Longrightarrow> h ! a = Some (Text s) \<Longrightarrow> represents h (D_string (Some a)) (J_string s) [a]"
| bytes_cell: "a < length h \<Longrightarrow> h ! a = Some (Bytes s t) \<Longrightarrow> represents h (D_binary (Some a)) (J_binary s t) [a]"
| vector_cell: "a < length h \<Longrightarrow> h ! a = Some (Vector vs) \<Longrightarrow> represents_all h vs js cs \<Longrightarrow>
    represents h (D_array (Some a)) (J_array js) (a # cs)"
| members_cell: "a < length h \<Longrightarrow> h ! a = Some (Members ms) \<Longrightarrow> represents_all h (map snd ms) (map snd js) cs \<Longrightarrow>
    map fst ms = map fst js \<Longrightarrow> represents h (D_object (Some a)) (J_object js) (a # cs)"
| none: "represents_all h [] [] []"
| more: "represents h v j cs \<Longrightarrow> represents_all h vs js ds \<Longrightarrow> represents_all h (v # vs) (j # js) (cs @ ds)"

inductive_cases represents_cases: "represents h v j cs"
inductive_cases represents_all_Nil: "represents_all h [] js cs"
inductive_cases represents_all_Cons: "represents_all h (v # vs) js cs"

text \<open>The number of values in a value.\<close>

primrec json_nodes :: "json \<Rightarrow> nat" where
  "json_nodes J_null = 1" | "json_nodes (J_bool b) = 1" | "json_nodes (J_int i) = 1"
| "json_nodes (J_uint i) = 1" | "json_nodes (J_float f) = 1" | "json_nodes (J_string s) = 1"
| "json_nodes (J_array vs) = Suc (sum_list (map json_nodes vs))"
| "json_nodes (J_object ms) = Suc (sum_list (map snd (map (map_prod id json_nodes) ms)))"
| "json_nodes (J_binary b t) = 1" | "json_nodes J_discarded = 1"

text \<open>The cells \<open>cs\<close> are freed, the others as they were.\<close>

definition freed :: "nat list \<Rightarrow> heap \<Rightarrow> heap" where
  "freed cs h = map (\<lambda>a. if a \<in> set cs then None else h ! a) [0..<length h]"

lemma freed_Nil [simp]: "freed [] h = h"
  by (simp add: freed_def map_nth)

lemma freed_update: "freed cs (h[a := None]) = freed (a # cs) h"
  by (rule nth_equalityI) (auto simp: freed_def nth_list_update)

lemma freed_cong: "set cs = set ds \<Longrightarrow> freed cs h = freed ds h"
  by (simp add: freed_def)

lemma freed_freed: "freed cs (freed ds h) = freed (cs @ ds) h"
  by (rule nth_equalityI) (auto simp: freed_def)

lemma freed_nth: "a < length h \<Longrightarrow> freed cs h ! a = (if a \<in> set cs then None else h ! a)" "length (freed cs h) = length h"
  by (simp_all add: freed_def)

text \<open>Only the cells of a value matter for it.\<close>

lemma represents_frame:
  "represents h v j cs \<Longrightarrow> length h' = length h \<Longrightarrow> (\<forall>a \<in> set cs. h' ! a = h ! a) \<Longrightarrow> represents h' v j cs"
  "represents_all h vs js ds \<Longrightarrow> length h' = length h \<Longrightarrow> (\<forall>a \<in> set ds. h' ! a = h ! a) \<Longrightarrow> represents_all h' vs js ds"
  by (induction rule: represents_represents_all.inducts) (auto intro: represents_represents_all.intros)

lemma represents_cells:
  "represents h v j cs \<Longrightarrow> \<forall>a \<in> set cs. a < length h"
  "represents_all h vs js ds \<Longrightarrow> \<forall>a \<in> set ds. a < length h"
  by (induction rule: represents_represents_all.inducts) auto

lemma represents_all_update:
  "represents_all h vs js cs \<Longrightarrow> a \<notin> set cs \<Longrightarrow> represents_all (h[a := c]) vs js cs"
  by (erule represents_frame(2)) (auto intro!: nth_list_update_neq)

lemma represents_all_append:
  "represents_all h vs js cs \<Longrightarrow> represents_all h ws ks ds \<Longrightarrow> represents_all h (vs @ ws) (js @ ks) (cs @ ds)"
proof (induction vs arbitrary: js cs)
  case (Cons v vs)
  from Cons.prems(1) obtain j js' cs1 cs2 where j: "js = j # js'" "cs = cs1 @ cs2" "represents h v j cs1" "represents_all h vs js' cs2"
    by (auto elim: represents_all_Cons)
  from more [OF j(3) Cons.IH [OF j(4) Cons.prems(2)]] j(1,2) show ?case by simp
qed (auto elim: represents_all_Nil)

lemma represents_all_last:
  "represents_all h vs js cs \<Longrightarrow> vs \<noteq> [] \<Longrightarrow>
   \<exists>ks j ds es. js = ks @ [j] \<and> cs = ds @ es \<and> represents_all h (butlast vs) ks ds \<and> represents h (last vs) j es"
proof (induction vs arbitrary: js cs)
  case (Cons v vs)
  then obtain j js' cs1 cs2 where j: "js = j # js'" "cs = cs1 @ cs2" "represents h v j cs1" "represents_all h vs js' cs2"
    by (auto elim: represents_all_Cons)
  show ?case
  proof (cases "vs = []")
    case True
    with j(4) have "js' = []" "cs2 = []" by (auto elim: represents_all_Nil)
    with j True show ?thesis
      by (intro exI [of _ "[]"] exI [of _ j] exI [of _ "[]"] exI [of _ cs1]) (auto intro: none)
  next
    case False
    with Cons.IH [OF j(4)] obtain ks k ds es where "js' = ks @ [k]" "cs2 = ds @ es" "represents_all h (butlast vs) ks ds" "represents h (last vs) k es"
      by blast
    with j False show ?thesis
      by (intro exI [of _ "j # ks"] exI [of _ k] exI [of _ "cs1 @ ds"] exI [of _ es]) (auto intro: more)
  qed
qed simp

lemma represents_invariant: "represents h v j cs \<Longrightarrow> assert_invariant v"
  by (auto simp: assert_invariant_def elim: represents_cases)

lemma represents_all_invariant: "represents_all h vs js cs \<Longrightarrow> list_all assert_invariant vs"
  by (induction vs arbitrary: js cs) (auto elim: represents_all_Cons dest: represents_invariant)

lemma move_all_invariant: "list_all assert_invariant vs \<Longrightarrow> move_all vs = Inr (vs, replicate (length vs) (D_value J_null))"
  by (induction vs) (simp_all add: move_def)

section \<open>Destruction frees the memory\<close>

lemma destruct_null: "destruct (Suc n) fuel (D_value j) h = Inr h"
  by (simp add: destroy_def pointer_def assert_invariant_def)

lemma destruct_nulls: "destruct_all (destruct (Suc n) fuel) (replicate k (D_value j)) h = Inr h"
  by (induction k) (simp_all add: destruct_null del: destruct.simps)

text \<open>A value without elements is freed by one destructor.\<close>

lemma destruct_empty:
  assumes "pointer v = Some a" "cell_at a h = Inr c" "elements v h = Inr []" "set_elements v [] h = h"
  shows "destruct (Suc n) fuel v h = Inr (h[a := None])"
proof -
  have "assert_invariant v" using assms(1) by (auto simp: assert_invariant_def pointer_def)
  then show ?thesis using assms
    by (simp add: destroy_def move_out_def flatten_loop.simps deallocate_def)
qed

text \<open>The elements of a container are moved out; null values are left, and then nothing.\<close>

lemma moved_out:
  assumes "represents h v j cs" "is_container v"
  obtains a ds vs js c c' where "cs = a # ds" "pointer v = Some a" "a < length h" "represents_all h vs js ds"
    "json_nodes j = Suc (sum_list (map json_nodes js))" "move_out v h = Inr (vs, h[a := Some c])"
    "elements v (h[a := Some c]) = Inr (replicate (length vs) (D_value J_null))" "set_elements v [] (h[a := Some c]) = h[a := Some c']"
    "elements v (h[a := Some c']) = Inr []" "set_elements v [] (h[a := Some c']) = h[a := Some c']"
  using assms(1)
proof (cases rule: represents.cases)
  case (vector_cell a vs js ds)
  have "elements v h = Inr vs" using vector_cell by (simp add: elements_def cell_at_def)
  then have m: "move_out v h = Inr (vs, h[a := Some (Vector (replicate (length vs) (D_value J_null)))])"
    using move_all_invariant [OF represents_all_invariant] vector_cell by (simp add: move_out_def set_elements_def)
  have n: "json_nodes j = Suc (sum_list (map json_nodes js))" using vector_cell by simp
  show thesis
    by (rule that [OF _ _ _ vector_cell(6) n m, where c' = "Vector []"])
       (use vector_cell(1,3,4,5) in \<open>simp_all add: pointer_def elements_def cell_at_def set_elements_def\<close>)
next
  case (members_cell a ms js ds)
  let ?c = "Members (zip (map fst ms) (replicate (length ms) (D_value J_null)))"
  have "elements v h = Inr (map snd ms)" using members_cell by (simp add: elements_def cell_at_def)
  then have m: "move_out v h = Inr (map snd ms, h[a := Some ?c])"
    using move_all_invariant [OF represents_all_invariant] members_cell by (simp add: move_out_def set_elements_def)
  have n: "json_nodes j = Suc (sum_list (map json_nodes (map snd js)))" using members_cell by (simp add: comp_def)
  show thesis
    by (rule that [OF _ _ _ members_cell(6) n m, where c' = "Members []"])
       (use members_cell(1,3,4,5) in \<open>simp_all add: pointer_def elements_def cell_at_def set_elements_def\<close>)
qed (use assms(2) in \<open>simp_all add: is_container_def\<close>)

text \<open>A container is emptied and freed; its elements are still there.\<close>

lemma empty_and_destruct:
  assumes "represents h v j cs" "is_container v"
  shows "\<exists>a ds vs js h1 h2. cs = a # ds \<and> move_out v h = Inr (vs, h1) \<and> clear (destruct (Suc n) fuel) v h1 = Inr h2
    \<and> destruct (Suc n) fuel v h2 = Inr (h[a := None]) \<and> represents_all h vs js ds \<and> json_nodes j = Suc (sum_list (map json_nodes js))"
proof -
  obtain a ds vs js c c' where m: "cs = a # ds" "pointer v = Some a" "a < length h" "represents_all h vs js ds"
    "json_nodes j = Suc (sum_list (map json_nodes js))" "move_out v h = Inr (vs, h[a := Some c])"
    "elements v (h[a := Some c]) = Inr (replicate (length vs) (D_value J_null))" "set_elements v [] (h[a := Some c]) = h[a := Some c']"
    "elements v (h[a := Some c']) = Inr []" "set_elements v [] (h[a := Some c']) = h[a := Some c']" by (rule moved_out [OF assms])
  have "clear (destruct (Suc n) fuel) v (h[a := Some c]) = Inr (h[a := Some c'])"
    by (simp add: clear_def m destruct_nulls del: destruct.simps)
  moreover have "destruct (Suc n) fuel v (h[a := Some c']) = Inr (h[a := Some c', a := None])"
    by (rule destruct_empty [OF m(2) _ m(9,10), of c']) (simp add: cell_at_def m(3))
  ultimately show ?thesis using m(1,4,5,6) by auto
qed

text \<open>A value that is not a container.\<close>

lemma destruct_plain:
  assumes "represents h v j cs" "\<not> is_container v"
  shows "destruct (Suc n) fuel v h = Inr (freed cs h)"
  using assms(1)
proof (cases rule: represents.cases)
  case (text_cell a s)
  then show ?thesis
    using destruct_empty [of v a h "Text s"] by (simp add: pointer_def cell_at_def elements_def set_elements_def freed_update [of "[]", simplified] del: destruct.simps)
next
  case (bytes_cell a s t)
  then show ?thesis
    using destruct_empty [of v a h "Bytes s t"] by (simp add: pointer_def cell_at_def elements_def set_elements_def freed_update [of "[]", simplified] del: destruct.simps)
qed (use assms(2) in \<open>simp_all add: is_container_def destruct_null del: destruct.simps\<close>)

lemma json_nodes_pos: "0 < json_nodes j"
  by (cases j) simp_all

text \<open>The loop frees all that is on the stack, one value in each round.\<close>

lemma flatten_loop_frees:
  "represents_all h stack js cs \<Longrightarrow> distinct cs \<Longrightarrow> sum_list (map json_nodes js) \<le> fuel \<Longrightarrow>
   flatten_loop (destruct (Suc n) k) fuel stack h = Inr (freed cs h)"
proof (induction fuel arbitrary: stack js cs h)
  case 0
  have "js = []"
  proof (cases js)
    case (Cons j js')
    with 0 json_nodes_pos [of j] show ?thesis by simp
  qed
  with 0 have "stack = []" "cs = []" by (cases stack; auto elim: represents_all_Nil represents_all_Cons)+
  then show ?case by (simp add: flatten_loop.simps)
next
  case (Suc fuel)
  show ?case
  proof (cases "stack = []")
    case True
    with Suc.prems(1) have "cs = []" by (auto elim: represents_all_Nil)
    with True show ?thesis by (simp add: flatten_loop.simps)
  next
    case False
    from represents_all_last [OF Suc.prems(1) this] obtain ks j ds es
      where s: "js = ks @ [j]" "cs = ds @ es" "represents_all h (butlast stack) ks ds" "represents h (last stack) j es" by blast
    have m: "move (last stack) = Inr (last stack, D_value J_null)" using represents_invariant [OF s(4)] by (simp add: move_def)
    show ?thesis
    proof (cases "is_container (last stack)")
      case True
      from empty_and_destruct [OF s(4) True, of n k] obtain a es' vs ls h1 h2 where c: "es = a # es'" "move_out (last stack) h = Inr (vs, h1)"
        "clear (destruct (Suc n) k) (last stack) h1 = Inr h2" "destruct (Suc n) k (last stack) h2 = Inr (h[a := None])"
        "represents_all h vs ls es'" "json_nodes j = Suc (sum_list (map json_nodes ls))" by blast
      have "represents_all h (butlast stack @ vs) (ks @ ls) (ds @ es')" by (rule represents_all_append [OF s(3) c(5)])
      then have r: "represents_all (h[a := None]) (butlast stack @ vs) (ks @ ls) (ds @ es')"
        by (rule represents_all_update) (use Suc.prems(2) s(2) c(1) in auto)
      have "flatten_loop (destruct (Suc n) k) fuel (butlast stack @ vs) (h[a := None]) = Inr (freed (ds @ es') (h[a := None]))"
        by (rule Suc.IH [OF r]) (use Suc.prems(2,3) s(1,2) c(1,6) in auto)
      also have "freed (ds @ es') (h[a := None]) = freed cs h"
        unfolding freed_update by (rule freed_cong) (simp add: s(2) c(1))
      finally show ?thesis using False True m c(2,3,4)
        by (subst flatten_loop.simps) (simp add: destruct_null del: destruct.simps)
    next
      case plain: False
      have r: "represents_all (freed es h) (butlast stack) ks ds"
      proof (rule represents_frame(2) [OF s(3)])
        show "\<forall>a \<in> set ds. freed es h ! a = h ! a"
          using Suc.prems(2) s(2) represents_cells(2) [OF s(3)] by (auto simp: freed_nth)
      qed (simp add: freed_nth)
      have "sum_list (map json_nodes ks) \<le> fuel" using Suc.prems(3) s(1) json_nodes_pos [of j] by simp
      then have "flatten_loop (destruct (Suc n) k) fuel (butlast stack) (freed es h) = Inr (freed ds (freed es h))"
        by (intro Suc.IH [OF r]) (use Suc.prems(2) s(2) in auto)
      also have "freed ds (freed es h) = freed cs h"
        unfolding s(2) by (rule freed_freed)
      finally show ?thesis using False plain m destruct_plain [OF s(4) plain, of n k]
        by (subst flatten_loop.simps) (simp add: destruct_null del: destruct.simps)
    qed
  qed
qed

text \<open>The destructor of a value, with at most two destructors active at once.\<close>

lemma destruct_frees:
  assumes v: "represents h v j cs" and "distinct cs" and fuel: "json_nodes j \<le> fuel"
  shows "destruct (Suc (Suc n)) fuel v h = Inr (freed cs h)"
proof (cases "is_container v")
  case False
  then show ?thesis by (rule destruct_plain [OF v])
next
  case True
  obtain a ds vs js c c' where m: "cs = a # ds" "pointer v = Some a" "a < length h" "represents_all h vs js ds"
    "json_nodes j = Suc (sum_list (map json_nodes js))" "move_out v h = Inr (vs, h[a := Some c])"
    "elements v (h[a := Some c]) = Inr (replicate (length vs) (D_value J_null))" by (rule moved_out [OF v True])
  let ?h = "h[a := Some c]"
  have a: "a \<notin> set ds" using assms(2) m(1) by simp
  have "flatten_loop (destruct (Suc n) fuel) fuel vs ?h = Inr (freed ds ?h)"
    by (rule flatten_loop_frees [OF represents_all_update [OF m(4) a]]) (use m(1,5) assms(2) fuel in simp_all)
  moreover have cell: "freed ds ?h ! a = ?h ! a" "length (freed ds ?h) = length h" using a m(3) by (simp_all add: freed_nth)
  then have "elements v (freed ds ?h) = elements v ?h"
    using m(2) by (auto simp: elements_def cell_at_def pointer_def split: data.splits option.splits)
  moreover have "deallocate a (freed ds ?h) = Inr ((freed ds ?h)[a := None])"
    using cell m(3) by (simp add: deallocate_def cell_at_def)
  moreover have "(freed ds ?h)[a := None] = freed cs h"
  proof (rule nth_equalityI)
    fix i assume "i < length ((freed ds ?h)[a := None])"
    then have i: "i < length h" by (simp add: freed_nth)
    then show "(freed ds ?h)[a := None] ! i = freed cs h ! i"
      using a m(1) by (cases "i = a") (simp_all add: freed_nth)
  qed (simp add: freed_nth)
  moreover have "assert_invariant v" by (rule represents_invariant [OF v])
  ultimately show ?thesis using True m(2,6,7)
    by (subst destruct.simps) (simp add: destroy_def destruct_nulls del: destruct.simps)
qed

section \<open>Every value has such a representation\<close>

text \<open>\<open>create\<close>: a new cell.\<close>

definition create :: "cell \<Rightarrow> heap \<Rightarrow> nat \<times> heap" where
  "create c h = (length h, h @ [Some c])"

function (sequential) store_json :: "json \<Rightarrow> heap \<Rightarrow> data \<times> heap"
  and store_all :: "json list \<Rightarrow> heap \<Rightarrow> data list \<times> heap" where
  "store_json (J_string s) h = (let (a, h) = create (Text s) h in (D_string (Some a), h))"
| "store_json (J_binary s t) h = (let (a, h) = create (Bytes s t) h in (D_binary (Some a), h))"
| "store_json (J_array js) h = (let (vs, h) = store_all js h; (a, h) = create (Vector vs) h in (D_array (Some a), h))"
| "store_json (J_object ms) h =
     (let (vs, h) = store_all (map snd ms) h; (a, h) = create (Members (zip (map fst ms) vs)) h in (D_object (Some a), h))"
| "store_json j h = (D_value j, h)"
| "store_all [] h = ([], h)"
| "store_all (j # js) h = (let (v, h) = store_json j h; (vs, h) = store_all js h in (v # vs, h))"
  by pat_completeness auto
termination
  by (relation "measure (\<lambda>x. case x of Inl (j, h) \<Rightarrow> 2 * json_nodes j | Inr (js, h) \<Rightarrow> Suc (2 * sum_list (map json_nodes js)))")
     (auto simp: comp_def json_nodes_pos)

lemma represents_extend:
  "represents h v j cs \<Longrightarrow> represents (h @ e) v j cs"
  "represents_all h vs js ds \<Longrightarrow> represents_all (h @ e) vs js ds"
proof (induction rule: represents_represents_all.inducts)
  case (vector_cell a vs js cs)
  then show ?case by (intro represents_represents_all.vector_cell) (simp_all add: nth_append)
next
  case (members_cell a ms js cs)
  then show ?case by (intro represents_represents_all.members_cell) (simp_all add: nth_append)
qed (intro represents_represents_all.intros; simp add: nth_append)+

lemma represents_all_length: "represents_all h vs js cs \<Longrightarrow> length vs = length js"
proof (induction vs arbitrary: js cs)
  case (Cons v vs)
  then show ?case by (auto elim!: represents_all_Cons)
qed (auto elim: represents_all_Nil)

text \<open>The new cells are those after the end of the heap.\<close>

definition fresh_cells :: "heap \<Rightarrow> heap \<Rightarrow> nat list \<Rightarrow> bool" where
  "fresh_cells h h' cs \<longleftrightarrow> (\<exists>e. h' = h @ e) \<and> distinct cs \<and> set cs = {length h..<length h'}"

lemma fresh_cells_create: "fresh_cells h h' cs \<Longrightarrow> fresh_cells h (h' @ [Some c]) (length h' # cs)"
  by (auto simp: fresh_cells_def)

lemma fresh_cells_append: "fresh_cells h h1 cs \<Longrightarrow> fresh_cells h1 h2 ds \<Longrightarrow> fresh_cells h h2 (cs @ ds)"
  by (auto simp: fresh_cells_def)

lemma fresh_cells_Nil: "fresh_cells h h []"
  by (simp add: fresh_cells_def)

lemma store_represents:
  "\<exists>cs. represents (snd (store_json j h)) (fst (store_json j h)) j cs \<and> fresh_cells h (snd (store_json j h)) cs"
  "\<exists>cs. represents_all (snd (store_all js h)) (fst (store_all js h)) js cs \<and> fresh_cells h (snd (store_all js h)) cs"
proof (induction j h and js h rule: store_json_store_all.induct)
  case (1 s h)
  have "represents (h @ [Some (Text s)]) (D_string (Some (length h))) (J_string s) [length h]"
    by (rule text_cell) simp_all
  with fresh_cells_create [OF fresh_cells_Nil] show ?case by (auto simp: create_def)
next
  case (2 s t h)
  have "represents (h @ [Some (Bytes s t)]) (D_binary (Some (length h))) (J_binary s t) [length h]"
    by (rule bytes_cell) simp_all
  with fresh_cells_create [OF fresh_cells_Nil] show ?case by (auto simp: create_def)
next
  case (3 js h)
  obtain vs h1 where s: "store_all js h = (vs, h1)" by fastforce
  with 3 obtain cs where c: "represents_all h1 vs js cs" "fresh_cells h h1 cs" by auto
  have "represents (h1 @ [Some (Vector vs)]) (D_array (Some (length h1))) (J_array js) (length h1 # cs)"
    by (rule vector_cell [OF _ _ represents_extend(2) [OF c(1)]]) simp_all
  with fresh_cells_create [OF c(2)] s show ?case by (auto simp: create_def)
next
  case (4 ms h)
  obtain vs h1 where s: "store_all (map snd ms) h = (vs, h1)" by fastforce
  with 4 obtain cs where c: "represents_all h1 vs (map snd ms) cs" "fresh_cells h h1 cs" by auto
  have l: "length vs = length ms" using represents_all_length [OF c(1)] by simp
  let ?c = "Members (zip (map fst ms) vs)"
  have "represents (h1 @ [Some ?c]) (D_object (Some (length h1))) (J_object ms) (length h1 # cs)"
    by (rule members_cell [where ms = "zip (map fst ms) vs"]) (use represents_extend(2) [OF c(1)] l in simp_all)
  with fresh_cells_create [OF c(2)] s show ?case by (auto simp: create_def)
next
  case (6 h)
  show ?case using fresh_cells_Nil none by auto
next
  case (7 j js h)
  obtain v h1 where s: "store_json j h = (v, h1)" by fastforce
  obtain vs h2 where t: "store_all js h1 = (vs, h2)" by fastforce
  from 7(1) s obtain cs where c: "represents h1 v j cs" "fresh_cells h h1 cs" by auto
  from 7(2) [OF s [symmetric] refl] t obtain ds where d: "represents_all h2 vs js ds" "fresh_cells h1 h2 ds" by auto
  from d(2) obtain e where "h2 = h1 @ e" by (auto simp: fresh_cells_def)
  then have "represents h2 v j cs" using represents_extend(1) [OF c(1)] by simp
  from more [OF this d(1)] fresh_cells_append [OF c(2) d(2)] s t show ?case by auto
qed (use fresh_cells_Nil in \<open>auto intro!: exI scalar\<close>)

lemma freed_fresh: "fresh_cells h h' cs \<Longrightarrow> freed cs h' = h @ replicate (length h' - length h) None"
  by (rule nth_equalityI) (auto simp: fresh_cells_def freed_def nth_append)

text \<open>Whatever the value, what it took is given back.\<close>

lemma stored_value_freed:
  "destruct 2 (json_nodes j) (fst (store_json j h)) (snd (store_json j h))
     = Inr (h @ replicate (length (snd (store_json j h)) - length h) None)"
proof -
  obtain cs where c: "represents (snd (store_json j h)) (fst (store_json j h)) j cs" "fresh_cells h (snd (store_json j h)) cs"
    using store_represents(1) by blast
  then show ?thesis using destruct_frees [OF c(1), of "json_nodes j" 0] freed_fresh [OF c(2)]
    by (simp add: fresh_cells_def numeral_2_eq_2 del: destruct.simps)
qed

text \<open>
  C19: destroying a JSON value frees every cell of its memory exactly once, touches no other memory
  and uses no pointer that is not valid, whatever the value and wherever its cells lie; and however
  deeply the value is nested, never more than two destructors are active at once, so that a deeply
  nested request cannot exhaust the stack when it is destroyed. As many rounds as the value has
  nodes are enough for the loop.
\<close>

theorem json_destructor_frees:
  assumes "represents h v j cs" and "distinct cs" and "json_nodes j \<le> fuel"
  shows "destruct 2 fuel v h = Inr (freed cs h)"
  using destruct_frees [OF assms, of 0] by (simp only: numeral_2_eq_2)

theorem json_destructor_frees_witness:
  "destruct 2 5 (D_array (Some 1)) [Some (Text ''x''), Some (Vector [D_string (Some 0), D_object (Some 2), D_value (J_int 7)]),
      Some (Members [(''k'', D_value J_null)]), Some (Text ''other'')]
    = Inr (freed [1, 0, 2] [Some (Text ''x''), Some (Vector [D_string (Some 0), D_object (Some 2), D_value (J_int 7)]),
      Some (Members [(''k'', D_value J_null)]), Some (Text ''other'')])"
proof (rule json_destructor_frees)
  let ?h = "[Some (Text ''x''), Some (Vector [D_string (Some 0), D_object (Some 2), D_value (J_int 7)]),
      Some (Members [(''k'', D_value J_null)]), Some (Text ''other'')]"
  have a: "represents ?h (D_string (Some 0)) (J_string ''x'') [0]" by (rule text_cell) simp_all
  have n: "represents_all ?h [D_value J_null] [J_null] ([] @ [])" by (intro more none scalar) simp
  then have b: "represents ?h (D_object (Some 2)) (J_object [(''k'', J_null)]) [2]"
    by (intro members_cell [where ms = "[(''k'', D_value J_null)]"]) simp_all
  have i: "represents ?h (D_value (J_int 7)) (J_int 7) []" by (rule scalar) simp
  have "represents_all ?h [D_string (Some 0), D_object (Some 2), D_value (J_int 7)]
      [J_string ''x'', J_object [(''k'', J_null)], J_int 7] ([0] @ [2] @ [] @ [])"
    by (intro more none a b i)
  then show "represents ?h (D_array (Some 1)) (J_array [J_string ''x'', J_object [(''k'', J_null)], J_int 7]) [1, 0, 2]"
    by (intro vector_cell [where vs = "[D_string (Some 0), D_object (Some 2), D_value (J_int 7)]"]) simp_all
qed simp_all

end
