(* ===== verification/Json_Float.thy ===== *)
theory Json_Float
  imports Json_Serializer "HOL-Library.Signed_Division"
begin

text \<open>
  The text of a double: the namespace \<open>dtoa_impl\<close> (Grisu2) and \<open>to_chars\<close> of \<open>include/json.hpp\<close>, on
  the serializer's number buffer. A double is its bit pattern. A write outside the buffer is
  \<open>Buffer_overrun\<close>; a violated assertion, and a shift by the width of the type or more, which is
  undefined, is \<open>Assertion_failed\<close>.
\<close>

unbundle bit_operations_syntax

lemma unat_shift_right: "unat (drop_bit n (x :: 'a :: len word)) = unat x div 2 ^ n"
  unfolding unat_drop_bit_eq by (simp add: drop_bit_eq_div)

lemma unat_shift_left: "unat (x :: 'a :: len word) * 2 ^ n < 2 ^ LENGTH('a) \<Longrightarrow> unat (push_bit n x) = unat x * 2 ^ n"
  unfolding unsigned_push_bit_eq by (simp add: push_bit_eq_mult take_bit_eq_mod)

section \<open>Floating-point numbers with 64-bit significands\<close>

record diyfp =
  diy_f :: uint64
  diy_e :: int

definition shift_left :: "uint64 \<Rightarrow> int \<Rightarrow> uint64 result" where
  "shift_left x n = (if 0 \<le> n \<and> n < 64 then Inr (push_bit (nat n) x) else Inl Assertion_failed)"

definition diyfp_sub :: "diyfp \<Rightarrow> diyfp \<Rightarrow> diyfp result" where
  "diyfp_sub x y =
     (if diy_e x = diy_e y \<and> diy_f y \<le> diy_f x then Inr \<lparr>diy_f = diy_f x - diy_f y, diy_e = diy_e x\<rparr>
      else Inl Assertion_failed)"

text \<open>The upper half of the product, rounded, from four products of 32-bit halves.\<close>

definition diyfp_mul :: "diyfp \<Rightarrow> diyfp \<Rightarrow> diyfp" where
  "diyfp_mul x y =
     (let u_lo = diy_f x AND 0xFFFFFFFF; u_hi = drop_bit 32 (diy_f x);
          v_lo = diy_f y AND 0xFFFFFFFF; v_hi = drop_bit 32 (diy_f y);
          p0 = u_lo * v_lo; p1 = u_lo * v_hi; p2 = u_hi * v_lo; p3 = u_hi * v_hi;
          p0_hi = drop_bit 32 p0; p1_lo = p1 AND 0xFFFFFFFF; p1_hi = drop_bit 32 p1;
          p2_lo = p2 AND 0xFFFFFFFF; p2_hi = drop_bit 32 p2;
          Q = p0_hi + p1_lo + p2_lo + push_bit 31 1;
          h = p3 + p2_hi + p1_hi + drop_bit 32 Q
      in \<lparr>diy_f = h, diy_e = diy_e x + diy_e y + 64\<rparr>)"

text \<open>The loop of \<open>normalize\<close>. It is not entered with 0, for which it would not end.\<close>

function normalize_loop :: "uint64 \<Rightarrow> int \<Rightarrow> diyfp" where
  "normalize_loop f e =
     (if drop_bit 63 f = 0 \<and> f \<noteq> 0 then normalize_loop (push_bit 1 f) (e - 1) else \<lparr>diy_f = f, diy_e = e\<rparr>)"
  by pat_completeness auto
termination
proof (relation "measure (\<lambda>(f, e). 2 ^ 64 - unat f)", simp)
  fix f :: uint64 and e :: int
  assume f: "drop_bit 63 f = 0 \<and> f \<noteq> 0"
  then have "unat f div 2 ^ 63 = 0" using unat_shift_right [of 63 f] by simp
  then have "unat f < 2 ^ 63" by (simp add: div_eq_0_iff)
  then have "unat (push_bit 1 f) = 2 * unat f" using unat_shift_left [of f 1] by simp
  moreover have "0 < unat f" using f by (simp add: unat_gt_0)
  ultimately show "((push_bit 1 f, e - 1), f, e) \<in> measure (\<lambda>(f, e). 2 ^ 64 - unat f)"
    using \<open>unat f < 2 ^ 63\<close> by simp
qed

declare normalize_loop.simps [simp del]

definition diyfp_normalize :: "diyfp \<Rightarrow> diyfp result" where
  "diyfp_normalize x = (if diy_f x \<noteq> 0 then Inr (normalize_loop (diy_f x) (diy_e x)) else Inl Assertion_failed)"

definition diyfp_normalize_to :: "diyfp \<Rightarrow> int \<Rightarrow> diyfp result" where
  "diyfp_normalize_to x target_exponent =
     bindr (shift_left (diy_f x) (diy_e x - target_exponent))
       (\<lambda>f. if drop_bit (nat (diy_e x - target_exponent)) f = diy_f x
            then Inr \<lparr>diy_f = f, diy_e = target_exponent\<rparr> else Inl Assertion_failed)"

section \<open>The boundaries of a double\<close>

record float_boundaries =
  bound_w :: diyfp
  bound_minus :: diyfp
  bound_plus :: diyfp

text \<open>\<open>std::isfinite\<close>, \<open>std::signbit\<close>.\<close>

definition isfinite :: "64 word \<Rightarrow> bool" where
  "isfinite x \<longleftrightarrow> drop_bit 52 x AND 0x7FF \<noteq> 0x7FF"

definition signbit :: "64 word \<Rightarrow> bool" where
  "signbit x \<longleftrightarrow> bit x 63"

text \<open>Precision 53, bias 1075, least exponent - 1074, hidden bit 2 ^ 52.\<close>

definition diyfp_of_double :: "64 word \<Rightarrow> diyfp" where
  "diyfp_of_double value =
     (let E = drop_bit 52 value; F = value AND (push_bit 52 1 - 1)
      in if E = 0 then \<lparr>diy_f = F, diy_e = - 1074\<rparr>
         else \<lparr>diy_f = F + push_bit 52 1, diy_e = int (unat E) - 1075\<rparr>)"

definition compute_boundaries :: "64 word \<Rightarrow> float_boundaries result" where
  "compute_boundaries value =
     (if isfinite value \<and> \<not> signbit value \<and> value \<noteq> 0 then
        (let E = drop_bit 52 value; F = value AND (push_bit 52 1 - 1);
             v = diyfp_of_double value;
             lower_boundary_is_closer = (F = 0 \<and> 1 < E);
             m_plus = \<lparr>diy_f = 2 * diy_f v + 1, diy_e = diy_e v - 1\<rparr>;
             m_minus = (if lower_boundary_is_closer then \<lparr>diy_f = 4 * diy_f v - 1, diy_e = diy_e v - 2\<rparr>
                        else \<lparr>diy_f = 2 * diy_f v - 1, diy_e = diy_e v - 1\<rparr>)
         in bindr (diyfp_normalize m_plus) (\<lambda>w_plus.
            bindr (diyfp_normalize_to m_minus (diy_e w_plus)) (\<lambda>w_minus.
            bindr (diyfp_normalize v) (\<lambda>w.
            Inr \<lparr>bound_w = w, bound_minus = w_minus, bound_plus = w_plus\<rparr>))))
      else Inl Assertion_failed)"

section \<open>Cached powers of ten\<close>

record cached_power =
  cached_f :: uint64
  cached_e :: int
  cached_k :: int

definition kCachedPowers :: "cached_power list" where
  "kCachedPowers = map (\<lambda>(f, e, k). \<lparr>cached_f = f, cached_e = e, cached_k = k\<rparr>)
     [
      (0xAB70FE17C79AC6CA, - 1060, - 300),
      (0xFF77B1FCBEBCDC4F, - 1034, - 292),
      (0xBE5691EF416BD60C, - 1007, - 284),
      (0x8DD01FAD907FFC3C, - 980, - 276),
      (0xD3515C2831559A83, - 954, - 268),
      (0x9D71AC8FADA6C9B5, - 927, - 260),
      (0xEA9C227723EE8BCB, - 901, - 252),
      (0xAECC49914078536D, - 874, - 244),
      (0x823C12795DB6CE57, - 847, - 236),
      (0xC21094364DFB5637, - 821, - 228),
      (0x9096EA6F3848984F, - 794, - 220),
      (0xD77485CB25823AC7, - 768, - 212),
      (0xA086CFCD97BF97F4, - 741, - 204),
      (0xEF340A98172AACE5, - 715, - 196),
      (0xB23867FB2A35B28E, - 688, - 188),
      (0x84C8D4DFD2C63F3B, - 661, - 180),
      (0xC5DD44271AD3CDBA, - 635, - 172),
      (0x936B9FCEBB25C996, - 608, - 164),
      (0xDBAC6C247D62A584, - 582, - 156),
      (0xA3AB66580D5FDAF6, - 555, - 148),
      (0xF3E2F893DEC3F126, - 529, - 140),
      (0xB5B5ADA8AAFF80B8, - 502, - 132),
      (0x87625F056C7C4A8B, - 475, - 124),
      (0xC9BCFF6034C13053, - 449, - 116),
      (0x964E858C91BA2655, - 422, - 108),
      (0xDFF9772470297EBD, - 396, - 100),
      (0xA6DFBD9FB8E5B88F, - 369, - 92),
      (0xF8A95FCF88747D94, - 343, - 84),
      (0xB94470938FA89BCF, - 316, - 76),
      (0x8A08F0F8BF0F156B, - 289, - 68),
      (0xCDB02555653131B6, - 263, - 60),
      (0x993FE2C6D07B7FAC, - 236, - 52),
      (0xE45C10C42A2B3B06, - 210, - 44),
      (0xAA242499697392D3, - 183, - 36),
      (0xFD87B5F28300CA0E, - 157, - 28),
      (0xBCE5086492111AEB, - 130, - 20),
      (0x8CBCCC096F5088CC, - 103, - 12),
      (0xD1B71758E219652C, - 77, - 4),
      (0x9C40000000000000, - 50, 4),
      (0xE8D4A51000000000, - 24, 12),
      (0xAD78EBC5AC620000, 3, 20),
      (0x813F3978F8940984, 30, 28),
      (0xC097CE7BC90715B3, 56, 36),
      (0x8F7E32CE7BEA5C70, 83, 44),
      (0xD5D238A4ABE98068, 109, 52),
      (0x9F4F2726179A2245, 136, 60),
      (0xED63A231D4C4FB27, 162, 68),
      (0xB0DE65388CC8ADA8, 189, 76),
      (0x83C7088E1AAB65DB, 216, 84),
      (0xC45D1DF942711D9A, 242, 92),
      (0x924D692CA61BE758, 269, 100),
      (0xDA01EE641A708DEA, 295, 108),
      (0xA26DA3999AEF774A, 322, 116),
      (0xF209787BB47D6B85, 348, 124),
      (0xB454E4A179DD1877, 375, 132),
      (0x865B86925B9BC5C2, 402, 140),
      (0xC83553C5C8965D3D, 428, 148),
      (0x952AB45CFA97A0B3, 455, 156),
      (0xDE469FBD99A05FE3, 481, 164),
      (0xA59BC234DB398C25, 508, 172),
      (0xF6C69A72A3989F5C, 534, 180),
      (0xB7DCBF5354E9BECE, 561, 188),
      (0x88FCF317F22241E2, 588, 196),
      (0xCC20CE9BD35C78A5, 614, 204),
      (0x98165AF37B2153DF, 641, 212),
      (0xE2A0B5DC971F303A, 667, 220),
      (0xA8D9D1535CE3B396, 694, 228),
      (0xFB9B7CD9A4A7443C, 720, 236),
      (0xBB764C4CA7A44410, 747, 244),
      (0x8BAB8EEFB6409C1A, 774, 252),
      (0xD01FEF10A657842C, 800, 260),
      (0x9B10A4E5E9913129, 827, 268),
      (0xE7109BFBA19C0C9D, 853, 276),
      (0xAC2820D9623BF429, 880, 284),
      (0x80444B5E7AA7CF85, 907, 292),
      (0xBF21E44003ACDD2D, 933, 300),
      (0x8E679C2F5E44FF8F, 960, 308),
      (0xD433179D9C8CB841, 986, 316),
      (0x9E19DB92B4E31BA9, 1013, 324)]"

text \<open>The index for a binary exponent; \<open>int\<close> division truncates.\<close>

definition power_index :: "int \<Rightarrow> int" where
  "power_index e =
     (let f = - 60 - e - 1;
          k = (f * 78913) sdiv 2 ^ 18 + (if 0 < f then 1 else 0)
      in (300 + k + (8 - 1)) sdiv 8)"

definition get_cached_power_for_binary_exponent :: "int \<Rightarrow> cached_power result" where
  "get_cached_power_for_binary_exponent e =
     (let index = power_index e; cached = kCachedPowers ! nat index
      in if - 1500 \<le> e \<and> e \<le> 1500 \<and> 0 \<le> index \<and> index < int (length kCachedPowers)
            \<and> - 60 \<le> cached_e cached + e + 64 \<and> cached_e cached + e + 64 \<le> - 32
         then Inr cached else Inl Assertion_failed)"

definition find_largest_pow10 :: "32 word \<Rightarrow> nat \<times> 32 word" where
  "find_largest_pow10 n =
     (if n \<ge> 1000000000 then (10, 1000000000)
      else if n \<ge> 100000000 then (9, 100000000)
      else if n \<ge> 10000000 then (8, 10000000)
      else if n \<ge> 1000000 then (7, 1000000)
      else if n \<ge> 100000 then (6, 100000)
      else if n \<ge> 10000 then (5, 10000)
      else if n \<ge> 1000 then (4, 1000)
      else if n \<ge> 100 then (3, 100)
      else if n \<ge> 10 then (2, 10)
      else (1, 1))"

section \<open>The number buffer\<close>

text \<open>Memory from a pointer to the end of the buffer: \<open>p[i] = c\<close>, \<open>memmove\<close> and \<open>memset\<close>.\<close>

definition store_char :: "nat \<Rightarrow> char \<Rightarrow> string \<Rightarrow> string result" where
  "store_char i c buf = (if i < length buf then Inr (buf[i := c]) else Inl Buffer_overrun)"

definition memmove :: "nat \<Rightarrow> nat \<Rightarrow> nat \<Rightarrow> string \<Rightarrow> string result" where
  "memmove dst src n buf =
     (if dst + n \<le> length buf \<and> src + n \<le> length buf
      then Inr (take dst buf @ take n (drop src buf) @ drop (dst + n) buf) else Inl Buffer_overrun)"

definition memset :: "nat \<Rightarrow> char \<Rightarrow> nat \<Rightarrow> string \<Rightarrow> string result" where
  "memset i c n buf =
     (if i + n \<le> length buf then Inr (take i buf @ replicate n c @ drop (i + n) buf) else Inl Buffer_overrun)"

text \<open>\<open>static_cast<char>('0' + d)\<close>.\<close>

definition digit_char :: "nat \<Rightarrow> char" where
  "digit_char d = char_of ((48 + d) mod 256)"

section \<open>Generating digits\<close>

text \<open>
  The loop of \<open>grisu2_round\<close>, with \<open>i\<close> the index of the last digit. The assertion on that digit
  makes it end whatever the other arguments are.
\<close>

definition code_above_0 :: "char \<Rightarrow> nat" where
  "code_above_0 c = (of_char c + 208) mod 256"

definition previous_char :: "char \<Rightarrow> char" where
  "previous_char c = char_of ((of_char c + 255) mod 256 :: nat)"

lemma previous_char_less: "c \<noteq> CHR ''0'' \<Longrightarrow> code_above_0 (previous_char c) < code_above_0 c"
proof -
  have "((n + 255) mod 256 + 208) mod 256 < (n + 208) mod 256" if "n < 256" "n \<noteq> 48" for n :: nat
  proof -
    note n = that
    consider "n = 0" | "0 < n" "n < 48" | "48 < n" using n(2) by linarith
    then show ?thesis
    proof cases
      case 2
      then obtain m where m: "n = Suc m" by (cases n) simp_all
      have "(n + 255) mod 256 = (m + 256) mod 256" by (simp add: m)
      also have "\<dots> = m" using 2 m by (subst mod_add_self2) simp
      finally show ?thesis using 2 m by simp
    next
      case 3
      then obtain m where m: "n = m + 49" by (metis add.commute less_iff_Suc_add add_Suc_right eval_nat_numeral(3))
      have "(n + 255) mod 256 = (m + 48 + 256) mod 256" by (simp add: m)
      also have "\<dots> = m + 48" using n(1) m by (subst mod_add_self2) simp
      finally have l: "(n + 255) mod 256 + 208 = m + 256" by simp
      have "(n + 208) mod 256 = (m + 1 + 256) mod 256" by (simp add: m)
      also have "\<dots> = m + 1" using n(1) m by (subst mod_add_self2) simp
      finally have r: "(n + 208) mod 256 = m + 1" .
      show ?thesis unfolding l r using n(1) m by (subst mod_add_self2) simp
    qed simp
  qed
  moreover have n: "of_char c < (256 :: nat)" by simp
  moreover assume "c \<noteq> CHR ''0''"
  then have "of_char c \<noteq> (of_char (CHR ''0'') :: nat)" unfolding of_char_eq_iff .
  then have "of_char c \<noteq> (48 :: nat)" by simp
  ultimately show ?thesis by (simp add: code_above_0_def previous_char_def)
qed

function round_loop :: "nat \<Rightarrow> uint64 \<Rightarrow> uint64 \<Rightarrow> uint64 \<Rightarrow> uint64 \<Rightarrow> string \<Rightarrow> string result" where
  "round_loop i dist delta ten_k rest buf =
     (if rest < dist \<and> delta - rest \<ge> ten_k \<and> (rest + ten_k < dist \<or> dist - rest > rest + ten_k - dist)
      then if \<not> i < length buf then Inl Buffer_overrun
           else if buf ! i = CHR ''0'' then Inl Assertion_failed
           else round_loop i dist delta ten_k (rest + ten_k) (buf[i := previous_char (buf ! i)])
      else Inr buf)"
  by pat_completeness auto
termination
proof (relation "measure (\<lambda>(i, dist, delta, ten_k, rest, buf). code_above_0 (buf ! i))", simp)
  fix i :: nat and dist delta ten_k rest :: uint64 and buf :: string
  assume i: "\<not> \<not> i < length buf" "buf ! i \<noteq> CHR ''0''"
  have "code_above_0 (previous_char c) < code_above_0 c" if "c \<noteq> CHR ''0''" for c
    using that previous_char_less by blast
  with i show "((i, dist, delta, ten_k, rest + ten_k, buf[i := previous_char (buf ! i)]), i, dist, delta, ten_k, rest, buf)
      \<in> measure (\<lambda>(i, dist, delta, ten_k, rest, buf). code_above_0 (buf ! i))" by simp
qed

declare round_loop.simps [simp del]

definition grisu2_round :: "string \<Rightarrow> nat \<Rightarrow> uint64 \<Rightarrow> uint64 \<Rightarrow> uint64 \<Rightarrow> uint64 \<Rightarrow> string result" where
  "grisu2_round buf len dist delta rest ten_k =
     (if 1 \<le> len \<and> dist \<le> delta \<and> rest \<le> delta \<and> 0 < ten_k
      then round_loop (len - 1) dist delta ten_k rest buf else Inl Assertion_failed)"

text \<open>Buffer, length and decimal exponent.\<close>

type_synonym decimal = "string \<times> nat \<times> int"

text \<open>The second loop: the digits of the fraction \<open>p2\<close>; \<open>s\<close> is \<open>- one.e\<close>.\<close>

function fraction_loop ::
    "nat \<Rightarrow> int \<Rightarrow> nat \<Rightarrow> uint64 \<Rightarrow> uint64 \<Rightarrow> uint64 \<Rightarrow> string \<Rightarrow> nat \<Rightarrow> decimal result" where
  "fraction_loop s decimal_exponent m p2 delta dist buf len =
     (if \<not> p2 \<le> (- 1) div 10 then Inl Assertion_failed
      else let p = p2 * 10; d = drop_bit s p; r = p AND (push_bit s 1 - 1)
           in if \<not> d \<le> 9 then Inl Assertion_failed
              else if \<not> len < length buf then Inl Buffer_overrun
              else let buf = buf[len := digit_char (unat d)]; delta = delta * 10; dist = dist * 10
                   in if r \<le> delta
                      then bindr (grisu2_round buf (len + 1) dist delta r (push_bit s 1))
                             (\<lambda>buf. Inr (buf, len + 1, decimal_exponent - int (m + 1)))
                      else fraction_loop s decimal_exponent (m + 1) r delta dist buf (len + 1))"
  by pat_completeness auto
termination
  by (relation "measure (\<lambda>(s, decimal_exponent, m, p2, delta, dist, buf, len). length buf - len)") auto

declare fraction_loop.simps [simp del]

text \<open>The first loop: the digits of the integral part \<open>p1\<close>, then the second.\<close>

fun integral_loop ::
    "nat \<Rightarrow> int \<Rightarrow> nat \<Rightarrow> 32 word \<Rightarrow> 32 word \<Rightarrow> uint64 \<Rightarrow> uint64 \<Rightarrow> uint64 \<Rightarrow> string \<Rightarrow> nat \<Rightarrow> decimal result" where
  "integral_loop s decimal_exponent 0 p1 pow10 p2 delta dist buf len =
     (if p2 > delta then fraction_loop s decimal_exponent 0 p2 delta dist buf len else Inl Assertion_failed)"
| "integral_loop s decimal_exponent (Suc n) p1 pow10 p2 delta dist buf len =
     (let d = p1 div pow10; r = p1 mod pow10
      in if \<not> d \<le> 9 then Inl Assertion_failed
         else bindr (store_char len (digit_char (unat d)) buf) (\<lambda>buf.
           let rest = push_bit s (ucast r) + p2
           in if rest \<le> delta
              then bindr (grisu2_round buf (len + 1) dist delta rest (push_bit s (ucast pow10)))
                     (\<lambda>buf. Inr (buf, len + 1, decimal_exponent + int n))
              else integral_loop s decimal_exponent n r (pow10 div 10) p2 delta dist buf (len + 1)))"

definition grisu2_digit_gen :: "string \<Rightarrow> nat \<Rightarrow> int \<Rightarrow> diyfp \<Rightarrow> diyfp \<Rightarrow> diyfp \<Rightarrow> decimal result" where
  "grisu2_digit_gen buf len decimal_exponent M_minus w M_plus =
     (if \<not> (- 60 \<le> diy_e M_plus \<and> diy_e M_plus \<le> - 32) then Inl Assertion_failed
      else bindr (diyfp_sub M_plus M_minus) (\<lambda>delta.
           bindr (diyfp_sub M_plus w) (\<lambda>dist.
           let s = nat (- diy_e M_plus);
               p1 = ucast (drop_bit s (diy_f M_plus)) :: 32 word;
               p2 = diy_f M_plus AND (push_bit s 1 - 1)
           in if \<not> 0 < p1 then Inl Assertion_failed
              else let (k, pow10) = find_largest_pow10 p1
                   in integral_loop s decimal_exponent k p1 pow10 p2 (diy_f delta) (diy_f dist) buf len)))"

definition grisu2_scaled :: "string \<Rightarrow> diyfp \<Rightarrow> diyfp \<Rightarrow> diyfp \<Rightarrow> decimal result" where
  "grisu2_scaled buf m_minus v m_plus =
     (if \<not> (diy_e m_plus = diy_e m_minus \<and> diy_e m_plus = diy_e v) then Inl Assertion_failed
      else bindr (get_cached_power_for_binary_exponent (diy_e m_plus)) (\<lambda>cached.
        let c_minus_k = \<lparr>diy_f = cached_f cached, diy_e = cached_e cached\<rparr>;
            w = diyfp_mul v c_minus_k; w_minus = diyfp_mul m_minus c_minus_k; w_plus = diyfp_mul m_plus c_minus_k;
            M_minus = w_minus\<lparr>diy_f := diy_f w_minus + 1\<rparr>; M_plus = w_plus\<lparr>diy_f := diy_f w_plus - 1\<rparr>
        in grisu2_digit_gen buf 0 (- cached_k cached) M_minus w M_plus))"

definition grisu2 :: "string \<Rightarrow> 64 word \<Rightarrow> decimal result" where
  "grisu2 buf value =
     (if isfinite value \<and> \<not> signbit value \<and> value \<noteq> 0
      then bindr (compute_boundaries value) (\<lambda>w. grisu2_scaled buf (bound_minus w) (bound_w w) (bound_plus w))
      else Inl Assertion_failed)"

section \<open>The layout of the text\<close>

text \<open>Both return the buffer and the offset after the last character written.\<close>

definition append_exponent :: "string \<Rightarrow> nat \<Rightarrow> int \<Rightarrow> (string \<times> nat) result" where
  "append_exponent buf i e =
     (if \<not> (- 1000 < e \<and> e < 1000) then Inl Assertion_failed
      else bindr (store_char i (if e < 0 then CHR ''-'' else CHR ''+'') buf) (\<lambda>buf.
        let k = nat \<bar>e\<bar>
        in if k < 10 then
             bindr (store_char (i + 1) (CHR ''0'') buf) (\<lambda>buf.
             bindr (store_char (i + 2) (digit_char k) buf) (\<lambda>buf. Inr (buf, i + 3)))
           else if k < 100 then
             bindr (store_char (i + 1) (digit_char (k div 10)) buf) (\<lambda>buf.
             bindr (store_char (i + 2) (digit_char (k mod 10)) buf) (\<lambda>buf. Inr (buf, i + 3)))
           else
             bindr (store_char (i + 1) (digit_char (k div 100)) buf) (\<lambda>buf.
             bindr (store_char (i + 2) (digit_char (k mod 100 div 10)) buf) (\<lambda>buf.
             bindr (store_char (i + 3) (digit_char (k mod 100 mod 10)) buf) (\<lambda>buf. Inr (buf, i + 4))))))"

definition format_buffer :: "string \<Rightarrow> nat \<Rightarrow> int \<Rightarrow> int \<Rightarrow> int \<Rightarrow> (string \<times> nat) result" where
  "format_buffer buf len decimal_exponent min_exp max_exp =
     (if \<not> (min_exp < 0 \<and> 0 < max_exp) then Inl Assertion_failed
      else
        let k = len; n = int len + decimal_exponent
        in if int k \<le> n \<and> n \<le> max_exp then
             bindr (memset k (CHR ''0'') (nat n - k) buf) (\<lambda>buf.
             bindr (store_char (nat n) (CHR ''.'') buf) (\<lambda>buf.
             bindr (store_char (nat n + 1) (CHR ''0'') buf) (\<lambda>buf. Inr (buf, nat n + 2))))
           else if 0 < n \<and> n \<le> max_exp then
             (if \<not> n < int k then Inl Assertion_failed
              else bindr (memmove (nat n + 1) (nat n) (k - nat n) buf) (\<lambda>buf.
                   bindr (store_char (nat n) (CHR ''.'') buf) (\<lambda>buf. Inr (buf, k + 1))))
           else if min_exp < n \<and> n \<le> 0 then
             bindr (memmove (2 + nat (- n)) 0 k buf) (\<lambda>buf.
             bindr (store_char 0 (CHR ''0'') buf) (\<lambda>buf.
             bindr (store_char 1 (CHR ''.'') buf) (\<lambda>buf.
             bindr (memset 2 (CHR ''0'') (nat (- n)) buf) (\<lambda>buf. Inr (buf, 2 + nat (- n) + k)))))
           else if k = 1 then
             bindr (store_char 1 (CHR ''e'') buf) (\<lambda>buf. append_exponent buf 2 (n - 1))
           else
             bindr (memmove 2 1 (k - 1) buf) (\<lambda>buf.
             bindr (store_char 1 (CHR ''.'') buf) (\<lambda>buf.
             bindr (store_char (k + 1) (CHR ''e'') buf) (\<lambda>buf. append_exponent buf (k + 2) (n - 1)))))"

text \<open>
  \<open>to_chars\<close> on memory \<open>first\<close>; the text is what lies before the pointer it returns. Precision 17 and
  15 digits, exponents from - 4.
\<close>

definition to_chars_positive :: "string \<Rightarrow> 64 word \<Rightarrow> string result" where
  "to_chars_positive first value =
     (if value = 0 then
        bindr (store_char 0 (CHR ''0'') first) (\<lambda>buf.
        bindr (store_char 1 (CHR ''.'') buf) (\<lambda>buf.
        bindr (store_char 2 (CHR ''0'') buf) (\<lambda>buf. Inr (take 3 buf))))
      else if \<not> length first \<ge> 17 then Inl Assertion_failed
      else bindr (grisu2 first value) (\<lambda>(buf, len, decimal_exponent).
        if len \<le> 17 \<and> length first \<ge> 15 + 2 \<and> length first \<ge> 2 + (4 - 1) + 17 \<and> length first \<ge> 17 + 6
        then bindr (format_buffer buf len decimal_exponent (- 4) 15) (\<lambda>(buf, end). Inr (take end buf))
        else Inl Assertion_failed))"

definition to_chars :: "string \<Rightarrow> 64 word \<Rightarrow> string result" where
  "to_chars first value =
     (if \<not> isfinite value then Inl Assertion_failed
      else if signbit value then
        bindr (store_char 0 (CHR ''-'') first) (\<lambda>buf.
        bindr (to_chars_positive (drop 1 buf) (value XOR push_bit 63 1)) (\<lambda>t. Inr (take 1 buf @ t)))
      else to_chars_positive first value)"

text \<open>The number buffer of the serializer has 64 characters.\<close>

definition dump_float :: "64 word \<Rightarrow> string result" where
  "dump_float x = (if \<not> isfinite x then Inr ''null'' else to_chars (replicate 64 (CHR 0x00)) x)"

end
