(* ===== verification/Json_Float_Digits.thy ===== *)
theory Json_Float_Digits
  imports Json_Float
begin

text \<open>
  Digit generation is correct: the product of two significands is rounded to the nearest, and the
  two loops stop with at most 17 digits whose value lies between the two boundaries.
\<close>

section \<open>Arithmetic on significands\<close>

lemma unat_plus_small: "unat (x :: 'a :: len word) + unat y < 2 ^ LENGTH('a) \<Longrightarrow> unat (x + y) = unat x + unat y"
  by (simp add: unat_word_ariths)

lemma unat_times_small: "unat (x :: 'a :: len word) * unat y < 2 ^ LENGTH('a) \<Longrightarrow> unat (x * y) = unat x * unat y"
  by (simp add: unat_word_ariths)

lemma unat_minus_le: "(y :: 'a :: len word) \<le> x \<Longrightarrow> unat (x - y) = unat x - unat y"
  by (simp add: unat_sub)

lemma unat_low_bits: "unat (x AND (push_bit n 1 - 1) :: 64 word) = unat x mod 2 ^ n"
proof -
  have "push_bit n 1 - 1 = (mask n :: 64 word)" by (simp add: mask_eq_exp_minus_1 push_bit_eq_mult)
  then have "x AND (push_bit n 1 - 1) = take_bit n x" by (simp only: take_bit_eq_mask)
  then show ?thesis by (simp add: unsigned_take_bit_eq) (simp add: take_bit_eq_mod)
qed

lemma unat_low_half: "unat (x AND 0xFFFFFFFF :: 64 word) = unat x mod 2 ^ 32"
  using unat_low_bits [of x 32] by (simp add: push_bit_eq_mult)

lemma half_product: "(a :: nat) < 2 ^ 32 \<Longrightarrow> b < 2 ^ 32 \<Longrightarrow> a * b \<le> (2 ^ 32 - 1) * (2 ^ 32 - 1)"
  by (intro mult_mono) simp_all

lemma long_multiplication:
  fixes a b c d B :: nat
  assumes "0 < B"
  shows "((a + B * b) * (c + B * d) + B * h) div (B * B) =
    b * d + b * c div B + a * d div B + (a * c div B + a * d mod B + b * c mod B + h) div B"
proof -
  define q0 q1 q2 r0 r1 r2 where "q0 = a * c div B" and "q1 = a * d div B" and "q2 = b * c div B"
    and "r0 = a * c mod B" and "r1 = a * d mod B" and "r2 = b * c mod B"
  note defs = this
  have e: "a * c = r0 + B * q0" "a * d = r1 + B * q1" "b * c = r2 + B * q2" by (simp_all add: defs)
  have "(a + B * b) * (c + B * d) + B * h = a * c + B * (a * d + b * c) + B * B * (b * d) + B * h"
    by (simp add: algebra_simps)
  also have "\<dots> = r0 + B * (q0 + r1 + r2 + h + B * (b * d + q2 + q1))"
    unfolding e by (simp add: algebra_simps)
  finally have "((a + B * b) * (c + B * d) + B * h) div (B * B) =
      (r0 + B * (q0 + r1 + r2 + h + B * (b * d + q2 + q1))) div B div B" by (simp only: div_mult2_eq)
  also have "(r0 + B * (q0 + r1 + r2 + h + B * (b * d + q2 + q1))) div B = q0 + r1 + r2 + h + B * (b * d + q2 + q1)"
    using assms by (simp add: r0_def)
  also have "\<dots> div B = b * d + q2 + q1 + (q0 + r1 + r2 + h) div B" using assms by simp
  finally show ?thesis by (simp add: defs)
qed

lemma diyfp_mul_rounds:
  "unat (diy_f (diyfp_mul x y)) = (unat (diy_f x) * unat (diy_f y) + 2 ^ 63) div 2 ^ 64"
  "diy_e (diyfp_mul x y) = diy_e x + diy_e y + 64"
proof -
  let ?B = "2 ^ 32 :: nat"
  define a b c d where "a = unat (diy_f x) mod ?B" and "b = unat (diy_f x) div ?B"
    and "c = unat (diy_f y) mod ?B" and "d = unat (diy_f y) div ?B"
  have u: "unat (diy_f x) = a + ?B * b" and v: "unat (diy_f y) = c + ?B * d" by (simp_all add: a_def b_def c_def d_def)
  have "unat (diy_f x) < 2 ^ 64" "unat (diy_f y) < 2 ^ 64" using unsigned_less [of "diy_f x"] unsigned_less [of "diy_f y"] by simp_all
  then have l: "a < ?B" "b < ?B" "c < ?B" "d < ?B"
    by (simp_all add: a_def b_def c_def d_def less_mult_imp_div_less)
  note lo = unat_low_half and hi = unat_shift_right
  let ?u_lo = "diy_f x AND 0xFFFFFFFF" and ?u_hi = "drop_bit 32 (diy_f x)"
  let ?v_lo = "diy_f y AND 0xFFFFFFFF" and ?v_hi = "drop_bit 32 (diy_f y)"
  have w: "unat ?u_lo = a" "unat ?u_hi = b" "unat ?v_lo = c" "unat ?v_hi = d"
    by (simp_all only: lo hi a_def b_def c_def d_def)
  note p = half_product
  have p0: "unat (?u_lo * ?v_lo) = a * c" using p [OF l(1,3)] by (subst unat_times_small) (simp_all add: w)
  have p1: "unat (?u_lo * ?v_hi) = a * d" using p [OF l(1,4)] by (subst unat_times_small) (simp_all add: w)
  have p2: "unat (?u_hi * ?v_lo) = b * c" using p [OF l(2,3)] by (subst unat_times_small) (simp_all add: w)
  have p3: "unat (?u_hi * ?v_hi) = b * d" using p [OF l(2,4)] by (subst unat_times_small) (simp_all add: w)
  define Q where "Q = drop_bit 32 (?u_lo * ?v_lo) + ((?u_lo * ?v_hi) AND 0xFFFFFFFF) + ((?u_hi * ?v_lo) AND 0xFFFFFFFF) + (push_bit 31 1 :: 64 word)"
  have q: "unat Q = a * c div ?B + a * d mod ?B + b * c mod ?B + 2 ^ 31"
  proof -
    have b: "a * c div ?B < ?B" using p [OF l(1,3)] by (simp add: div_less_iff_less_mult)
    have m: "a * d mod ?B < ?B" "b * c mod ?B < ?B" by simp_all
    show ?thesis
      using b m by (simp add: Q_def unat_plus_small lo hi p0 p1 p2 push_bit_eq_mult)
  qed
  let ?h = "b * d + b * c div ?B + a * d div ?B + (a * c div ?B + a * d mod ?B + b * c mod ?B + 2 ^ 31) div ?B"
  have h: "?h = (unat (diy_f x) * unat (diy_f y) + 2 ^ 63) div 2 ^ 64"
    using long_multiplication [of ?B a b c d "2 ^ 31"] by (simp add: u v)
  have "unat (diy_f x) * unat (diy_f y) \<le> (2 ^ 64 - 1) * (2 ^ 64 - 1)"
    using \<open>unat (diy_f x) < 2 ^ 64\<close> \<open>unat (diy_f y) < 2 ^ 64\<close> by (intro mult_mono) simp_all
  then have "?h < 2 ^ 64" unfolding h by (simp add: div_less_iff_less_mult)
  then have "unat (?u_hi * ?v_hi + drop_bit 32 (?u_hi * ?v_lo) + drop_bit 32 (?u_lo * ?v_hi) + drop_bit 32 Q) = ?h"
    by (simp add: unat_plus_small hi p1 p2 p3 q)
  then show "unat (diy_f (diyfp_mul x y)) = (unat (diy_f x) * unat (diy_f y) + 2 ^ 63) div 2 ^ 64"
    unfolding h by (simp add: diyfp_mul_def Let_def Q_def)
  show "diy_e (diyfp_mul x y) = diy_e x + diy_e y + 64" by (simp add: diyfp_mul_def Let_def)
qed

section \<open>Normalization and boundaries\<close>

lemma normalize_loop_spec:
  "f \<noteq> 0 \<Longrightarrow> \<exists>s. diy_e (normalize_loop f e) = e - int s \<and> unat (diy_f (normalize_loop f e)) = unat f * 2 ^ s
     \<and> 2 ^ 63 \<le> unat (diy_f (normalize_loop f e))"
proof (induction f e rule: normalize_loop.induct)
  case (1 f e)
  show ?case
  proof (cases "drop_bit 63 f = 0")
    case True
    then have "unat f div 2 ^ 63 = 0" using unat_shift_right [of 63 f] by simp
    then have "unat f < 2 ^ 63" by (simp add: div_eq_0_iff)
    then have d: "unat (push_bit 1 f) = unat f * 2" using unat_shift_left [of f 1] by simp
    with "1.prems" have "push_bit 1 f \<noteq> 0" by (metis mult_eq_0_iff unat_eq_zero zero_neq_numeral)
    from "1.IH" [OF _ this] True "1.prems" obtain s where s: "diy_e (normalize_loop (push_bit 1 f) (e - 1)) = e - 1 - int s"
      "unat (diy_f (normalize_loop (push_bit 1 f) (e - 1))) = unat f * 2 * 2 ^ s"
      "2 ^ 63 \<le> unat (diy_f (normalize_loop (push_bit 1 f) (e - 1)))" unfolding d by auto
    have n: "normalize_loop f e = normalize_loop (push_bit 1 f) (e - 1)"
      using True "1.prems" by (simp add: normalize_loop.simps [of f])
    show ?thesis unfolding n using s by (intro exI [of _ "Suc s"]) simp
  next
    case False
    then have "unat f div 2 ^ 63 \<noteq> 0" using unat_shift_right [of 63 f] by (metis unat_eq_zero)
    then have "2 ^ 63 \<le> unat f" by (metis div_less not_le)
    with False show ?thesis by (intro exI [of _ 0]) (simp add: normalize_loop.simps [of f])
  qed
qed

lemma normalize_spec:
  assumes "diy_f x \<noteq> 0"
  obtains y s where "diyfp_normalize x = Inr y" "diy_e y = diy_e x - int s" "unat (diy_f y) = unat (diy_f x) * 2 ^ s"
    "2 ^ 63 \<le> unat (diy_f y)"
  using assms normalize_loop_spec [OF assms, of "diy_e x"] by (auto simp: diyfp_normalize_def)

lemma normalize_to_spec:
  assumes "diy_e x = e + int n" and "n < 64" and "unat (diy_f x) * 2 ^ n < 2 ^ 64"
  shows "\<exists>y. diyfp_normalize_to x e = Inr y \<and> diy_e y = e \<and> unat (diy_f y) = unat (diy_f x) * 2 ^ n"
proof -
  have u: "unat (push_bit n (diy_f x)) = unat (diy_f x) * 2 ^ n" using assms(3) by (subst unat_shift_left) simp_all
  then have "unat (drop_bit n (push_bit n (diy_f x))) = unat (diy_f x)" by (simp only: unat_shift_right) simp
  then have "drop_bit n (push_bit n (diy_f x)) = diy_f x" by (simp only: word_unat_eq_iff)
  with u assms(1,2) show ?thesis by (simp add: diyfp_normalize_to_def shift_left_def)
qed

lemma scale_unique:
  assumes "2 ^ 63 \<le> (x :: nat) * 2 ^ a" "x * 2 ^ a < 2 ^ 64" "2 ^ 63 \<le> x * 2 ^ b" "x * 2 ^ b < 2 ^ 64"
  shows "a = b"
proof -
  have "\<not> a < b" if "2 ^ 63 \<le> x * 2 ^ a" "x * 2 ^ b < 2 ^ 64" for a b
  proof
    assume "a < b"
    then have "2 ^ Suc a \<le> (2 :: nat) ^ b" by (intro power_increasing) simp_all
    then have "x * 2 ^ Suc a \<le> x * 2 ^ b" by (rule mult_left_mono) simp
    then have "2 * (x * 2 ^ a) \<le> x * 2 ^ b" by (simp only: power_Suc mult.left_commute)
    moreover have "(2 :: nat) ^ 64 = 2 * 2 ^ 63" by simp
    ultimately show False using that by linarith
  qed
  with assms show ?thesis by (metis linorder_neqE_nat)
qed

lemma between_scale:
  assumes "2 ^ 63 \<le> (f :: nat) * 2 ^ t" "f * 2 ^ t < 2 ^ 64" "f < 2 ^ 63" "2 ^ 63 \<le> (2 * f + 1) * 2 ^ s" "(2 * f + 1) * 2 ^ s < 2 ^ 64"
  shows "t = Suc s"
proof (cases t)
  case 0
  with assms show ?thesis by simp
next
  case (Suc r)
  have t: "t \<le> 64"
  proof (rule ccontr)
    assume "\<not> t \<le> 64"
    then have "2 ^ 64 \<le> (2 :: nat) ^ t" by (intro power_increasing) simp_all
    moreover have "1 \<le> f" using assms(1) by (cases f) simp_all
    ultimately have "1 * 2 ^ 64 \<le> f * 2 ^ t" by (rule mult_le_mono [rotated])
    with assms(2) show False by simp
  qed
  then have p: "(2 :: nat) ^ 64 = 2 ^ (64 - t) * 2 ^ t" by (simp add: power_add [symmetric])
  from assms(2) have "f * 2 ^ t < 2 ^ (64 - t) * 2 ^ t" unfolding p .
  then have "f < 2 ^ (64 - t)" by (rule mult_right_less_imp_less) simp
  then have "(f + 1) * 2 ^ t \<le> 2 ^ 64" unfolding p by (intro mult_right_mono) simp_all
  moreover have "(2 * f + 1) * 2 ^ r + 2 ^ r = (f + 1) * 2 ^ t" by (simp add: Suc algebra_simps)
  moreover have "(0 :: nat) < 2 ^ r" by simp
  ultimately have "(2 * f + 1) * 2 ^ r < 2 ^ 64" by linarith
  moreover have "2 ^ 63 \<le> (2 * f + 1) * 2 ^ r" using assms(1) by (simp add: Suc algebra_simps)
  ultimately have "r = s" using scale_unique assms(4,5) by blast
  with Suc show ?thesis by simp
qed

lemma signbit_unat: "signbit x \<longleftrightarrow> 2 ^ 63 \<le> unat x"
proof -
  have "signbit x \<longleftrightarrow> bit (unat x) 63" by (simp add: signbit_def bit_unsigned_iff)
  also have "\<dots> \<longleftrightarrow> odd (unat x div 2 ^ 63)" by (simp add: bit_iff_odd)
  finally have *: "signbit x \<longleftrightarrow> odd (unat x div 2 ^ 63)" .
  have "unat x < 2 ^ 64" using unsigned_less [of x] by simp
  then have "unat x div 2 ^ 63 < 2" by (simp add: div_less_iff_less_mult)
  then have "odd (unat x div 2 ^ 63) \<longleftrightarrow> unat x div 2 ^ 63 \<noteq> 0" by (cases "unat x div 2 ^ 63"; cases "unat x div 2 ^ 63 - 1") auto
  with * show ?thesis by (simp add: div_eq_0_iff not_less)
qed

lemma isfinite_unat: "\<not> signbit x \<Longrightarrow> isfinite x \<longleftrightarrow> unat x div 2 ^ 52 \<noteq> 2047"
proof -
  assume "\<not> signbit x"
  then have "unat x div 2 ^ 52 < 2 ^ 11" by (simp add: signbit_unat div_less_iff_less_mult)
  then have "unat (take_bit 11 (drop_bit 52 x)) = unat x div 2 ^ 52"
    by (simp add: unsigned_take_bit_eq unat_shift_right del: unsigned_drop_bit_eq) (simp add: take_bit_nat_eq_self)
  moreover have "drop_bit 52 x AND 0x7FF = take_bit 11 (drop_bit 52 x)"
    by (simp add: take_bit_eq_mask mask_eq_exp_minus_1)
  moreover have "unat (0x7FF :: 64 word) = 2047" by simp
  ultimately show ?thesis unfolding isfinite_def by (metis word_unat_eq_iff)
qed

text \<open>A positive finite double is \<open>f * 2 ^ e\<close>.\<close>

definition double_parts :: "64 word \<Rightarrow> nat \<Rightarrow> int \<Rightarrow> bool" where
  "double_parts x f e \<longleftrightarrow> unat x = nat (e + 1074) * 2 ^ 52 + f \<and> - 1074 \<le> e \<and> e \<le> 971 \<and> 0 < f \<and> f < 2 ^ 53
     \<and> (- 1074 < e \<longrightarrow> 2 ^ 52 \<le> f)"

lemma diyfp_of_double_parts:
  assumes "isfinite x" "\<not> signbit x" "x \<noteq> 0"
  shows "double_parts x (unat (diy_f (diyfp_of_double x))) (diy_e (diyfp_of_double x))"
    and "x AND (push_bit 52 1 - 1) = 0 \<and> 1 < drop_bit 52 x \<longleftrightarrow>
      unat (diy_f (diyfp_of_double x)) = 2 ^ 52 \<and> - 1074 < diy_e (diyfp_of_double x)"
proof -
  define E F where "E = unat x div 2 ^ 52" and "F = unat x mod 2 ^ 52"
  have x: "unat x = E * 2 ^ 52 + F" by (simp add: E_def F_def)
  have E: "E < 2047" using assms(1,2) isfinite_unat [OF assms(2)]
    by (simp add: E_def signbit_unat)
  have F: "F < 2 ^ 52" by (simp add: F_def)
  have e: "unat (drop_bit 52 x) = E" "unat (x AND (push_bit 52 1 - 1)) = F"
    unfolding E_def F_def by (rule unat_shift_right, rule unat_low_bits)
  have z: "drop_bit 52 x = 0 \<longleftrightarrow> E = 0" by (simp only: e(1) [symmetric] unat_eq_zero)
  have s: "unat ((x AND (push_bit 52 1 - 1)) + push_bit 52 1) = F + 2 ^ 52"
  proof -
    have "unat (push_bit 52 1 :: 64 word) = 2 ^ 52" by (simp add: push_bit_eq_mult)
    with e(2) F unat_plus_small [of "x AND (push_bit 52 1 - 1)" "push_bit 52 1"] show ?thesis
      by (simp del: push_bit_numeral_minus_1 only: e) simp
  qed
  have f: "unat (diy_f (diyfp_of_double x)) = (if E = 0 then F else F + 2 ^ 52)"
    "diy_e (diyfp_of_double x) = (if E = 0 then - 1074 else int E - 1075)"
    by (cases "E = 0"; simp_all only: diyfp_of_double_def Let_def z e s if_True if_False diyfp.select_convs refl simp_thms)+
  have "0 < unat x" using assms(3) by (simp add: unat_gt_0)
  with x E F show "double_parts x (unat (diy_f (diyfp_of_double x))) (diy_e (diyfp_of_double x))"
    unfolding double_parts_def f by (cases E) (simp_all add: nat_add_distrib)
  have "x AND (push_bit 52 1 - 1) = 0 \<longleftrightarrow> F = 0" by (simp only: e(2) [symmetric] unat_eq_zero)
  moreover have "1 < drop_bit 52 x \<longleftrightarrow> 1 < E" by (simp add: word_less_nat_alt e del: unsigned_drop_bit_eq)
  ultimately show "x AND (push_bit 52 1 - 1) = 0 \<and> 1 < drop_bit 52 x \<longleftrightarrow>
      unat (diy_f (diyfp_of_double x)) = 2 ^ 52 \<and> - 1074 < diy_e (diyfp_of_double x)"
    using F unfolding f by auto
qed

text \<open>What \<open>compute_boundaries\<close> gives for \<open>f * 2 ^ e\<close>: everything scaled by \<open>2 ^ s\<close>, in halves of a unit.\<close>

definition halfway_below :: "nat \<Rightarrow> int \<Rightarrow> nat \<Rightarrow> nat" where
  "halfway_below f e s = (if f = 2 ^ 52 \<and> - 1074 < e then (4 * f - 1) * 2 ^ (s - 1) else (2 * f - 1) * 2 ^ s)"

lemma compute_boundaries_spec:
  assumes x: "isfinite x" "\<not> signbit x" "x \<noteq> 0" and p: "double_parts x f e"
    and fe: "f = unat (diy_f (diyfp_of_double x))" "e = diy_e (diyfp_of_double x)"
  shows "\<exists>b s. compute_boundaries x = Inr b
    \<and> diy_e (bound_plus b) = e - 1 - int s \<and> diy_e (bound_minus b) = e - 1 - int s \<and> diy_e (bound_w b) = e - 1 - int s
    \<and> unat (diy_f (bound_plus b)) = (2 * f + 1) * 2 ^ s \<and> unat (diy_f (bound_w b)) = 2 * f * 2 ^ s
    \<and> unat (diy_f (bound_minus b)) = halfway_below f e s \<and> 2 ^ 63 \<le> (2 * f + 1) * 2 ^ s \<and> 2 ^ 63 \<le> 2 * f * 2 ^ s"
proof -
  let ?v = "diyfp_of_double x"
  have f: "0 < f" "f < 2 ^ 53" using p by (simp_all add: double_parts_def)
  have two: "unat (2 * diy_f ?v) = 2 * f" using f fe(1) by (subst unat_times_small) simp_all
  then have plus: "unat (2 * diy_f ?v + 1) = 2 * f + 1" using f by (subst unat_plus_small) simp_all
  have "(1 :: 64 word) \<le> 2 * diy_f ?v" using two f by (simp add: word_le_nat_alt)
  then have minus: "unat (2 * diy_f ?v - 1) = 2 * f - 1" using two by (simp add: unat_minus_le)
  have four: "unat (4 * diy_f ?v) = 4 * f" using f fe(1) by (subst unat_times_small) simp_all
  then have "(1 :: 64 word) \<le> 4 * diy_f ?v" using f by (simp add: word_le_nat_alt)
  then have closer: "unat (4 * diy_f ?v - 1) = 4 * f - 1" using four by (simp add: unat_minus_le)
  let ?m_plus = "\<lparr>diy_f = 2 * diy_f ?v + 1, diy_e = e - 1\<rparr>"
  have "diy_f ?m_plus \<noteq> 0" using plus by (metis add_is_0 diyfp.select_convs(1) unat_0 zero_neq_one)
  then obtain w_plus s where "diyfp_normalize ?m_plus = Inr w_plus" "diy_e w_plus = diy_e ?m_plus - int s"
      "unat (diy_f w_plus) = unat (diy_f ?m_plus) * 2 ^ s" "2 ^ 63 \<le> unat (diy_f w_plus)"
    by (rule normalize_spec)
  then have w_plus: "diyfp_normalize ?m_plus = Inr w_plus" "diy_e w_plus = e - 1 - int s"
      "unat (diy_f w_plus) = (2 * f + 1) * 2 ^ s" "2 ^ 63 \<le> unat (diy_f w_plus)"
    by (simp_all only: plus diyfp.select_convs)
  have "diy_f ?v \<noteq> 0" using f fe by auto
  then obtain w t where "diyfp_normalize ?v = Inr w" "diy_e w = diy_e ?v - int t"
      "unat (diy_f w) = unat (diy_f ?v) * 2 ^ t" "2 ^ 63 \<le> unat (diy_f w)" by (rule normalize_spec)
  then have w: "diyfp_normalize ?v = Inr w" "diy_e w = e - int t" "unat (diy_f w) = f * 2 ^ t" "2 ^ 63 \<le> unat (diy_f w)"
    by (simp_all only: fe)
  have lt: "unat (diy_f w_plus) < 2 ^ 64" "unat (diy_f w) < 2 ^ 64" using unsigned_less [of "diy_f w_plus"] unsigned_less [of "diy_f w"] by simp_all
  have t: "t = Suc s" using between_scale [of f t s] w(3,4) w_plus(3,4) lt f(2) by simp
  have s: "s < 64" "1 \<le> s"
  proof -
    show "s < 64"
    proof (rule ccontr)
      assume "\<not> s < 64"
      then have "2 ^ 64 \<le> (2 :: nat) ^ s" by (intro power_increasing) simp_all
      then have "1 * 2 ^ 64 \<le> (2 * f + 1) * 2 ^ s" by (intro mult_le_mono) simp_all
      with lt(1) w_plus(3) show False by simp
    qed
    show "1 \<le> s"
    proof (rule ccontr)
      assume "\<not> 1 \<le> s"
      then have "s = 0" by simp
      then have "unat (diy_f w_plus) = 2 * f + 1" using w_plus(3) by simp
      with w_plus(4) f(2) show False by simp
    qed
  qed
  define m_minus where "m_minus = (if x AND (push_bit 52 1 - 1) = 0 \<and> 1 < drop_bit 52 x
    then \<lparr>diy_f = 4 * diy_f ?v - 1, diy_e = e - 2\<rparr> else \<lparr>diy_f = 2 * diy_f ?v - 1, diy_e = e - 1\<rparr>)"
  have "\<exists>y. diyfp_normalize_to m_minus (diy_e w_plus) = Inr y \<and> diy_e y = diy_e w_plus \<and> unat (diy_f y) = halfway_below f e s"
  proof (cases "f = 2 ^ 52 \<and> - 1074 < e")
    case True
    then have m: "m_minus = \<lparr>diy_f = 4 * diy_f ?v - 1, diy_e = e - 2\<rparr>"
      using diyfp_of_double_parts(2) [OF x] fe by (simp add: m_minus_def)
    have "(4 * f - 1) * 2 ^ (s - 1) \<le> 2 * (2 * f + 1) * 2 ^ (s - 1)" by (intro mult_right_mono) simp_all
    also have "\<dots> = (2 * f + 1) * 2 ^ s" using s(2) by (cases s) simp_all
    finally have "unat (diy_f m_minus) * 2 ^ (s - 1) < 2 ^ 64" using lt(1) w_plus(3) closer by (simp add: m)
    from normalize_to_spec [OF _ _ this, of "diy_e w_plus"] True s closer w_plus(2) m show ?thesis
      by (simp add: halfway_below_def of_nat_diff)
  next
    case False
    then have m: "m_minus = \<lparr>diy_f = 2 * diy_f ?v - 1, diy_e = e - 1\<rparr>"
      using diyfp_of_double_parts(2) [OF x] fe by (simp add: m_minus_def)
    have "(2 * f - 1) * 2 ^ s \<le> (2 * f + 1) * 2 ^ s" by (intro mult_right_mono) simp_all
    then have "unat (diy_f m_minus) * 2 ^ s < 2 ^ 64" using lt(1) w_plus(3) minus by (simp add: m)
    from normalize_to_spec [OF _ _ this, of "diy_e w_plus"] False s minus w_plus(2) m show ?thesis
      by (auto simp: halfway_below_def)
  qed
  then obtain w_minus where w_minus: "diyfp_normalize_to m_minus (diy_e w_plus) = Inr w_minus" "diy_e w_minus = diy_e w_plus"
    "unat (diy_f w_minus) = halfway_below f e s" by blast
  have "compute_boundaries x = Inr \<lparr>bound_w = w, bound_minus = w_minus, bound_plus = w_plus\<rparr>"
    using x w_plus(1) w(1) w_minus(1) unfolding m_minus_def fe(2)
    by (simp add: compute_boundaries_def Let_def)
  with w_plus w w_minus t show ?thesis
    by (intro exI [of _ "\<lparr>bound_w = w, bound_minus = w_minus, bound_plus = w_plus\<rparr>"] exI [of _ s]) simp
qed

section \<open>Rounding the last digit\<close>

lemma digit_char_digit: "d \<le> 9 \<Longrightarrow> digit_char d = digit d"
  by (simp add: digit_char_def digit_def)

lemma previous_digit: "d < 9 \<Longrightarrow> previous_char (digit (Suc d)) = digit d"
proof -
  assume "d < 9"
  have "(of_char (digit (Suc d)) + 255) mod 256 = (48 + d + 256) mod 256" using \<open>d < 9\<close> by (simp add: digit_def)
  also have "\<dots> = 48 + d" using \<open>d < 9\<close> by (subst mod_add_self2) simp
  finally show ?thesis by (simp only: previous_char_def digit_def)
qed

lemma digit_zero: "d \<le> 9 \<Longrightarrow> digit d = CHR ''0'' \<longleftrightarrow> d = 0"
proof -
  assume "d \<le> 9"
  then have "digit_value (digit d) = d" using digit_ok [of d] by simp
  moreover have "digit_value (CHR ''0'') = 0" "digit 0 = CHR ''0''" by code_simp+
  ultimately show ?thesis by auto
qed

text \<open>
  The digit \<open>d\<close> is decreased only as long as the rest stays within \<open>delta\<close>; it does not fall below 0
  because before it was written the rest exceeded \<open>delta\<close>.
\<close>

lemma round_loop_spec:
  "i < length buf \<Longrightarrow> buf ! i = digit d \<Longrightarrow> d \<le> 9 \<Longrightarrow> unat rest \<le> unat delta \<Longrightarrow>
   unat delta < d * unat ten_k + unat rest \<Longrightarrow>
   \<exists>j \<le> d. round_loop i dist delta ten_k rest buf = Inr (buf[i := digit (d - j)]) \<and> unat rest + j * unat ten_k \<le> unat delta"
proof (induction d arbitrary: rest buf)
  case 0
  then show ?case by simp
next
  case (Suc d)
  let ?go = "rest < dist \<and> delta - rest \<ge> ten_k \<and> (rest + ten_k < dist \<or> dist - rest > rest + ten_k - dist)"
  show ?case
  proof (cases ?go)
    case False
    then have "round_loop i dist delta ten_k rest buf = Inr buf"
      by (simp only: round_loop.simps [of i dist delta ten_k rest] if_False)
    moreover have "buf[i := digit (Suc d - 0)] = buf" using Suc.prems(2) by (metis diff_zero list_update_id)
    ultimately show ?thesis using Suc.prems(4) by (intro exI [of _ 0]) simp
  next
    case True
    have le: "rest \<le> delta" using Suc.prems(4) by (simp add: word_le_nat_alt)
    have t: "unat ten_k \<le> unat delta - unat rest"
      using True unat_minus_le [OF le] by (simp add: word_le_nat_alt)
    have "unat delta < 2 ^ 64" using unsigned_less [of delta] by simp
    with t Suc.prems(4) have r: "unat (rest + ten_k) = unat rest + unat ten_k" by (subst unat_plus_small) simp_all
    let ?buf = "buf[i := digit d]"
    have "\<exists>j \<le> d. round_loop i dist delta ten_k (rest + ten_k) ?buf = Inr (?buf[i := digit (d - j)])
        \<and> unat (rest + ten_k) + j * unat ten_k \<le> unat delta"
      by (rule Suc.IH) (use Suc.prems t r in simp_all)
    then obtain j where j: "j \<le> d" "round_loop i dist delta ten_k (rest + ten_k) ?buf = Inr (?buf[i := digit (d - j)])"
      "unat (rest + ten_k) + j * unat ten_k \<le> unat delta" by blast
    have "buf ! i \<noteq> CHR ''0''" using Suc.prems(2,3) digit_zero by simp
    then have "round_loop i dist delta ten_k rest buf = Inr (buf[i := digit (d - j)])"
      using True Suc.prems(1,2,3) j(2) previous_digit [of d]
      by (simp add: round_loop.simps [of i dist delta ten_k rest])
    with j r show ?thesis by (intro exI [of _ "Suc j"]) simp
  qed
qed

lemma grisu2_round_spec:
  assumes "d \<le> 9" "dist \<le> delta" "rest \<le> delta" "0 < ten_k" "unat delta < d * unat ten_k + unat rest"
  shows "\<exists>j \<le> d. grisu2_round (ds @ digit d # tail) (length ds + 1) dist delta rest ten_k = Inr (ds @ digit (d - j) # tail)
    \<and> unat rest + j * unat ten_k \<le> unat delta"
  using round_loop_spec [of "length ds" "ds @ digit d # tail" d rest delta ten_k dist] assms
  by (simp add: grisu2_round_def word_le_nat_alt)

section \<open>Both loops\<close>

text \<open>
  \<open>ds * 10 ^ x\<close> lies between the boundaries \<open>lo\<close> and \<open>hi\<close>, which are in units of \<open>1 / B\<close>; it has at most
  17 digits and no leading zero.
\<close>

definition decimal_between :: "nat \<Rightarrow> nat \<Rightarrow> nat \<Rightarrow> string \<Rightarrow> int \<Rightarrow> bool" where
  "decimal_between lo hi B ds x \<longleftrightarrow> ds \<noteq> [] \<and> list_all is_digit ds \<and> hd ds \<noteq> CHR ''0'' \<and> length ds \<le> 17
     \<and> lo * 10 ^ nat (- x) \<le> decimal_value ds * 10 ^ nat x * B
     \<and> decimal_value ds * 10 ^ nat x * B \<le> hi * 10 ^ nat (- x)"

lemma decimal_value_Nil [simp]: "decimal_value [] = 0"
  by (simp add: decimal_value_def)

lemma decimal_value_append: "decimal_value (xs @ ys) = decimal_value xs * 10 ^ length ys + decimal_value ys"
proof (induction ys rule: rev_induct)
  case (snoc y ys)
  have "decimal_value (xs @ ys @ [y]) = 10 * decimal_value (xs @ ys) + digit_value y"
    using decimal_value_snoc [of "xs @ ys"] by simp
  with snoc show ?case by (simp add: decimal_value_snoc algebra_simps)
qed simp

lemma is_digit_digit: "is_digit c \<longleftrightarrow> (\<exists>d \<le> 9. c = digit d)"
proof
  assume "is_digit c"
  then have "of_char c = 48 + digit_value c" "digit_value c \<le> 9" by (auto simp: is_digit_def digit_value_def)
  then have "c = digit (digit_value c)" unfolding digit_def by (metis char_of_char)
  with \<open>digit_value c \<le> 9\<close> show "\<exists>d \<le> 9. c = digit d" by blast
qed (auto simp: digit_ok)

lemma decimal_value_lower:
  assumes "ds \<noteq> []" "list_all is_digit ds" "hd ds \<noteq> CHR ''0''"
  shows "10 ^ (length ds - 1) \<le> decimal_value ds"
proof (cases ds)
  case (Cons c r)
  with assms obtain d where d: "c = digit d" "d \<le> 9" "d \<noteq> 0" using is_digit_digit [of c] digit_zero by auto
  have "decimal_value ds = d * 10 ^ length r + decimal_value r"
    using decimal_value_append [of "[c]" r] decimal_value_snoc [of "[]" c] d by (simp add: Cons digit_ok)
  moreover have "1 * 10 ^ length r \<le> d * 10 ^ length r" using d by (intro mult_right_mono) simp_all
  moreover have "length ds - 1 = length r" by (simp add: Cons)
  ultimately show ?thesis by (metis le_add1 mult_1 order_trans)
qed (use assms in simp)

text \<open>Before the last digit the rest exceeds \<open>delta\<close>, so that there are at most 16 digits.\<close>

lemma digits_so_far:
  assumes "ds \<noteq> []" "list_all is_digit ds" "hd ds \<noteq> CHR ''0''"
    and "(hi :: nat) * 10 ^ m = decimal_value ds * A + rest" and "delta * 10 ^ m < A" and "hi \<le> delta * 10 ^ 16"
  shows "length ds \<le> 16"
proof (rule ccontr)
  assume "\<not> length ds \<le> 16"
  then have "(10 :: nat) ^ 16 \<le> 10 ^ (length ds - 1)" by (intro power_increasing) simp_all
  also have "\<dots> \<le> decimal_value ds" by (rule decimal_value_lower [OF assms(1-3)])
  finally have v: "10 ^ 16 \<le> decimal_value ds" .
  have "hi * 10 ^ m \<le> delta * 10 ^ 16 * 10 ^ m" using assms(6) by simp
  also have "\<dots> = 10 ^ 16 * (delta * 10 ^ m)" by simp
  also have "\<dots> < 10 ^ 16 * A" using assms(5) by simp
  also have "\<dots> \<le> decimal_value ds * A" using v by (rule mult_right_mono) simp
  finally show False using assms(4) by simp
qed

lemma hd_snoc: "ds \<noteq> [] \<Longrightarrow> hd (ds @ [c]) = hd ds"
  by (cases ds) simp_all

text \<open>\<open>delta * 10\<close> and \<open>p2 * 10\<close> do not overflow because \<open>p2\<close> has at most 60 bits.\<close>

lemma fraction_loop_spec:
  assumes s: "32 \<le> s" "s \<le> 60" and gap: "hi \<le> (hi - lo) * 10 ^ 16" "lo \<le> hi"
  shows "unat p2 < 2 ^ s \<Longrightarrow> unat delta < unat p2 \<Longrightarrow> dist \<le> delta \<Longrightarrow> unat delta = (hi - lo) * 10 ^ m \<Longrightarrow>
    hi * 10 ^ m = decimal_value ds * 2 ^ s + unat p2 \<Longrightarrow> ds \<noteq> [] \<Longrightarrow> list_all is_digit ds \<Longrightarrow> hd ds \<noteq> CHR ''0'' \<Longrightarrow>
    17 \<le> length ds + length tail \<Longrightarrow> buf = ds @ tail \<Longrightarrow> len = length ds \<Longrightarrow>
    \<exists>ds' tail' x. fraction_loop s k m p2 delta dist buf len = Inr (ds' @ tail', length ds', k + x)
      \<and> decimal_between lo hi (2 ^ s) ds' x \<and> length ds' + length tail' = length buf"
proof (induction "17 - length ds" arbitrary: m p2 delta dist buf len ds tail rule: less_induct)
  case less
  note P = less.prems
  have B: "(2 :: nat) ^ s \<le> 2 ^ 60" using s by (intro power_increasing) simp_all
  have "(hi - lo) * 10 ^ m < 2 ^ s" using P by simp
  from digits_so_far [OF P(6-8) P(5) this gap(1)] have len: "length ds \<le> 16" .
  then obtain c tl where tail: "tail = c # tl" using P(9) by (cases tail) simp_all
  define d where "d = unat p2 * 10 div 2 ^ s"
  define r where "r = (p2 * 10) AND (push_bit s 1 - 1)"
  have p: "unat (p2 * 10) = unat p2 * 10" "unat (delta * 10) = unat delta * 10" "unat (dist * 10) = unat dist * 10"
    using P(1-3) B by (simp_all add: unat_times_small word_le_nat_alt)
  have ov: "p2 \<le> (- 1) div 10"
  proof -
    have "unat ((- 1) div 10 :: 64 word) = 1844674407370955161"
      by (simp only: unat_div unsigned_minus_1_eq_mask) (simp add: mask_eq_exp_minus_1)
    with P(1) B show ?thesis by (simp only: word_le_nat_alt) simp
  qed
  have d: "unat (drop_bit s (p2 * 10)) = d" "d \<le> 9"
  proof -
    show "unat (drop_bit s (p2 * 10)) = d" unfolding unat_shift_right p d_def ..
    have "unat p2 * 10 < 10 * 2 ^ s" using P(1) by simp
    then have "d < 10" unfolding d_def by (simp only: less_mult_imp_div_less)
    then show "d \<le> 9" by simp
  qed
  then have d9: "drop_bit s (p2 * 10) \<le> 9" by (simp add: word_le_nat_alt del: unsigned_drop_bit_eq)
  have r: "unat r = unat p2 * 10 mod 2 ^ s" unfolding r_def unat_low_bits p ..
  then have dr: "unat p2 * 10 = d * 2 ^ s + unat r" by (simp only: d_def div_mult_mod_eq)
  let ?ds = "ds @ [digit d]" and ?buf = "ds @ digit d # tl"
  have buf: "buf[len := digit_char (unat (drop_bit s (p2 * 10)))] = ?buf"
    using P(10,11) d by (simp add: tail digit_char_digit del: unsigned_drop_bit_eq)
  have ok: "list_all is_digit ?ds" "hd ?ds \<noteq> CHR ''0''" using P(6-8) d(2) by (simp_all add: digit_ok)
  have val: "decimal_value ?ds = 10 * decimal_value ds + d" using d(2) by (simp add: decimal_value_snoc digit_ok)
  have hi: "hi * 10 ^ Suc m = decimal_value ?ds * 2 ^ s + unat r"
    using P(5) dr unfolding val by (simp add: algebra_simps)
  have delta: "unat (delta * 10) = (hi - lo) * 10 ^ Suc m" using P(4) p by simp
  note unfold = fraction_loop.simps [of s k m p2 delta dist buf len, unfolded Let_def, folded r_def]
  have in_buf: "len < length buf" using P(10,11) by (simp add: tail)
  show ?case
  proof (cases "r \<le> delta * 10")
    case False
    then have step: "fraction_loop s k m p2 delta dist buf len = fraction_loop s k (m + 1) r (delta * 10) (dist * 10) ?buf (len + 1)"
      unfolding unfold buf using ov d9 in_buf by simp
    have "\<exists>ds' tail' x. fraction_loop s k (m + 1) r (delta * 10) (dist * 10) ?buf (len + 1) = Inr (ds' @ tail', length ds', k + x)
        \<and> decimal_between lo hi (2 ^ s) ds' x \<and> length ds' + length tail' = length ?buf"
    proof (rule less.hyps [of ?ds])
      show "unat r < 2 ^ s" unfolding r by simp
      show "unat (delta * 10) < unat r" using False by (simp add: word_le_nat_alt)
      show "dist * 10 \<le> delta * 10" using P(3) p by (simp add: word_le_nat_alt)
    qed (use len delta hi ok P(9,11) in \<open>simp_all add: tail\<close>)
    with step show ?thesis using P(10) by (simp add: tail)
  next
    case True
    then have step: "fraction_loop s k m p2 delta dist buf len =
        bindr (grisu2_round ?buf (len + 1) (dist * 10) (delta * 10) r (push_bit s 1)) (\<lambda>buf. Inr (buf, len + 1, k - int (m + 1)))"
      unfolding unfold buf using ov d9 in_buf by simp
    have one: "unat (push_bit s 1 :: 64 word) = 2 ^ s" using B by (subst unat_shift_left) simp_all
    have "0 < (push_bit s 1 :: 64 word)" unfolding word_less_nat_alt one by simp
    moreover have "dist * 10 \<le> delta * 10" using P(3) p by (simp add: word_le_nat_alt)
    moreover have "unat (delta * 10) < d * unat (push_bit s 1 :: 64 word) + unat r" using P(2) dr p one by simp
    ultimately obtain j where j: "j \<le> d" "grisu2_round ?buf (len + 1) (dist * 10) (delta * 10) r (push_bit s 1) = Inr (ds @ digit (d - j) # tl)"
      "unat r + j * 2 ^ s \<le> unat (delta * 10)"
      using grisu2_round_spec [OF d(2) _ True, where ds = ds and tail = tl and dist = "dist * 10" and ten_k = "push_bit s 1"]
      unfolding one P(11) by blast
    let ?out = "ds @ [digit (d - j)]"
    have "decimal_value ?ds = decimal_value ?out + j" unfolding val using d(2) j(1) by (simp add: decimal_value_snoc digit_ok)
    then have "decimal_value ?ds * 2 ^ s = decimal_value ?out * 2 ^ s + j * 2 ^ s" by (simp only: add_mult_distrib)
    with hi have out: "decimal_value ?out * 2 ^ s + (unat r + j * 2 ^ s) = hi * 10 ^ Suc m" by linarith
    moreover have "lo * 10 ^ Suc m + (hi - lo) * 10 ^ Suc m = hi * 10 ^ Suc m" using gap(2) by (simp add: add_mult_distrib [symmetric])
    ultimately have "lo * 10 ^ Suc m \<le> decimal_value ?out * 2 ^ s" using j(3) delta by linarith
    moreover have "decimal_value ?out * 2 ^ s \<le> hi * 10 ^ Suc m" using out by linarith
    ultimately have "decimal_between lo hi (2 ^ s) ?out (- int (Suc m))"
      using P(6-8) d(2) j(1) len by (simp add: decimal_between_def digit_ok nat_add_distrib)
    with step j(2) P(10,11) show ?thesis
      by (intro exI [of _ ?out] exI [of _ tl] exI [of _ "- int (Suc m)"]) (simp add: tail)
  qed
qed

lemma unat_widen: "unat (ucast (x :: 32 word) :: 64 word) = unat x"
proof -
  have "unat x < 2 ^ 32" using unsigned_less [of x] by simp
  then have "unat x < 2 ^ 64" by (rule order_less_trans) simp
  then show ?thesis unfolding unsigned_ucast_eq by (simp add: take_bit_nat_eq_self)
qed

lemma integral_loop_spec:
  assumes s: "32 \<le> s" "s \<le> 60" and gap: "hi \<le> (hi - lo) * 10 ^ 16" "lo \<le> hi" "0 < lo" "hi < 2 ^ 64"
    and fixed: "unat p2 < 2 ^ s" "dist \<le> delta" "unat delta = hi - lo"
  shows "unat p1 < 10 ^ n \<Longrightarrow> (0 < n \<longrightarrow> unat pow10 = 10 ^ (n - 1)) \<Longrightarrow>
    hi = (decimal_value ds * 10 ^ n + unat p1) * 2 ^ s + unat p2 \<Longrightarrow> list_all is_digit ds \<Longrightarrow>
    (ds \<noteq> [] \<longrightarrow> hd ds \<noteq> CHR ''0'' \<and> unat delta < unat p1 * 2 ^ s + unat p2) \<Longrightarrow>
    (ds = [] \<longrightarrow> 0 < n \<and> 10 ^ (n - 1) \<le> unat p1) \<Longrightarrow>
    17 \<le> length ds + length tail \<Longrightarrow> buf = ds @ tail \<Longrightarrow> len = length ds \<Longrightarrow>
    \<exists>ds' tail' x. integral_loop s k n p1 pow10 p2 delta dist buf len = Inr (ds' @ tail', length ds', k + x)
      \<and> decimal_between lo hi (2 ^ s) ds' x \<and> length ds' + length tail' = length buf"
proof (induction n arbitrary: p1 pow10 ds tail buf len)
  case 0
  then have "delta < p2" by (simp add: word_less_nat_alt)
  moreover have "\<exists>ds' tail' x. fraction_loop s k 0 p2 delta dist buf len = Inr (ds' @ tail', length ds', k + x)
      \<and> decimal_between lo hi (2 ^ s) ds' x \<and> length ds' + length tail' = length buf"
    by (rule fraction_loop_spec [OF s gap(1,2), where ds = ds and tail = tail]) (use 0 fixed in simp_all)
  ultimately show ?case by simp
next
  case (Suc n)
  note P = Suc.prems
  have pow: "unat pow10 = 10 ^ n" using P(2) by simp
  define d r where "d = unat p1 div 10 ^ n" and "r = unat p1 mod 10 ^ n"
  have dr: "unat p1 = d * 10 ^ n + r" by (simp only: d_def r_def div_mult_mod_eq)
  have w: "unat (p1 div pow10) = d" "unat (p1 mod pow10) = r" by (simp_all add: unat_div unat_mod pow d_def r_def)
  have d: "d \<le> 9"
  proof -
    have "unat p1 < 10 * 10 ^ n" using P(1) by simp
    then have "d < 10" unfolding d_def by (simp only: less_mult_imp_div_less)
    then show ?thesis by simp
  qed
  have r: "r < 10 ^ n" by (simp add: r_def)
  have hi: "hi = (decimal_value ds * 10 ^ Suc n + unat p1) * 2 ^ s + unat p2" by (rule P(3))
  have len: "length ds \<le> 16"
  proof (cases "ds = []")
    case False
    have "unat p1 * 2 ^ s + unat p2 < (unat p1 + 1) * 2 ^ s" using fixed(1) by simp
    also have "\<dots> \<le> 10 ^ Suc n * 2 ^ s" using P(1) by (intro mult_right_mono) simp_all
    finally have "(hi - lo) * 10 ^ 0 < 10 ^ Suc n * 2 ^ s" using P(5) fixed(3) False by simp
    from digits_so_far [OF False P(4) _ _ this gap(1), of "unat p1 * 2 ^ s + unat p2"] P(5) False hi
    show ?thesis by (simp add: algebra_simps)
  qed simp
  then obtain c tl where tail: "tail = c # tl" using P(7) by (cases tail) simp_all
  have small: "unat p1 * 2 ^ s + unat p2 \<le> hi" unfolding hi by (simp add: algebra_simps)
  have "r * 2 ^ s \<le> unat p1 * 2 ^ s" using dr by (intro mult_right_mono) simp_all
  with small gap(4) have rs: "r * 2 ^ s + unat p2 < 2 ^ 64" by linarith
  have up: "unat (ucast (p1 mod pow10) :: 64 word) = r" "unat (ucast pow10 :: 64 word) = 10 ^ n"
    using w(2) pow by (simp_all only: unat_widen)
  define rest where "rest = push_bit s (ucast (p1 mod pow10)) + p2"
  have rest: "unat rest = r * 2 ^ s + unat p2"
  proof -
    have "unat (push_bit s (ucast (p1 mod pow10)) :: 64 word) = r * 2 ^ s" using rs up(1) by (subst unat_shift_left) simp_all
    with rs show ?thesis unfolding rest_def by (subst unat_plus_small) simp_all
  qed
  let ?ds = "ds @ [digit d]" and ?buf = "ds @ digit d # tl"
  have buf: "store_char len (digit_char (unat (p1 div pow10))) buf = Inr ?buf"
    using P(8,9) d w(1) by (simp add: store_char_def tail digit_char_digit)
  have val: "decimal_value ?ds = 10 * decimal_value ds + d" using d by (simp add: decimal_value_snoc digit_ok)
  have hi2: "hi = (decimal_value ?ds * 10 ^ n + r) * 2 ^ s + unat p2" unfolding hi val dr by (simp add: algebra_simps)
  have ok: "list_all is_digit ?ds" using P(4) d by (simp add: digit_ok)
  have d9: "p1 div pow10 \<le> 9" using d w(1) by (simp add: word_le_nat_alt)
  have more: "unat delta < d * (10 ^ n * 2 ^ s) + unat rest"
  proof (cases "ds = []")
    case True
    then show ?thesis using gap(2,3) fixed(3) hi dr by (simp add: rest algebra_simps)
  next
    case False
    then show ?thesis using P(5) dr by (simp add: rest algebra_simps)
  qed
  show ?case
  proof (cases "rest \<le> delta")
    case False
    then have step: "integral_loop s k (Suc n) p1 pow10 p2 delta dist buf len =
        integral_loop s k n (p1 mod pow10) (pow10 div 10) p2 delta dist ?buf (len + 1)"
      using buf d9 by (simp add: Let_def rest_def)
    have first: "d \<noteq> 0" if "ds = []"
    proof -
      have "10 ^ n \<le> unat p1" using P(6) that by simp
      with dr r show ?thesis by (cases d) simp_all
    qed
    have "\<exists>ds' tail' x. integral_loop s k n (p1 mod pow10) (pow10 div 10) p2 delta dist ?buf (len + 1) = Inr (ds' @ tail', length ds', k + x)
        \<and> decimal_between lo hi (2 ^ s) ds' x \<and> length ds' + length tail' = length ?buf"
    proof (rule Suc.IH [where ds = ?ds])
      show "0 < n \<longrightarrow> unat (pow10 div 10) = 10 ^ (n - 1)" using pow by (cases n) (simp_all add: unat_div)
      show "?ds \<noteq> [] \<longrightarrow> hd ?ds \<noteq> CHR ''0'' \<and> unat delta < unat (p1 mod pow10) * 2 ^ s + unat p2"
        using False first P(5) d digit_zero [OF d] by (cases "ds = []") (simp_all add: word_le_nat_alt rest w(2))
    qed (use r w(2) hi2 ok len P(7,9) in \<open>simp_all add: tail\<close>)
    with step show ?thesis using P(8) by (simp add: tail)
  next
    case True
    have ten: "unat (push_bit s (ucast pow10) :: 64 word) = 10 ^ n * 2 ^ s"
    proof -
      have "10 ^ n * 2 ^ s \<le> hi"
      proof (cases "ds = []")
        case True
        then have "10 ^ n * 2 ^ s \<le> unat p1 * 2 ^ s" using P(6) by (intro mult_right_mono) simp_all
        with small show ?thesis by linarith
      next
        case False
        with decimal_value_lower [OF False P(4)] P(5) have "1 \<le> decimal_value ds" by (metis One_nat_def Suc_leI le_trans zero_less_numeral zero_less_power)
        then have "1 * 10 ^ n * 2 ^ s \<le> decimal_value ds * 10 ^ Suc n * 2 ^ s" by (intro mult_le_mono) simp_all
        moreover have "decimal_value ds * 10 ^ Suc n * 2 ^ s \<le> hi" unfolding hi by (simp add: algebra_simps)
        ultimately show ?thesis by linarith
      qed
      with gap(4) up(2) show ?thesis by (subst unat_shift_left) simp_all
    qed
    then have "0 < (push_bit s (ucast pow10) :: 64 word)" by (simp add: word_less_nat_alt)
    from grisu2_round_spec [OF d fixed(2) True this, where ds = ds and tail = tl] more
    obtain j where j: "j \<le> d" "grisu2_round ?buf (len + 1) dist delta rest (push_bit s (ucast pow10)) = Inr (ds @ digit (d - j) # tl)"
      "unat rest + j * (10 ^ n * 2 ^ s) \<le> unat delta" unfolding ten P(9) by blast
    then have step: "integral_loop s k (Suc n) p1 pow10 p2 delta dist buf len = Inr (ds @ digit (d - j) # tl, len + 1, k + int n)"
      using buf d9 True by (simp add: Let_def rest_def)
    let ?out = "ds @ [digit (d - j)]"
    have "decimal_value ?ds = decimal_value ?out + j" unfolding val using d j(1) by (simp add: decimal_value_snoc digit_ok)
    then have out: "hi = decimal_value ?out * 10 ^ n * 2 ^ s + (unat rest + j * (10 ^ n * 2 ^ s))"
      using hi2 unfolding rest by (simp add: algebra_simps)
    then have b: "lo \<le> decimal_value ?out * 10 ^ n * 2 ^ s" "decimal_value ?out * 10 ^ n * 2 ^ s \<le> hi"
      using j(3) fixed(3) gap(2) by linarith+
    with gap(3) have "decimal_value ?out \<noteq> 0" by (metis le_zero_eq mult_0 not_gr_zero)
    then have "hd ?out \<noteq> CHR ''0''"
      using P(5) digit_zero [of "d - j"] d digit_ok [of "d - j"]
      by (cases "ds = []") (auto simp: decimal_value_snoc [of "[]", simplified])
    with b have "decimal_between lo hi (2 ^ s) ?out (int n)"
      using P(4) d j(1) len by (simp add: decimal_between_def digit_ok)
    with step P(8,9) show ?thesis
      by (intro exI [of _ ?out] exI [of _ tl] exI [of _ "int n"]) (simp add: tail)
  qed
qed

lemma find_largest_pow10_spec:
  assumes "0 < n" and "find_largest_pow10 n = (k, pow10)"
  shows "0 < k \<and> k \<le> 10 \<and> unat pow10 = 10 ^ (k - 1) \<and> 10 ^ (k - 1) \<le> unat n \<and> unat n < 10 ^ k"
proof -
  have "unat n < 2 ^ 32" "0 < unat n" using unsigned_less [of n] assms(1) by (simp_all add: unat_gt_0)
  with assms(2) show ?thesis
    by (simp add: find_largest_pow10_def word_le_nat_alt split: if_splits) (elim conjE; hypsubst; simp)+
qed

lemma grisu2_digit_gen_spec:
  assumes e: "diy_e M_minus = e" "diy_e w = e" "diy_e M_plus = e" "- 60 \<le> e" "e \<le> - 32"
    and le: "unat (diy_f M_minus) \<le> unat (diy_f w)" "unat (diy_f w) \<le> unat (diy_f M_plus)" "0 < unat (diy_f M_minus)"
    and top: "2 ^ nat (- e) \<le> unat (diy_f M_plus)"
    and gap: "unat (diy_f M_plus) \<le> (unat (diy_f M_plus) - unat (diy_f M_minus)) * 10 ^ 16" and buf: "17 \<le> length buf"
  shows "\<exists>ds tail x. grisu2_digit_gen buf 0 k M_minus w M_plus = Inr (ds @ tail, length ds, k + x)
    \<and> decimal_between (unat (diy_f M_minus)) (unat (diy_f M_plus)) (2 ^ nat (- e)) ds x \<and> length ds + length tail = length buf"
proof -
  define s where "s = nat (- e)"
  let ?hi = "unat (diy_f M_plus)" and ?lo = "unat (diy_f M_minus)"
  define p1 where "p1 = (ucast (drop_bit s (diy_f M_plus)) :: 32 word)"
  define p2 where "p2 = diy_f M_plus AND (push_bit s 1 - 1)"
  have s: "32 \<le> s" "s \<le> 60" using e by (simp_all add: s_def)
  have lt: "?hi < 2 ^ 64" using unsigned_less [of "diy_f M_plus"] by simp
  have "?hi div 2 ^ s < 2 ^ 32"
  proof -
    have "(2 :: nat) ^ 32 \<le> 2 ^ s" using s by (intro power_increasing) simp_all
    then have "(2 :: nat) ^ 64 \<le> 2 ^ 32 * 2 ^ s" by simp
    with lt have "?hi < 2 ^ 32 * 2 ^ s" by linarith
    then show ?thesis by (rule less_mult_imp_div_less)
  qed
  then have p1: "unat p1 = ?hi div 2 ^ s"
    unfolding p1_def unsigned_ucast_eq unat_shift_right by (simp add: take_bit_nat_eq_self)
  have p2: "unat p2 = ?hi mod 2 ^ s" unfolding p2_def by (rule unat_low_bits)
  have "1 \<le> ?hi div 2 ^ s" using top unfolding s_def [symmetric] by (metis div_greater_zero_iff Suc_leI One_nat_def zero_less_numeral zero_less_power)
  with p1 have pos: "0 < p1" by (simp add: word_less_nat_alt)
  obtain n pow10 where n: "find_largest_pow10 p1 = (n, pow10)" by fastforce
  note k = find_largest_pow10_spec [OF pos n]
  have sub: "diyfp_sub M_plus M_minus = Inr \<lparr>diy_f = diy_f M_plus - diy_f M_minus, diy_e = e\<rparr>"
    "diyfp_sub M_plus w = Inr \<lparr>diy_f = diy_f M_plus - diy_f w, diy_e = e\<rparr>"
    using e le by (simp_all add: diyfp_sub_def word_le_nat_alt)
  have dist: "diy_f M_plus - diy_f w \<le> diy_f M_plus - diy_f M_minus" and
    delta: "unat (diy_f M_plus - diy_f M_minus) = ?hi - ?lo"
    using le by (simp_all add: word_le_nat_alt unat_minus_le)
  have "\<exists>ds tail x. integral_loop s k n p1 pow10 p2 (diy_f M_plus - diy_f M_minus) (diy_f M_plus - diy_f w) buf 0 =
      Inr (ds @ tail, length ds, k + x) \<and> decimal_between ?lo ?hi (2 ^ s) ds x \<and> length ds + length tail = length buf"
    by (rule integral_loop_spec [OF s gap _ le(3) lt _ dist delta, where ds = "[]" and tail = buf])
       (use le k p1 p2 buf in \<open>simp_all add: algebra_simps\<close>)
  moreover have "grisu2_digit_gen buf 0 k M_minus w M_plus =
      integral_loop s k n p1 pow10 p2 (diy_f M_plus - diy_f M_minus) (diy_f M_plus - diy_f w) buf 0"
    using e sub n pos by (simp add: grisu2_digit_gen_def Let_def p1_def p2_def s_def)
  ultimately show ?thesis by (simp add: s_def)
qed

end
