(* ===== verification/Json_Float_Powers.thy ===== *)
theory Json_Float_Powers
  imports Json_Float_Digits
begin

text \<open>
  The table of cached powers of ten is right: every entry is within half a unit of the power it stands
  for, and the entry chosen for the exponent of a double brings the products into range.
\<close>

section \<open>Cached powers\<close>

text \<open>\<open>f\<close> differs from \<open>10 ^ k / 2 ^ e = 5 ^ k / 2 ^ (e - k)\<close> by at most a half.\<close>

definition accurate_power :: "cached_power \<Rightarrow> bool" where
  "accurate_power c \<longleftrightarrow>
     (let f = uint (cached_f c); n = cached_e c - cached_k c;
          p = 2 ^ nat n * 5 ^ nat (- cached_k c); q = 5 ^ nat (cached_k c) * 2 ^ nat (- n)
      in \<bar>2 * f * p - 2 * q\<bar> \<le> p \<and> 2 ^ 63 \<le> f)"

text \<open>The checks for a stretch of the table, in steps of 8, with \<open>p = 5 ^ k\<close> and \<open>p = 5 ^ (- k)\<close>.\<close>

fun accurate_up :: "int \<Rightarrow> nat \<Rightarrow> cached_power list \<Rightarrow> bool" where
  "accurate_up p k [] \<longleftrightarrow> True"
| "accurate_up p k (c # cs) \<longleftrightarrow>
     (let f = uint (cached_f c); n = cached_e c - int k
      in cached_k c = int k \<and> \<bar>2 * f * 2 ^ nat n - 2 * (p * 2 ^ nat (- n))\<bar> \<le> 2 ^ nat n \<and> 2 ^ 63 \<le> f)
     \<and> accurate_up (p * 390625) (k + 8) cs"

fun accurate_down :: "int \<Rightarrow> nat \<Rightarrow> cached_power list \<Rightarrow> bool" where
  "accurate_down p k [] \<longleftrightarrow> True"
| "accurate_down p k (c # cs) \<longleftrightarrow>
     (let f = uint (cached_f c); n = cached_e c + int k
      in cached_k c = - int k \<and> n \<le> 0 \<and> \<bar>2 * (f * p) - 2 * 2 ^ nat (- n)\<bar> \<le> p \<and> 2 ^ 63 \<le> f)
     \<and> accurate_down (p * 390625) (k + 8) cs"

lemma accurate_up_all: "p = 5 ^ k \<Longrightarrow> accurate_up p k cs \<Longrightarrow> list_all accurate_power cs"
proof (induction p k cs rule: accurate_up.induct)
  case (2 p k c cs)
  have "p * 390625 = 5 ^ (k + 8)" using 2(2) by (simp add: power_add)
  with 2 show ?case by (simp add: accurate_power_def Let_def)
qed simp

lemma accurate_down_all: "p = 5 ^ k \<Longrightarrow> accurate_down p k cs \<Longrightarrow> list_all accurate_power cs"
proof (induction p k cs rule: accurate_down.induct)
  case (2 p k c cs)
  have "p * 390625 = 5 ^ (k + 8)" using 2(2) by (simp add: power_add)
  moreover have "accurate_power c"
  proof -
    have "cached_k c = - int k" "cached_e c + int k \<le> 0"
      "\<bar>2 * (uint (cached_f c) * p) - 2 * 2 ^ nat (- (cached_e c + int k))\<bar> \<le> p" "2 ^ 63 \<le> uint (cached_f c)"
      using 2(3) by (simp_all add: Let_def)
    with 2(2) show ?thesis by (simp add: accurate_power_def Let_def mult.assoc)
  qed
  ultimately show ?case using 2 by simp
qed simp

lemma accurate_powers: "list_all accurate_power kCachedPowers"
proof -
  have "accurate_down 625 4 (rev (take 38 kCachedPowers))" by code_simp
  then have "list_all accurate_power (rev (take 38 kCachedPowers))" by (rule accurate_down_all [rotated]) simp
  moreover have "accurate_up 625 4 (drop 38 kCachedPowers)" by code_simp
  then have "list_all accurate_power (drop 38 kCachedPowers)" by (rule accurate_up_all [rotated]) simp
  ultimately have "list_all accurate_power (take 38 kCachedPowers @ drop 38 kCachedPowers)"
    by (simp only: list_all_append list_all_rev simp_thms)
  then show ?thesis by (simp only: append_take_drop_id)
qed

text \<open>The exponents for which an index is taken, in terms of the comparison the index comes from.\<close>

definition index_fits :: "nat \<Rightarrow> bool" where
  "index_fits i \<longleftrightarrow>
     (let e = cached_e (kCachedPowers ! i)
      in (8 * int i - 300) * 2 ^ 18 div 78913 - 63 \<le> e \<and> e * 78913 \<le> (8 * int i - 308) * 2 ^ 18 - 35 * 78913)"

lemma indices_fit: "list_all index_fits [0..<79]"
  by code_simp

lemma div_bounds: "(0 :: int) < d \<Longrightarrow> x div d * d \<le> x \<and> x \<le> (x div d + 1) * d"
proof -
  assume "0 < d"
  then have "0 \<le> x mod d" "x mod d < d" by simp_all
  moreover have "x div d * d + x mod d = x" by (rule div_mult_mod_eq)
  moreover have "(x div d + 1) * d = x div d * d + d" by (simp add: distrib_right)
  ultimately show ?thesis by linarith
qed

lemma le_div: "(0 :: int) < d \<Longrightarrow> a * d \<le> x \<Longrightarrow> a \<le> x div d"
  using zdiv_mono1 [of "a * d" x d] by simp

lemma power_index_range:
  assumes "- 1137 \<le> e" "e \<le> 960"
  shows "0 \<le> power_index e" "power_index e < 79"
    "(8 * power_index e - 308) * 2 ^ 18 \<le> (- 61 - e) * 78913" "(- 61 - e) * 78913 \<le> (8 * power_index e - 300) * 2 ^ 18"
proof -
  define f where "f = - 60 - e - 1"
  define k where "k = (f * 78913) sdiv 2 ^ 18 + (if 0 < f then 1 else 0)"
  have f: "- 1021 \<le> f" "f \<le> 1076" using assms by (simp_all add: f_def)
  have k: "(k - 1) * 2 ^ 18 \<le> f * 78913 \<and> f * 78913 \<le> k * 2 ^ 18"
  proof (cases "0 < f")
    case True
    then have "k = f * 78913 div 2 ^ 18 + 1" by (simp add: k_def signed_divide_int_def)
    with div_bounds [of "2 ^ 18" "f * 78913"] show ?thesis by simp
  next
    case False
    then have "k = - ((- f * 78913) div 2 ^ 18)" by (cases "f = 0") (simp_all add: k_def signed_divide_int_def)
    with div_bounds [of "2 ^ 18" "- f * 78913"] show ?thesis by simp
  qed
  with f have "- 307 \<le> k" "k \<le> 324" by simp_all
  have "power_index e = (300 + k + (8 - 1)) sdiv 8" unfolding power_index_def Let_def k_def f_def ..
  with \<open>- 307 \<le> k\<close> have i: "power_index e = (307 + k) div 8"
    by (cases "k = - 307") (simp_all add: signed_divide_int_def)
  show "0 \<le> power_index e" "power_index e < 79" using \<open>- 307 \<le> k\<close> \<open>k \<le> 324\<close> by (simp_all add: i)
  have "8 * power_index e - 307 \<le> k" "k \<le> 8 * power_index e - 300" by (simp_all add: i)
  then have "(8 * power_index e - 308) * 2 ^ 18 \<le> (k - 1) * 2 ^ 18" "k * 2 ^ 18 \<le> (8 * power_index e - 300) * 2 ^ 18" by simp_all
  moreover have "f = - 61 - e" by (simp add: f_def)
  ultimately show "(8 * power_index e - 308) * 2 ^ 18 \<le> (- 61 - e) * 78913" "(- 61 - e) * 78913 \<le> (8 * power_index e - 300) * 2 ^ 18"
    using conjunct1 [OF k] conjunct2 [OF k] by (blast intro: order_trans)+
qed

lemma get_cached_power_spec:
  assumes "- 1137 \<le> e" "e \<le> 960"
  shows "\<exists>c. get_cached_power_for_binary_exponent e = Inr c \<and> accurate_power c
    \<and> - 60 \<le> cached_e c + e + 64 \<and> cached_e c + e + 64 \<le> - 32"
proof -
  define i where "i = nat (power_index e)"
  have len: "length kCachedPowers = 79" by (simp add: kCachedPowers_def)
  have i: "int i = power_index e" "i < 79" using power_index_range [OF assms] by (simp_all add: i_def)
  then have fits: "index_fits i" using indices_fit by (simp add: list_all_iff)
  have "accurate_power (kCachedPowers ! i)" using accurate_powers i(2) len by (simp add: list_all_length)
  moreover have "- 60 \<le> cached_e (kCachedPowers ! i) + e + 64 \<and> cached_e (kCachedPowers ! i) + e + 64 \<le> - 32"
  proof -
    let ?e = "cached_e (kCachedPowers ! i)"
    have "- 61 - e \<le> (8 * int i - 300) * 2 ^ 18 div 78913"
      using power_index_range(4) [OF assms] i(1) by (intro le_div) simp_all
    also have "\<dots> \<le> ?e + 63" using fits by (simp add: index_fits_def Let_def)
    finally have lower: "- 61 - e \<le> ?e + 63" .
    have "(?e + 35) * 78913 \<le> (8 * int i - 308) * 2 ^ 18" using fits by (simp add: index_fits_def Let_def)
    also have "\<dots> \<le> (- 61 - e) * 78913" using power_index_range(3) [OF assms] i(1) by simp
    finally have "?e + 35 \<le> - 61 - e" by (rule mult_right_le_imp_le) simp
    with lower show ?thesis by simp
  qed
  ultimately show ?thesis
    using power_index_range(1,2) [OF assms] assms len
    by (simp add: get_cached_power_for_binary_exponent_def Let_def i_def)
qed

end
