(* ===== verification/Json_Grisu.thy ===== *)
theory Json_Grisu
  imports Complex_Main Json_Float_Powers
begin

text \<open>
  The digits Grisu2 produces: after the rounding of the products the decimal number lies strictly
  between the halfway points around the double, and it has at most 17 digits.
\<close>

section \<open>Powers with integer exponents\<close>

lemma powi_quotient: "(a :: real) \<noteq> 0 \<Longrightarrow> a powi z = a ^ nat z / a ^ nat (- z)"
  by (cases "0 \<le> z") (simp_all add: power_int_def field_simps)

lemma powi_ten: "(10 :: real) powi z = 5 powi z * 2 powi z"
  using power_int_mult_distrib [of "5 :: real" 2 z] by simp

lemma half_unit:
  fixes f p q :: real
  assumes "0 < p" and "\<bar>2 * f * p - 2 * q\<bar> \<le> p"
  shows "\<bar>f - q / p\<bar> \<le> 1 / 2"
proof -
  have "2 * f * p - 2 * q = 2 * p * (f - q / p)" using assms(1) by (simp add: field_simps)
  with assms have "2 * p * \<bar>f - q / p\<bar> \<le> 2 * p * (1 / 2)" by (simp add: abs_mult)
  then show ?thesis using assms(1) by (subst (asm) mult_le_cancel_left_pos) simp_all
qed

lemma cached_power_real:
  assumes "accurate_power c"
  shows "\<bar>real (unat (cached_f c)) - 10 powi cached_k c / 2 powi cached_e c\<bar> \<le> 1 / 2" and "2 ^ 63 \<le> unat (cached_f c)"
proof -
  define f n where "f = int (unat (cached_f c))" and "n = cached_e c - cached_k c"
  define p q :: int where "p = 2 ^ nat n * 5 ^ nat (- cached_k c)" and "q = 5 ^ nat (cached_k c) * 2 ^ nat (- n)"
  from assms have a: "\<bar>2 * f * p - 2 * q\<bar> \<le> p" "2 ^ 63 \<le> f"
    by (simp_all add: accurate_power_def Let_def f_def n_def p_def q_def)
  have pos: "0 < real_of_int p" by (simp add: p_def)
  have c: "10 powi cached_k c / 2 powi cached_e c = real_of_int q / real_of_int p"
  proof -
    have "10 powi cached_k c / 2 powi cached_e c = 5 powi cached_k c / (2 :: real) powi n"
      by (simp add: powi_ten n_def power_int_diff field_simps)
    also have "\<dots> = real_of_int q / real_of_int p" by (simp add: powi_quotient p_def q_def)
    finally show ?thesis .
  qed
  from a(1) have "real_of_int \<bar>2 * f * p - 2 * q\<bar> \<le> real_of_int p" by (simp only: of_int_le_iff)
  then have "\<bar>2 * real_of_int f * real_of_int p - 2 * real_of_int q\<bar> \<le> real_of_int p"
    by (simp only: of_int_abs of_int_diff of_int_mult of_int_numeral)
  then have "\<bar>real_of_int f - real_of_int q / real_of_int p\<bar> \<le> 1 / 2"
    by (rule half_unit [OF pos])
  then show "\<bar>real (unat (cached_f c)) - 10 powi cached_k c / 2 powi cached_e c\<bar> \<le> 1 / 2"
    unfolding c by (simp only: f_def of_int_of_nat_eq)
  from a(2) show "2 ^ 63 \<le> unat (cached_f c)" unfolding f_def by (metis of_nat_le_iff of_nat_numeral of_nat_power)
qed

section \<open>Scaling\<close>

text \<open>A rounded product, and the product with the power of ten itself.\<close>

lemma rounded_product:
  fixes x c :: nat
  defines "r \<equiv> real ((x * c + 2 ^ 63) div 2 ^ 64)"
  shows "r \<le> real x * real c / 2 ^ 64 + 1 / 2" "real x * real c / 2 ^ 64 - 1 / 2 < r"
proof -
  let ?y = "x * c + 2 ^ 63"
  have "real (?y div 2 ^ 64) * 2 ^ 64 + real (?y mod 2 ^ 64) = real ?y"
    using div_mult_mod_eq [of ?y "2 ^ 64"] by (metis of_nat_add of_nat_mult of_nat_numeral of_nat_power)
  moreover have "real (?y mod 2 ^ 64) < 2 ^ 64" by (metis mod_less_divisor of_nat_less_iff of_nat_numeral of_nat_power zero_less_numeral zero_less_power)
  ultimately have "r * 2 ^ 64 \<le> real x * real c + 2 ^ 63" "real x * real c + 2 ^ 63 < r * 2 ^ 64 + 2 ^ 64"
    by (simp_all add: r_def)
  then show "r \<le> real x * real c / 2 ^ 64 + 1 / 2" "real x * real c / 2 ^ 64 - 1 / 2 < r" by (simp_all add: field_simps)
qed

lemma product_error:
  assumes "\<bar>real c - C\<bar> \<le> 1 / 2" and "x < 2 ^ 64"
  shows "real x * real c / 2 ^ 64 - real x * C / 2 ^ 64 < 1 / 2" "real x * C / 2 ^ 64 - real x * real c / 2 ^ 64 < 1 / 2"
proof -
  have x: "real x < 2 ^ 64" using assms(2) by (metis of_nat_less_iff of_nat_numeral of_nat_power)
  have "\<bar>real x * (real c - C)\<bar> \<le> real x * (1 / 2)" unfolding abs_mult using assms(1) by (intro mult_mono) simp_all
  with x have "\<bar>real x * real c - real x * C\<bar> < 2 ^ 63" by (simp add: right_diff_distrib)
  then show "real x * real c / 2 ^ 64 - real x * C / 2 ^ 64 < 1 / 2" "real x * C / 2 ^ 64 - real x * real c / 2 ^ 64 < 1 / 2"
    by (simp_all add: field_simps)
qed

lemma unat_64: "unat (x :: 64 word) < 2 ^ 64"
proof -
  have "unat x < 2 ^ LENGTH(64)" by (rule unsigned_less)
  then show ?thesis by simp
qed

lemma scaled_arith:
  fixes wp wm H L c :: int
  assumes "wp * 2 ^ 64 \<le> H + 2 ^ 63" "H + 2 ^ 63 < (wp + 1) * 2 ^ 64" "wm * 2 ^ 64 \<le> L + 2 ^ 63"
    and "H \<le> (H - L - 6 * c) * 10 ^ 16" "2 ^ 63 \<le> c"
  shows "wp - 1 \<le> (wp - wm - 2) * 10 ^ 16"
  using assms by simp

lemma scaled_gap:
  fixes lo hi c :: nat
  defines "wm \<equiv> (lo * c + 2 ^ 63) div 2 ^ 64" and "wp \<equiv> (hi * c + 2 ^ 63) div 2 ^ 64"
  assumes "2 ^ 63 \<le> c" and "lo + 6 \<le> hi" and "hi \<le> (hi - lo - 6) * 10 ^ 16" and "wm + 1 \<le> wp - 1"
  shows "wp - 1 \<le> (wp - 1 - (wm + 1)) * 10 ^ 16"
proof -
  have bounds: "x div 2 ^ 64 * 2 ^ 64 \<le> x" "x < (x div 2 ^ 64 + 1) * 2 ^ 64" for x :: nat
    using div_mult_mod_eq [of x "2 ^ 64"] mod_less_divisor [of "2 ^ 64" x] by simp_all
  have "wp * 2 ^ 64 \<le> hi * c + 2 ^ 63" "hi * c + 2 ^ 63 < (wp + 1) * 2 ^ 64" "wm * 2 ^ 64 \<le> lo * c + 2 ^ 63"
    unfolding wp_def wm_def by (rule bounds)+
  then have "int (wp * 2 ^ 64) \<le> int (hi * c + 2 ^ 63)" "int (hi * c + 2 ^ 63) < int ((wp + 1) * 2 ^ 64)"
    "int (wm * 2 ^ 64) \<le> int (lo * c + 2 ^ 63)" unfolding of_nat_le_iff of_nat_less_iff by blast+
  then have p: "int wp * 2 ^ 64 \<le> int (hi * c) + 2 ^ 63" "int (hi * c) + 2 ^ 63 < (int wp + 1) * 2 ^ 64"
    and m: "int wm * 2 ^ 64 \<le> int (lo * c) + 2 ^ 63" by simp_all
  from assms(5) have "int hi \<le> int ((hi - lo - 6) * 10 ^ 16)" by (simp only: of_nat_le_iff)
  then have "int hi \<le> (int hi - int lo - 6) * 10 ^ 16" using assms(4) by (simp add: of_nat_diff)
  then have "int hi * int c \<le> (int hi - int lo - 6) * 10 ^ 16 * int c" by (rule mult_right_mono) simp
  then have h: "int (hi * c) \<le> (int (hi * c) - int (lo * c) - 6 * int c) * 10 ^ 16" by (simp add: algebra_simps)
  have c: "2 ^ 63 \<le> int c" using assms(3) by (metis of_nat_le_iff of_nat_numeral of_nat_power)
  have "int wp - 1 \<le> (int wp - int wm - 2) * 10 ^ 16" by (rule scaled_arith [OF p m h c])
  also have "\<dots> = int ((wp - 1 - (wm + 1)) * 10 ^ 16)" using assms(6) by (simp add: of_nat_diff)
  finally have "int (wp - 1) \<le> int ((wp - 1 - (wm + 1)) * 10 ^ 16)" using assms(6) by (simp add: of_nat_diff)
  then show ?thesis by (simp only: of_nat_le_iff)
qed

text \<open>The decimal number \<open>ds * 10 ^ k\<close>, and what is said of it: digits, no leading zero, at most 17.\<close>

definition decimal_real :: "string \<Rightarrow> int \<Rightarrow> real" where
  "decimal_real ds k = real (decimal_value ds) * 10 powi k"

definition digit_string :: "string \<Rightarrow> bool" where
  "digit_string ds \<longleftrightarrow> ds \<noteq> [] \<and> list_all is_digit ds \<and> hd ds \<noteq> CHR ''0'' \<and> length ds \<le> 17"

lemma decimal_between_real:
  assumes "decimal_between lo hi (2 ^ s) ds x"
  shows "digit_string ds" and "real lo \<le> decimal_real ds x * 2 ^ s" and "decimal_real ds x * 2 ^ s \<le> real hi"
proof -
  show "digit_string ds" using assms by (simp add: decimal_between_def digit_string_def)
  have "real (lo * 10 ^ nat (- x)) \<le> real (decimal_value ds * 10 ^ nat x * 2 ^ s)"
    "real (decimal_value ds * 10 ^ nat x * 2 ^ s) \<le> real (hi * 10 ^ nat (- x))"
    using assms unfolding decimal_between_def of_nat_le_iff by blast+
  then show "real lo \<le> decimal_real ds x * 2 ^ s" "decimal_real ds x * 2 ^ s \<le> real hi"
    by (simp_all add: decimal_real_def powi_quotient field_simps)
qed

lemma grisu2_scaled_spec:
  assumes e: "diy_e m_minus = e" "diy_e v = e" "diy_e m_plus = e" "- 1137 \<le> e" "e \<le> 960"
    and lo: "lo = unat (diy_f m_minus)" and hi: "hi = unat (diy_f m_plus)" and mid: "lo + 4 \<le> unat (diy_f v)" "unat (diy_f v) + 4 \<le> hi"
    and top: "2 ^ 63 \<le> hi" and gap: "hi \<le> (hi - lo - 6) * 10 ^ 16" and buf: "17 \<le> length buf"
  shows "\<exists>ds tail k. grisu2_scaled buf m_minus v m_plus = Inr (ds @ tail, length ds, k) \<and> digit_string ds
    \<and> real lo * 2 powi e < decimal_real ds k \<and> decimal_real ds k < real hi * 2 powi e \<and> length ds + length tail = length buf"
proof -
  obtain c where c: "get_cached_power_for_binary_exponent e = Inr c" "accurate_power c"
    "- 60 \<le> cached_e c + e + 64" "cached_e c + e + 64 \<le> - 32" using get_cached_power_spec [OF e(4,5)] by blast
  let ?c = "unat (cached_f c)" and ?C = "10 powi cached_k c / 2 powi cached_e c :: real"
  note C = cached_power_real [OF c(2)]
  let ?p = "\<lparr>diy_f = cached_f c, diy_e = cached_e c\<rparr>"
  define e' where "e' = e + cached_e c + 64"
  define wm w wp where "wm = (lo * ?c + 2 ^ 63) div 2 ^ 64" and "w = (unat (diy_f v) * ?c + 2 ^ 63) div 2 ^ 64"
    and "wp = (hi * ?c + 2 ^ 63) div 2 ^ 64"
  have u: "unat (diy_f (diyfp_mul m_minus ?p)) = wm" "unat (diy_f (diyfp_mul v ?p)) = w" "unat (diy_f (diyfp_mul m_plus ?p)) = wp"
    by (simp_all only: diyfp_mul_rounds diyfp.select_convs wm_def w_def wp_def lo hi)
  have ue: "diy_e (diyfp_mul m_minus ?p) = e'" "diy_e (diyfp_mul v ?p) = e'" "diy_e (diyfp_mul m_plus ?p) = e'"
    by (simp_all add: diyfp_mul_rounds e e'_def)
  have apart: "(x * ?c + 2 ^ 63) div 2 ^ 64 + 2 \<le> (y * ?c + 2 ^ 63) div 2 ^ 64" if "x + 4 \<le> y" for x y
  proof -
    have "(x + 4) * ?c \<le> y * ?c" using that by (rule mult_right_mono) simp
    then have "x * ?c + 2 ^ 63 + 2 * 2 ^ 64 \<le> y * ?c + 2 ^ 63" using C(2) by (simp add: algebra_simps)
    then have "(x * ?c + 2 ^ 63 + 2 * 2 ^ 64) div 2 ^ 64 \<le> (y * ?c + 2 ^ 63) div 2 ^ 64" by (rule div_le_mono)
    then show ?thesis by simp
  qed
  have order: "wm + 2 \<le> w" "w + 2 \<le> wp" unfolding wm_def w_def wp_def using apart mid by blast+
  have lt: "wm < 2 ^ 64" "wp < 2 ^ 64" "hi < 2 ^ 64" "lo < 2 ^ 64"
    unfolding lo hi u(1) [symmetric] u(3) [symmetric] by (rule unat_64)+
  let ?M_minus = "(diyfp_mul m_minus ?p)\<lparr>diy_f := diy_f (diyfp_mul m_minus ?p) + 1\<rparr>"
    and ?M_plus = "(diyfp_mul m_plus ?p)\<lparr>diy_f := diy_f (diyfp_mul m_plus ?p) - 1\<rparr>"
  have M_minus: "unat (diy_f ?M_minus) = wm + 1" using order lt(2) by (simp add: unat_plus_small u)
  have "1 \<le> diy_f (diyfp_mul m_plus ?p)" using order u(3) by (simp add: word_le_nat_alt)
  then have M_plus: "unat (diy_f ?M_plus) = wp - 1" by (simp add: unat_minus_le u)
  have "2 ^ 63 * 2 ^ 63 \<le> hi * ?c" using top C(2) by (rule mult_le_mono)
  then have "(2 ^ 63 * 2 ^ 63 + 2 ^ 63) div 2 ^ 64 \<le> wp" unfolding wp_def by (intro div_le_mono) simp
  then have "(2 :: nat) ^ 60 \<le> wp - 1" by simp
  moreover have "(2 :: nat) ^ nat (- e') \<le> 2 ^ 60" using c(3) by (intro power_increasing) (simp_all add: e'_def)
  ultimately have top': "2 ^ nat (- e') \<le> unat (diy_f ?M_plus)" unfolding M_plus by linarith
  have gap': "unat (diy_f ?M_plus) \<le> (unat (diy_f ?M_plus) - unat (diy_f ?M_minus)) * 10 ^ 16"
    unfolding M_plus M_minus
    by (rule scaled_gap [where lo = lo and hi = hi and c = ?c, folded wm_def wp_def]) (use C(2) mid gap order in simp_all)
  have "\<exists>ds tail x. grisu2_digit_gen buf 0 (- cached_k c) ?M_minus (diyfp_mul v ?p) ?M_plus = Inr (ds @ tail, length ds, - cached_k c + x)
      \<and> decimal_between (unat (diy_f ?M_minus)) (unat (diy_f ?M_plus)) (2 ^ nat (- e')) ds x \<and> length ds + length tail = length buf"
    by (rule grisu2_digit_gen_spec [OF _ _ _ _ _ _ _ _ top' gap' buf]) (use ue c order u M_minus M_plus in \<open>simp_all add: e'_def\<close>)
  then obtain ds tail x where r: "grisu2_digit_gen buf 0 (- cached_k c) ?M_minus (diyfp_mul v ?p) ?M_plus = Inr (ds @ tail, length ds, - cached_k c + x)"
    "decimal_between (wm + 1) (wp - 1) (2 ^ nat (- e')) ds x" "length ds + length tail = length buf" unfolding M_minus M_plus by blast
  note b = decimal_between_real [OF r(2)]
  have "real (wp - 1) < real hi * ?C / 2 ^ 64"
    using rounded_product(1) [of hi ?c] product_error(1) [OF C(1) lt(3)] order by (simp add: wp_def)
  with b(3) have upper: "decimal_real ds x * 2 ^ nat (- e') < real hi * ?C / 2 ^ 64" by linarith
  have "real lo * ?C / 2 ^ 64 < real (wm + 1)"
    using rounded_product(2) [of lo ?c] product_error(2) [OF C(1) lt(4)] by (simp add: wm_def)
  with b(2) have lower: "real lo * ?C / 2 ^ 64 < decimal_real ds x * 2 ^ nat (- e')" by linarith
  have "?C / 2 ^ 64 / 2 ^ nat (- e') = 10 powi cached_k c * 2 powi e"
  proof -
    have "(2 :: real) ^ nat (- e') = 2 powi (- e')" using c(4) by (simp add: power_int_def e'_def)
    then have "2 powi cached_e c * (2 :: real) ^ 64 * 2 ^ nat (- e') = 2 powi (- e)"
      using power_int_add [of "2 :: real" "cached_e c" 64] power_int_add [of "2 :: real" "cached_e c + 64" "- e'"]
      by (simp add: e'_def)
    then have "?C / 2 ^ 64 / 2 ^ nat (- e') = 10 powi cached_k c / 2 powi (- e)" by (simp only: divide_divide_eq_left)
    then show ?thesis by (simp add: power_int_minus field_simps)
  qed
  then have scale: "y * ?C / 2 ^ 64 = y * 2 powi e * 10 powi cached_k c * 2 ^ nat (- e')" for y
    by (simp add: field_simps)
  have shift: "decimal_real ds (- cached_k c + x) * 10 powi cached_k c = decimal_real ds x"
    using power_int_add [of "10 :: real" "- cached_k c + x" "cached_k c"] by (simp add: decimal_real_def)
  have pos: "0 < (10 powi cached_k c * 2 ^ nat (- e') :: real)" by simp
  have "decimal_real ds (- cached_k c + x) * (10 powi cached_k c * 2 ^ nat (- e')) < real hi * 2 powi e * (10 powi cached_k c * 2 ^ nat (- e'))"
    using upper unfolding scale by (simp only: mult.assoc shift [symmetric])
  then have "decimal_real ds (- cached_k c + x) < real hi * 2 powi e" using pos by (simp only: mult_less_cancel_right_pos)
  moreover have "real lo * 2 powi e * (10 powi cached_k c * 2 ^ nat (- e')) < decimal_real ds (- cached_k c + x) * (10 powi cached_k c * 2 ^ nat (- e'))"
    using lower unfolding scale by (simp only: mult.assoc shift [symmetric])
  then have "real lo * 2 powi e < decimal_real ds (- cached_k c + x)" using pos by (simp only: mult_less_cancel_right_pos)
  moreover have "grisu2_scaled buf m_minus v m_plus = Inr (ds @ tail, length ds, - cached_k c + x)"
    using r(1) by (simp add: grisu2_scaled_def e c(1) Let_def)
  ultimately show ?thesis using b(1) r(3) by blast
qed

section \<open>The digits of a double\<close>

text \<open>The halfway point below \<open>f * 2 ^ e\<close>, in units of \<open>2 ^ e\<close>: nearer when the double below has a smaller exponent.\<close>

definition below :: "nat \<Rightarrow> int \<Rightarrow> real" where
  "below f e = (if f = 2 ^ 52 \<and> - 1074 < e then real f - 1 / 4 else real f - 1 / 2)"

lemma shift_power: "(2 :: real) powi e = 2 ^ s * 2 * 2 powi (e - 1 - int s)"
proof -
  have "(2 :: real) powi e = 2 powi int (Suc s) * 2 powi (e - 1 - int s)"
    using power_int_add [of "2 :: real" "int (Suc s)" "e - 1 - int s"] by simp
  then show ?thesis by (simp only: power_int_of_nat power_Suc2)
qed

lemma halfway_below_real:
  assumes "0 < f" "1 \<le> s"
  shows "real (halfway_below f e s) * 2 powi (e - 1 - int s) = below f e * 2 powi e"
proof -
  have "real (halfway_below f e s) = below f e * (2 ^ s * 2)"
    using assms by (cases s) (simp_all add: halfway_below_def below_def of_nat_diff algebra_simps)
  then show ?thesis by (simp add: shift_power [of e s])
qed

lemma boundaries_apart:
  assumes f: "0 < f" "f < 2 ^ 53" and s: "10 \<le> s"
  shows "halfway_below f e s + 4 \<le> 2 * f * 2 ^ s" and "2 * f * 2 ^ s + 4 \<le> (2 * f + 1) * 2 ^ s"
    and "(2 * f + 1) * 2 ^ s \<le> ((2 * f + 1) * 2 ^ s - halfway_below f e s - 6) * 10 ^ 16"
proof -
  obtain t where t: "s = Suc t" using s by (cases s) simp_all
  define B :: nat where "B = 2 ^ t"
  have "(2 :: nat) ^ 9 \<le> B" unfolding B_def by (rule power_increasing) (use s t in simp_all)
  then have B: "512 \<le> B" "2 ^ s = 2 * B" by (simp_all add: B_def t)
  obtain g where g: "f = Suc g" using f(1) by (cases f) simp_all
  show "2 * f * 2 ^ s + 4 \<le> (2 * f + 1) * 2 ^ s" using B by (simp add: algebra_simps)
  have "\<exists>d. 512 \<le> d \<and> halfway_below f e s + d = 2 * f * 2 ^ s \<and> (2 * f + 1) * 2 ^ s \<le> (2 * B + d - 6) * 10 ^ 16"
  proof (cases "f = 2 ^ 52 \<and> - 1074 < e")
    case True
    then show ?thesis using B by (intro exI [of _ B]) (simp add: halfway_below_def t B_def)
  next
    case False
    have "2 * f + 1 \<le> 2 ^ 54" using f(2) by simp
    then have "(2 * f + 1) * (2 * B) \<le> 2 ^ 54 * (2 * B)" by (rule mult_right_mono) simp
    also have "\<dots> \<le> (2 * B + 2 * B - 6) * 10 ^ 16" using B by (simp add: diff_mult_distrib)
    finally show ?thesis using False B by (intro exI [of _ "2 * B"]) (auto simp: halfway_below_def g algebra_simps)
  qed
  then obtain d where d: "512 \<le> d" "halfway_below f e s + d = 2 * f * 2 ^ s" "(2 * f + 1) * 2 ^ s \<le> (2 * B + d - 6) * 10 ^ 16"
    by blast
  show "halfway_below f e s + 4 \<le> 2 * f * 2 ^ s" using d by linarith
  have "(2 * f + 1) * 2 ^ s = 2 * f * 2 ^ s + 2 * B" using B(2) by (simp add: algebra_simps)
  then have "(2 * f + 1) * 2 ^ s - halfway_below f e s - 6 = 2 * B + d - 6" using d(2) by linarith
  with d(3) show "(2 * f + 1) * 2 ^ s \<le> ((2 * f + 1) * 2 ^ s - halfway_below f e s - 6) * 10 ^ 16" by simp
qed

lemma normalised_shift:
  fixes f s :: nat
  assumes "2 ^ 63 \<le> (2 * f + 1) * 2 ^ s" "(2 * f + 1) * 2 ^ s < 2 ^ 64" "0 < f" "f < 2 ^ 53"
  shows "10 \<le> s" "s \<le> 62"
proof -
  show "10 \<le> s"
  proof (rule ccontr)
    assume "\<not> 10 \<le> s"
    then have "2 ^ s \<le> (2 :: nat) ^ 9" by (intro power_increasing) simp_all
    then have "(2 * f + 1) * 2 ^ s \<le> (2 ^ 54 - 1) * 2 ^ 9" using assms(4) by (intro mult_le_mono) simp_all
    with assms(1) show False by simp
  qed
  show "s \<le> 62"
  proof (rule ccontr)
    assume "\<not> s \<le> 62"
    then have "(2 :: nat) ^ 63 \<le> 2 ^ s" by (intro power_increasing) simp_all
    then have "3 * 2 ^ 63 \<le> (2 * f + 1) * 2 ^ s" using assms(3) by (intro mult_le_mono) simp_all
    with assms(2) show False by simp
  qed
qed

lemma grisu2_spec:
  assumes x: "isfinite x" "\<not> signbit x" "x \<noteq> 0" and buf: "17 \<le> length buf"
  obtains f e ds tail k where "double_parts x f e" "grisu2 buf x = Inr (ds @ tail, length ds, k)" "digit_string ds"
    "length ds + length tail = length buf" "below f e * 2 powi e < decimal_real ds k" "decimal_real ds k < (real f + 1 / 2) * 2 powi e"
proof -
  define f e where fe: "f = unat (diy_f (diyfp_of_double x))" "e = diy_e (diyfp_of_double x)"
  have p: "double_parts x f e" using diyfp_of_double_parts(1) [OF x] by (simp only: fe)
  then have f: "0 < f" "f < 2 ^ 53" and e: "- 1074 \<le> e" "e \<le> 971" by (simp_all add: double_parts_def)
  obtain b s where b: "compute_boundaries x = Inr b" "diy_e (bound_plus b) = e - 1 - int s" "diy_e (bound_minus b) = e - 1 - int s"
      "diy_e (bound_w b) = e - 1 - int s" "unat (diy_f (bound_plus b)) = (2 * f + 1) * 2 ^ s" "unat (diy_f (bound_w b)) = 2 * f * 2 ^ s"
      "unat (diy_f (bound_minus b)) = halfway_below f e s" "2 ^ 63 \<le> (2 * f + 1) * 2 ^ s"
    using compute_boundaries_spec [OF x p fe] by blast
  have "(2 * f + 1) * 2 ^ s < 2 ^ 64" using unat_64 [of "diy_f (bound_plus b)"] by (simp only: b)
  note s = normalised_shift [OF b(8) this f]
  note apart = boundaries_apart [OF f s(1)]
  have "\<exists>ds tail k. grisu2_scaled buf (bound_minus b) (bound_w b) (bound_plus b) = Inr (ds @ tail, length ds, k) \<and> digit_string ds
    \<and> real (halfway_below f e s) * 2 powi (e - 1 - int s) < decimal_real ds k
    \<and> decimal_real ds k < real ((2 * f + 1) * 2 ^ s) * 2 powi (e - 1 - int s) \<and> length ds + length tail = length buf"
    by (rule grisu2_scaled_spec) (use b apart s e buf in simp_all)
  then obtain ds tail k where d: "grisu2_scaled buf (bound_minus b) (bound_w b) (bound_plus b) = Inr (ds @ tail, length ds, k)" "digit_string ds"
    "real (halfway_below f e s) * 2 powi (e - 1 - int s) < decimal_real ds k"
    "decimal_real ds k < real ((2 * f + 1) * 2 ^ s) * 2 powi (e - 1 - int s)" "length ds + length tail = length buf" by blast
  have "real ((2 * f + 1) * 2 ^ s) * 2 powi (e - 1 - int s) = (real f + 1 / 2) * 2 powi e"
    by (simp add: shift_power [of e s] algebra_simps)
  moreover have "real (halfway_below f e s) * 2 powi (e - 1 - int s) = below f e * 2 powi e"
    using f s by (intro halfway_below_real) simp_all
  moreover have "grisu2 buf x = Inr (ds @ tail, length ds, k)" using d(1) b(1) x by (simp add: grisu2_def)
  ultimately show thesis using that p d by metis
qed

text \<open>
  C16: the digits Grisu2 generates for a positive finite double \<open>f * 2 ^ e\<close> are at most 17, without a
  leading zero, and the decimal number \<open>ds * 10 ^ k\<close> they form lies strictly between the points
  halfway to the neighbouring doubles, so that it is nearer to this double than to any other; no
  assertion of the algorithm is violated and nothing is written outside the buffer.
\<close>

theorem grisu2_digits:
  assumes "isfinite x" "\<not> signbit x" "x \<noteq> 0" and "17 \<le> length buf"
  shows "\<exists>f e ds tail k. double_parts x f e \<and> grisu2 buf x = Inr (ds @ tail, length ds, k) \<and> digit_string ds
    \<and> length ds + length tail = length buf \<and> below f e * 2 powi e < decimal_real ds k \<and> decimal_real ds k < (real f + 1 / 2) * 2 powi e"
  by (rule grisu2_spec [OF assms]) blast

theorem grisu2_digits_witness:
  "\<exists>f e ds tail k. double_parts 0x3FB999999999999A f e \<and> grisu2 (replicate 17 (CHR 0x00)) 0x3FB999999999999A = Inr (ds @ tail, length ds, k)
    \<and> digit_string ds \<and> length ds + length tail = length (replicate 17 (CHR 0x00))
    \<and> below f e * 2 powi e < decimal_real ds k \<and> decimal_real ds k < (real f + 1 / 2) * 2 powi e"
proof (rule grisu2_digits)
  show "isfinite 0x3FB999999999999A" "\<not> signbit 0x3FB999999999999A" by code_simp+
qed simp_all

text \<open>
  The power of ten that is looked up for the binary exponent of any normalised double is in the
  table, differs by at most half a unit from the real power it stands for, has a normalised
  significand, and brings the exponent of the product into the range from - 60 to - 32 that the
  generation of the digits needs.
\<close>

lemma cached_power_accurate:
  assumes "- 1137 \<le> e" "e \<le> 960"
  shows "\<exists>c. get_cached_power_for_binary_exponent e = Inr c
    \<and> \<bar>real (unat (cached_f c)) - 10 powi cached_k c / 2 powi cached_e c\<bar> \<le> 1 / 2 \<and> 2 ^ 63 \<le> unat (cached_f c)
    \<and> - 60 \<le> cached_e c + e + 64 \<and> cached_e c + e + 64 \<le> - 32"
  using get_cached_power_spec [OF assms] cached_power_real by blast

end
