(* ===== verification/Json_Float_Text.thy ===== *)
theory Json_Float_Text
  imports Json_Grisu
begin

text \<open>
  The layout of the digits as text: \<open>to_chars\<close> is total and stays inside the buffer, and the text
  is one of four layouts, which hold the digits, a point and perhaps an exponent.
\<close>

section \<open>The four layouts\<close>

definition exponent_text :: "int \<Rightarrow> string" where
  "exponent_text e =
     (if e < 0 then CHR ''-'' else CHR ''+'') # (if \<bar>e\<bar> < 10 then ''0'' else []) @ digits (nat \<bar>e\<bar>)"

definition float_layout :: "string \<Rightarrow> int \<Rightarrow> string" where
  "float_layout ds k =
     (let n = int (length ds) + k
      in if int (length ds) \<le> n \<and> n \<le> 15 then ds @ replicate (nat k) (CHR ''0'') @ ''.0''
         else if 0 < n \<and> n \<le> 15 then take (nat n) ds @ ''.'' @ drop (nat n) ds
         else if - 4 < n \<and> n \<le> 0 then ''0.'' @ replicate (nat (- n)) (CHR ''0'') @ ds
         else take 1 ds @ (if length ds = 1 then [] else ''.'' @ drop 1 ds) @ ''e'' @ exponent_text (n - 1))"

lemma written_digits:
  "k < 10 \<Longrightarrow> [digit_char k] = digits k"
  "\<not> k < 10 \<Longrightarrow> k < 100 \<Longrightarrow> [digit_char (k div 10), digit_char (k mod 10)] = digits k"
  "\<not> k < 100 \<Longrightarrow> k < 1000 \<Longrightarrow> [digit_char (k div 100), digit_char (k mod 100 div 10), digit_char (k mod 100 mod 10)] = digits k"
proof -
  show "[digit_char k] = digits k" if "k < 10" using that by (simp add: digits_small digit_char_digit)
  show "[digit_char (k div 10), digit_char (k mod 10)] = digits k" if "\<not> k < 10" "k < 100"
    using that by (simp add: digits_step digits_small digit_char_digit)
  assume k: "\<not> k < 100" "k < 1000"
  have d: "k mod 100 div 10 \<le> 9" "k mod 100 mod 10 \<le> 9" by (simp_all add: less_Suc_eq_le [symmetric] less_mult_imp_div_less)
  have "k div 10 div 10 = k div 100" "k div 10 mod 10 = k mod 100 div 10" "k mod 10 = k mod 100 mod 10"
    by (simp_all add: div_mult2_eq [symmetric] mod_mult2_eq [of k 10 10, simplified] mod_mod_cancel)
  moreover have "\<not> k div 10 < 10" "k div 10 div 10 < 10" using k by simp_all
  ultimately show "[digit_char (k div 100), digit_char (k mod 100 div 10), digit_char (k mod 100 mod 10)] = digits k"
    using k digit_char_digit [OF d(1)] digit_char_digit [OF d(2)]
    by (simp add: digits_step [of k] digits_step [of "k div 10"] not_less digits_small digit_char_digit)
qed

section \<open>Writing into the buffer\<close>

lemma store_at: "i = length p \<Longrightarrow> store_char i c (p @ x # r) = Inr (p @ c # r)"
  by (simp add: store_char_def)

lemma split_four: "4 \<le> length r \<Longrightarrow> \<exists>w x y z r'. r = w # x # y # z # r'"
  by (cases r; cases "tl r"; cases "tl (tl r)"; cases "tl (tl (tl r))") auto

lemma append_exponent_text:
  assumes "i = length p" "4 \<le> length r" "\<bar>e\<bar> < 1000"
  shows "\<exists>r'. append_exponent (p @ r) i e = Inr (p @ exponent_text e @ r', length (p @ exponent_text e))"
proof -
  obtain w x y z r' where r: "r = w # x # y # z # r'" using split_four [OF assms(2)] by blast
  have i: "Suc i = length (p @ [a])" "Suc (Suc i) = length (p @ [a, b])" "Suc (Suc (Suc i)) = length (p @ [a, b, c])" for a b c
    using assms(1) by simp_all
  have st': "store_char i a (p @ w # q) = Inr (p @ a # q)" "store_char (i + 1) a (p @ w # x # q) = Inr (p @ w # a # q)"
    "store_char (i + 2) a (p @ w # x # y # q) = Inr (p @ w # x # a # q)"
    "store_char (i + 3) a (p @ w # x # y # z # q) = Inr (p @ w # x # y # a # q)" for a w x y z q
    using store_at [of i p] store_at [of "i + 1" "p @ [w]"] store_at [of "i + 2" "p @ [w, x]"] store_at [of "i + 3" "p @ [w, x, y]"] assms(1)
    by simp_all
  note st = st' [unfolded assms(1), simplified]
  define k where "k = nat \<bar>e\<bar>"
  have k: "k < 1000" "- 1000 < e \<and> e < 1000" using assms(3) by (auto simp: k_def)
  have t: "exponent_text e = (if e < 0 then CHR ''-'' else CHR ''+'') # (if k < 10 then ''0'' else []) @ digits k"
    by (simp add: exponent_text_def k_def nat_less_iff)
  consider "k < 10" | "\<not> k < 10" "k < 100" | "\<not> k < 100" by linarith
  then show ?thesis
  proof cases
    case 1
    then show ?thesis using k assms(1)
      by (simp add: append_exponent_def r t k_def [symmetric] Let_def st written_digits(1) [symmetric])
  next
    case 2
    then show ?thesis using k assms(1)
      by (simp add: append_exponent_def r t k_def [symmetric] Let_def st written_digits(2) [symmetric])
  next
    case 3
    then show ?thesis using k assms(1)
      by (simp add: append_exponent_def r t k_def [symmetric] Let_def st written_digits(3) [symmetric])
  qed
qed

lemma format_integer:
  assumes "length ds + length tail \<ge> 23" "0 \<le> k" "int (length ds) + k \<le> 15"
  shows "\<exists>r. format_buffer (ds @ tail) (length ds) k (- 4) 15 = Inr (float_layout ds k @ r, length (float_layout ds k))"
proof -
  obtain j where j: "k = int j" using assms(2) nonneg_int_cases by blast
  define zs where "zs = replicate j (CHR ''0'')"
  obtain x y r where r: "drop j tail = x # y # r"
  proof -
    have "2 \<le> length (drop j tail)" using assms j by simp
    then show ?thesis using that by (cases "drop j tail"; cases "tl (drop j tail)") auto
  qed
  have m: "memset (length ds) (CHR ''0'') j (ds @ tail) = Inr ((ds @ zs) @ x # y # r)"
    using assms j by (simp add: memset_def r [symmetric] zs_def)
  have s: "store_char (length ds + j) (CHR ''.'') ((ds @ zs) @ x # y # r) = Inr ((ds @ zs @ ''.'') @ y # r)"
    "store_char (length ds + j + 1) (CHR ''0'') ((ds @ zs @ ''.'') @ y # r) = Inr ((ds @ zs @ ''.'') @ CHR ''0'' # r)"
    using store_at [of "length ds + j" "ds @ zs" "CHR ''.''" x "y # r"]
    by (simp_all add: zs_def store_char_def list_update_append)
  have l: "float_layout ds k = ds @ zs @ ''.0''" using assms j by (simp add: float_layout_def Let_def zs_def)
  have n: "nat (int (length ds) + k) = length ds + j" "length ds + j - length ds = j" using j by simp_all
  have c: "int (length ds) \<le> int (length ds) + k" using assms by simp
  have "format_buffer (ds @ tail) (length ds) k (- 4) 15 = Inr ((ds @ zs @ ''.'') @ CHR ''0'' # r, length ds + j + 2)"
    using c assms(3) by (simp only: format_buffer_def Let_def n m s bindr_simps) simp
  then show ?thesis unfolding l by (simp add: zs_def)
qed

lemma format_point:
  assumes "length ds + length tail \<ge> 23" "k < 0" "0 < int (length ds) + k" "int (length ds) + k \<le> 15" "length ds \<le> 17"
  shows "\<exists>r. format_buffer (ds @ tail) (length ds) k (- 4) 15 = Inr (float_layout ds k @ r, length (float_layout ds k))"
proof -
  define n where "n = nat (int (length ds) + k)"
  have n: "int (length ds) + k = int n" "n < length ds" using assms by (simp_all add: n_def)
  have ds: "ds = take n ds @ ds ! n # drop (Suc n) ds" using n(2) by (simp add: id_take_nth_drop [symmetric])
  have m: "memmove (n + 1) n (length ds - n) (ds @ tail) = Inr (take n ds @ ds ! n # drop n ds @ drop 1 tail)"
    using n assms by (simp add: memmove_def take_Suc_conv_app_nth Suc_diff_le)
  have s: "store_char n (CHR ''.'') (take n ds @ ds ! n # drop n ds @ drop 1 tail) = Inr (take n ds @ CHR ''.'' # drop n ds @ drop 1 tail)"
    by (rule store_at) (use n in simp)
  have l: "float_layout ds k = take n ds @ ''.'' @ drop n ds" using assms n by (simp add: float_layout_def Let_def)
  have "format_buffer (ds @ tail) (length ds) k (- 4) 15 = Inr (take n ds @ CHR ''.'' # drop n ds @ drop 1 tail, length ds + 1)"
    using n assms by (simp add: format_buffer_def Let_def m [simplified] s [simplified])
  then show ?thesis unfolding l using n by simp
qed

lemma format_fraction:
  assumes "length ds + length tail \<ge> 23" "- 4 < int (length ds) + k" "int (length ds) + k \<le> 0" "0 < length ds" "length ds \<le> 17"
  shows "\<exists>r. format_buffer (ds @ tail) (length ds) k (- 4) 15 = Inr (float_layout ds k @ r, length (float_layout ds k))"
proof -
  define z where "z = nat (- (int (length ds) + k))"
  have z: "int (length ds) + k = - int z" "z < 4" using assms by (simp_all add: z_def)
  obtain r where m: "memmove (2 + z) 0 (length ds) (ds @ tail) = Inr (take (2 + z) (ds @ tail) @ ds @ r)"
    using assms z by (simp add: memmove_def)
  obtain a b q where q: "take (2 + z) (ds @ tail) = a # b # q" "length q = z"
  proof -
    have "length (take (2 + z) (ds @ tail)) = 2 + z" using assms z by simp
    then show ?thesis using that by (cases "take (2 + z) (ds @ tail)"; cases "tl (take (2 + z) (ds @ tail))") auto
  qed
  have s: "store_char 0 (CHR ''0'') (a # b # q @ ds @ r) = Inr (CHR ''0'' # b # q @ ds @ r)"
    "store_char 1 (CHR ''.'') (CHR ''0'' # b # q @ ds @ r) = Inr (CHR ''0'' # CHR ''.'' # q @ ds @ r)"
    by (simp_all add: store_char_def)
  have t: "memset 2 (CHR ''0'') z (CHR ''0'' # CHR ''.'' # q @ ds @ r) = Inr (''0.'' @ replicate z (CHR ''0'') @ ds @ r)"
    using q(2) by (simp add: memset_def numeral_2_eq_2)
  have c: "\<not> int (length ds) \<le> - int z" "\<not> 0 < - int z" "- 4 < - int z" "- int z \<le> 0" using assms(4) z(2) by linarith+
  have l: "float_layout ds k = ''0.'' @ replicate z (CHR ''0'') @ ds"
    unfolding float_layout_def Let_def z(1) using c by simp
  have "format_buffer (ds @ tail) (length ds) k (- 4) 15 = Inr (''0.'' @ replicate z (CHR ''0'') @ ds @ r, 2 + z + length ds)"
    unfolding format_buffer_def Let_def z(1) minus_minus nat_int m
    using c by (simp only: q append_Cons bindr_simps s t simp_thms if_False if_True) simp
  then show ?thesis unfolding l by simp
qed

lemma format_exponent:
  assumes len: "length ds + length tail \<ge> 23" and out: "int (length ds) + k \<le> - 4 \<or> 15 < int (length ds) + k"
    and ds: "0 < length ds" "length ds \<le> 17" and e: "\<bar>int (length ds) + k - 1\<bar> < 1000"
  shows "\<exists>r. format_buffer (ds @ tail) (length ds) k (- 4) 15 = Inr (float_layout ds k @ r, length (float_layout ds k))"
proof -
  let ?n = "int (length ds) + k"
  have c: "\<not> (int (length ds) \<le> ?n \<and> ?n \<le> 15)" "\<not> (0 < ?n \<and> ?n \<le> 15)" "\<not> (- 4 < ?n \<and> ?n \<le> 0)" using out by auto
  obtain d r where d: "ds = d # r" using ds by (cases ds) simp_all
  show ?thesis
  proof (cases "r = []")
    case True
    obtain x q where x: "tail = x # q" using len ds d True by (cases tail) simp_all
    have "4 \<le> length q" using len d True x by simp
    from append_exponent_text [of 2 "[d, CHR ''e'']", OF _ this e] obtain r' where
      a: "append_exponent (d # CHR ''e'' # q) 2 (?n - 1) = Inr ((d # CHR ''e'' # exponent_text (?n - 1)) @ r', length (d # CHR ''e'' # exponent_text (?n - 1)))"
      by auto
    have k1: "(length ds = 1) = True" using d True by simp
    have s: "store_char 1 (CHR ''e'') (ds @ tail) = Inr (d # CHR ''e'' # q)" by (simp add: store_char_def d True x)
    have l: "float_layout ds k = d # CHR ''e'' # exponent_text (?n - 1)"
      using c by (simp only: float_layout_def Let_def if_False) (simp add: d True)
    have "format_buffer (ds @ tail) (length ds) k (- 4) 15 = append_exponent (d # CHR ''e'' # q) 2 (?n - 1)"
      unfolding format_buffer_def Let_def using c k1 by (simp only: if_False if_True s bindr_simps) simp
    with a l show ?thesis by simp
  next
    case False
    obtain x y q where q: "tail = x # y # q" using len ds by (cases tail; cases "tl tail") auto
    have k1: "length ds \<noteq> 1" "length ds = Suc (length r)" using d False by simp_all
    obtain b r2 where b: "r = b # r2" using False by (cases r) simp_all
    have m: "memmove 2 1 (length ds - 1) (ds @ tail) = Inr (d # b # r @ y # q)"
      using len ds by (simp add: memmove_def d b q numeral_2_eq_2)
    have s: "store_char 1 (CHR ''.'') (d # b # r @ y # q) = Inr (d # CHR ''.'' # r @ y # q)" by (simp add: store_char_def)
    have t: "store_char (length ds + 1) (CHR ''e'') (d # CHR ''.'' # r @ y # q) = Inr ((d # CHR ''.'' # r @ ''e'') @ q)"
      using store_at [of "length ds + 1" "d # CHR ''.'' # r" "CHR ''e''" y q] d by simp
    have "4 \<le> length q" using len ds q by simp
    from append_exponent_text [of "length ds + 2" "d # CHR ''.'' # r @ ''e''", OF _ this e] obtain r' where
      a: "append_exponent ((d # CHR ''.'' # r @ ''e'') @ q) (length ds + 2) (?n - 1)
        = Inr ((d # CHR ''.'' # r @ ''e'') @ exponent_text (?n - 1) @ r', length ((d # CHR ''.'' # r @ ''e'') @ exponent_text (?n - 1)))"
      using d by auto
    have l: "float_layout ds k = d # CHR ''.'' # r @ ''e'' @ exponent_text (?n - 1)"
      using c by (simp only: float_layout_def Let_def if_False) (simp add: d False)
    have "format_buffer (ds @ tail) (length ds) k (- 4) 15 = append_exponent ((d # CHR ''.'' # r @ ''e'') @ q) (length ds + 2) (?n - 1)"
      unfolding format_buffer_def Let_def using c k1(1) by (simp only: if_False m s t bindr_simps) simp
    with a l show ?thesis by simp
  qed
qed

lemma format_buffer_spec:
  assumes "digit_string ds" "length ds + length tail \<ge> 23" "\<bar>int (length ds) + k - 1\<bar> < 1000"
  shows "\<exists>r. format_buffer (ds @ tail) (length ds) k (- 4) 15 = Inr (float_layout ds k @ r, length (float_layout ds k))"
proof -
  have ds: "0 < length ds" "length ds \<le> 17" using assms(1) by (simp_all add: digit_string_def)
  consider "0 \<le> k" "int (length ds) + k \<le> 15" | "k < 0" "0 < int (length ds) + k" "int (length ds) + k \<le> 15"
    | "- 4 < int (length ds) + k" "int (length ds) + k \<le> 0" | "int (length ds) + k \<le> - 4 \<or> 15 < int (length ds) + k" by linarith
  then show ?thesis by cases (use assms ds in \<open>auto intro: format_integer format_point format_fraction format_exponent\<close>)
qed

section \<open>The text of a double\<close>

lemma decimal_value_upper: "list_all is_digit ds \<Longrightarrow> decimal_value ds < 10 ^ length ds"
proof (induction ds rule: rev_induct)
  case (snoc c ds)
  then have "decimal_value ds < 10 ^ length ds" "digit_value c \<le> 9" by (auto simp: is_digit_def digit_value_def)
  then show ?case by (simp add: decimal_value_snoc)
qed simp

text \<open>The decimal \<open>ds * 10 ^ k\<close> stands for the double: it lies strictly between the halfway points.\<close>

definition decimal_of :: "64 word \<Rightarrow> string \<Rightarrow> int \<Rightarrow> bool" where
  "decimal_of x ds k \<longleftrightarrow> digit_string ds \<and> \<bar>int (length ds) + k - 1\<bar> < 1000
     \<and> (\<exists>f e. double_parts x f e \<and> below f e * 2 powi e < decimal_real ds k \<and> decimal_real ds k < (real f + 1 / 2) * 2 powi e)"

lemma decimal_real_range:
  assumes "digit_string ds"
  shows "10 powi (int (length ds) + k - 1) \<le> decimal_real ds k" and "decimal_real ds k < 10 powi (int (length ds) + k)"
proof -
  have ds: "ds \<noteq> []" "list_all is_digit ds" "hd ds \<noteq> CHR ''0''" using assms by (simp_all add: digit_string_def)
  have "10 powi (int (length ds) + k - 1) = (10 :: real) powi int (length ds - 1) * 10 powi k"
  proof -
    have "0 < length ds" using ds(1) by (rule length_greater_0_conv [THEN iffD2])
    then have "int (length ds) + k - 1 = int (length ds - 1) + k" by linarith
    then show ?thesis by (simp only:) (rule power_int_add, rule disjI1, simp)
  qed
  also have "\<dots> \<le> real (decimal_value ds) * 10 powi k"
  proof (rule mult_right_mono)
    have "real (10 ^ (length ds - 1)) \<le> real (decimal_value ds)" using decimal_value_lower [OF ds] by (simp only: of_nat_le_iff)
    then show "10 powi int (length ds - 1) \<le> real (decimal_value ds)" by (simp only: power_int_of_nat of_nat_power of_nat_numeral)
  qed simp
  finally show "10 powi (int (length ds) + k - 1) \<le> decimal_real ds k" by (simp add: decimal_real_def)
  have "decimal_value ds < 10 ^ length ds" by (rule decimal_value_upper [OF ds(2)])
  then have "real (decimal_value ds) < 10 ^ length ds" by (metis of_nat_less_iff of_nat_numeral of_nat_power)
  then have "decimal_real ds k < 10 ^ length ds * 10 powi k" unfolding decimal_real_def by (intro mult_strict_right_mono) simp_all
  also have "\<dots> = 10 powi (int (length ds) + k)" by (simp add: power_int_add)
  finally show "decimal_real ds k < 10 powi (int (length ds) + k)" .
qed

lemma ten_less: "(10 :: real) powi i < 10 powi j \<Longrightarrow> i < j"
  using power_int_increasing [of j i "10 :: real"] by force

lemma decimal_exponent_range:
  assumes "digit_string ds" "double_parts x f e" "below f e * 2 powi e < decimal_real ds k" "decimal_real ds k < (real f + 1 / 2) * 2 powi e"
  shows "\<bar>int (length ds) + k - 1\<bar> < 1000"
proof -
  define n where "n = int (length ds) + k"
  have f: "1 \<le> f" "f < 2 ^ 53" and e: "- 1074 \<le> e" "e \<le> 971" using assms(2) by (simp_all add: double_parts_def)
  note r = decimal_real_range [OF assms(1), of k, folded n_def]
  have eight: "(8 :: real) ^ m \<le> 10 ^ m" for m by (rule power_mono) simp_all
  have "real f + 1 / 2 \<le> 2 ^ 53"
  proof -
    have "real (f + 1) \<le> real (2 ^ 53)" using f(2) by (simp only: of_nat_le_iff)
    then show ?thesis by simp
  qed
  then have "(real f + 1 / 2) * 2 powi e \<le> 2 ^ 53 * 2 powi 971" using e by (intro mult_mono power_int_increasing) simp_all
  also have "\<dots> \<le> 8 ^ 400" by simp
  finally have "10 powi (n - 1) < (10 :: real) powi 400" using r(1) assms(4) eight [of 400] by simp
  then have up: "n - 1 < 400" by (rule ten_less)
  have "1 / 4 * 2 powi - 1074 \<le> below f e * 2 powi e" using f e by (intro mult_mono power_int_increasing) (simp_all add: below_def)
  then have "2 powi - 1076 < (10 :: real) powi n" using r(2) assms(3) by (simp add: power_int_minus)
  moreover have "10 powi - 400 \<le> (2 :: real) powi - 1076" by (simp add: power_int_minus)
  ultimately have "10 powi - 400 < (10 :: real) powi n" by linarith
  then have "- 400 < n" by (rule ten_less)
  with up show ?thesis by (simp add: n_def)
qed

lemma to_chars_positive_spec:
  assumes "isfinite x" "\<not> signbit x" "x \<noteq> 0" "23 \<le> length first"
  obtains ds k where "to_chars_positive first x = Inr (float_layout ds k)" "decimal_of x ds k"
proof -
  have l: "17 \<le> length first" using assms(4) by simp
  obtain f e ds tail k where g: "double_parts x f e" "grisu2 first x = Inr (ds @ tail, length ds, k)" "digit_string ds"
    "length ds + length tail = length first" "below f e * 2 powi e < decimal_real ds k" "decimal_real ds k < (real f + 1 / 2) * 2 powi e"
    by (rule grisu2_spec [OF assms(1-3) l])
  have r: "\<bar>int (length ds) + k - 1\<bar> < 1000" by (rule decimal_exponent_range [OF g(3,1,5,6)])
  have "23 \<le> length ds + length tail" using g(4) assms(4) by simp
  then obtain q where "format_buffer (ds @ tail) (length ds) k (- 4) 15 = Inr (float_layout ds k @ q, length (float_layout ds k))"
    using format_buffer_spec [OF g(3) _ r] by blast
  then have "to_chars_positive first x = Inr (float_layout ds k)"
    using assms g(2,3) by (simp add: to_chars_positive_def digit_string_def)
  moreover have "decimal_of x ds k" unfolding decimal_of_def using g r by blast
  ultimately show thesis by (rule that)
qed

lemma flip_sign:
  assumes "signbit x"
  shows "\<not> signbit (x XOR push_bit 63 1)" "isfinite (x XOR push_bit 63 1) \<longleftrightarrow> isfinite x" "x = 2 ^ 63 + (x XOR push_bit 63 1)"
proof -
  define s :: "64 word" where "s = push_bit 63 1"
  have s: "bit s n \<longleftrightarrow> n = 63" for n
    unfolding s_def bit_push_bit_iff by (auto simp: bit_1_iff)
  have b: "bit (x XOR s) n \<longleftrightarrow> n \<noteq> 63 \<and> bit x n" for n
    using assms by (auto simp: signbit_def bit_xor_iff s)
  show "\<not> signbit (x XOR push_bit 63 1)" unfolding s_def [symmetric] signbit_def by (simp add: b)
  have "drop_bit 52 (x XOR s) AND 0x7FF = drop_bit 52 x AND 0x7FF"
  proof (rule bit_word_eqI)
    fix n
    have "bit (0x7FF :: 64 word) n \<longleftrightarrow> n < 11"
    proof -
      have "(0x7FF :: 64 word) = mask 11" by (simp add: mask_eq_exp_minus_1)
      moreover have "bit (mask 11 :: 64 word) n \<longleftrightarrow> n < 11" unfolding bit_mask_iff by auto
      ultimately show ?thesis by (simp only:)
    qed
    then show "bit (drop_bit 52 (x XOR s) AND 0x7FF) n \<longleftrightarrow> bit (drop_bit 52 x AND 0x7FF) n"
      unfolding bit_and_iff bit_drop_bit_eq comp_apply b by auto
  qed
  then show "isfinite (x XOR push_bit 63 1) \<longleftrightarrow> isfinite x" by (simp add: isfinite_def s_def)
  have "x = s OR (x XOR s)" by (rule bit_word_eqI) (use assms in \<open>auto simp: bit_or_iff b s signbit_def\<close>)
  moreover have "s AND (x XOR s) = 0" by (rule bit_word_eqI) (auto simp: bit_and_iff b s)
  ultimately have "x = s + (x XOR s)" by (metis disjunctive_add_eq_or)
  moreover have "s = 2 ^ 63" by (simp add: s_def push_bit_eq_mult)
  ultimately show "x = 2 ^ 63 + (x XOR push_bit 63 1)" by (simp only: s_def)
qed

definition float_text :: "64 word \<Rightarrow> string" where
  "float_text x = (case dump_float x of Inr t \<Rightarrow> t | Inl e \<Rightarrow> [])"

text \<open>The text of a finite double, by sign.\<close>

definition positive_text :: "64 word \<Rightarrow> string \<Rightarrow> bool" where
  "positive_text y t \<longleftrightarrow> y = 0 \<and> t = ''0.0'' \<or> (\<exists>ds k. decimal_of y ds k \<and> t = float_layout ds k)"

lemma to_chars_positive_text:
  assumes "isfinite x" "\<not> signbit x" "23 \<le> length first"
  obtains t where "to_chars_positive first x = Inr t" "positive_text x t"
proof (cases "x = 0")
  case True
  obtain a b c r where "first = a # b # c # r" using assms(3) split_four [of first] by auto
  then have "to_chars_positive first x = Inr ''0.0''" by (simp add: to_chars_positive_def store_char_def True)
  with True that show thesis by (simp add: positive_text_def)
next
  case False
  then show thesis using to_chars_positive_spec [OF assms(1,2) False assms(3)] that positive_text_def by metis
qed

lemma dump_float_finite:
  assumes "isfinite x"
  shows "\<exists>y t. dump_float x = Inr ((if signbit x then ''-'' else []) @ t) \<and> positive_text y t
    \<and> x = (if signbit x then 2 ^ 63 else 0) + y \<and> \<not> signbit y \<and> isfinite y"
proof (cases "signbit x")
  case True
  note y = flip_sign [OF True]
  have length_63: "23 \<le> length (replicate 63 (CHR 0x00))" by simp
  have "isfinite (x XOR push_bit 63 1)" using y(2) assms by simp
  then obtain t where t: "to_chars_positive (replicate 63 (CHR 0x00)) (x XOR push_bit 63 1) = Inr t" "positive_text (x XOR push_bit 63 1) t"
    by (rule to_chars_positive_text [OF _ y(1) length_63])
  have "replicate 64 (CHR 0x00) = CHR 0x00 # replicate 63 (CHR 0x00)" by (simp add: numeral_eq_Suc)
  then have "dump_float x = Inr (''-'' @ t)" using assms True t(1)
    by (simp add: dump_float_def to_chars_def store_char_def)
  then show ?thesis using True t(2) y assms by (intro exI [of _ "x XOR push_bit 63 1"] exI [of _ t]) simp
next
  case False
  have length_64: "23 \<le> length (replicate 64 (CHR 0x00))" by simp
  obtain t where t: "to_chars_positive (replicate 64 (CHR 0x00)) x = Inr t" "positive_text x t"
    by (rule to_chars_positive_text [OF assms False length_64])
  then have "dump_float x = Inr t" using assms False by (simp add: dump_float_def to_chars_def)
  then show ?thesis using False t(2) assms by auto
qed

lemma dump_float_text: "dump_float x = Inr (float_text x)"
proof (cases "isfinite x")
  case True
  then show ?thesis using dump_float_finite [OF True] by (auto simp: float_text_def)
qed (simp add: dump_float_def float_text_def)

text \<open>A sign, 17 digits, a point and an exponent of five characters at most.\<close>

lemma exponent_text_length: "\<bar>e\<bar> < 1000 \<Longrightarrow> length (exponent_text e) \<le> 4"
  using digits_length [of "nat \<bar>e\<bar>" 3] by (auto simp: exponent_text_def digits_small)

lemma float_layout_length: "digit_string ds \<Longrightarrow> \<bar>int (length ds) + k - 1\<bar> < 1000 \<Longrightarrow> length (float_layout ds k) \<le> 23"
  using exponent_text_length [of "int (length ds) + k - 1"] by (auto simp: float_layout_def Let_def digit_string_def)

lemma float_text_length: "length (float_text x) \<le> 24"
proof (cases "isfinite x")
  case True
  then show ?thesis using dump_float_finite [OF True] float_layout_length
    by (fastforce simp: float_text_def positive_text_def decimal_of_def)
qed (simp add: dump_float_def float_text_def)

section \<open>What the buffer held before\<close>

text \<open>Two runs on buffers that agree on the digits written so far end alike.\<close>

definition same_start :: "nat \<Rightarrow> string \<Rightarrow> string \<Rightarrow> bool" where
  "same_start n p q \<longleftrightarrow> length p = length q \<and> n \<le> length p \<and> take n p = take n q"

fun same_text :: "string result \<Rightarrow> string result \<Rightarrow> nat \<Rightarrow> bool" where
  "same_text (Inr p) (Inr q) n \<longleftrightarrow> same_start n p q"
| "same_text (Inl e) (Inl d) n \<longleftrightarrow> e = d"
| "same_text _ _ n \<longleftrightarrow> False"

fun same_decimal :: "decimal result \<Rightarrow> decimal result \<Rightarrow> bool" where
  "same_decimal (Inr (p, l, k)) (Inr (q, l', k')) \<longleftrightarrow> l = l' \<and> k = k' \<and> same_start l p q"
| "same_decimal (Inl e) (Inl d) \<longleftrightarrow> e = d"
| "same_decimal _ _ \<longleftrightarrow> False"

lemma same_start_nth: "same_start n p q \<Longrightarrow> i < n \<Longrightarrow> p ! i = q ! i"
  unfolding same_start_def by (metis nth_take)

lemma same_start_update: "same_start n p q \<Longrightarrow> same_start n (p[i := c]) (q[i := c])"
  by (auto simp: same_start_def take_update_swap)

lemma same_start_store: "same_start n p q \<Longrightarrow> n < length p \<Longrightarrow> same_start (Suc n) (p[n := c]) (q[n := c])"
  by (auto simp: same_start_def take_Suc_conv_app_nth)

lemma round_loop_same: "same_start n p q \<Longrightarrow> i < n \<Longrightarrow>
   same_text (round_loop i gap delta ten_k rest p) (round_loop i gap delta ten_k rest q) n"
proof (induction i gap delta ten_k rest p arbitrary: q rule: round_loop.induct)
  case (1 i gap delta ten_k rest p)
  have e: "p ! i = q ! i" "i < length p" "i < length q" using 1(2,3) same_start_nth [OF 1(2,3)] by (simp_all add: same_start_def)
  have "same_start n (p[i := previous_char (q ! i)]) (q[i := previous_char (q ! i)])" by (rule same_start_update [OF 1(2)])
  with 1 e show ?case
    by (subst (1 2) round_loop.simps) (auto simp del: same_text.simps(1) simp: same_text.simps(1) [of p])
qed

lemma grisu2_round_same: "same_start n p q \<Longrightarrow> len \<le> n \<Longrightarrow>
   same_text (grisu2_round p len gap delta rest ten_k) (grisu2_round q len gap delta rest ten_k) n"
  by (auto simp: grisu2_round_def intro: round_loop_same)

lemma same_round_bind:
  "same_text r r' l \<Longrightarrow> same_decimal (bindr r (\<lambda>p. Inr (p, l, k))) (bindr r' (\<lambda>p. Inr (p, l, k)))"
  by (cases r; cases r') auto

lemma fraction_loop_same: "same_start len p q \<Longrightarrow>
   same_decimal (fraction_loop s k m p2 delta gap p len) (fraction_loop s k m p2 delta gap q len)"
proof (induction s k m p2 delta gap p len arbitrary: q rule: fraction_loop.induct)
  case (1 s k m p2 delta gap p len)
  show ?case
  proof (cases "p2 \<le> (- 1) div 10 \<and> drop_bit s (p2 * 10) \<le> 9 \<and> len < length p")
    case True
    then have l: "len < length q" using 1(2) by (simp add: same_start_def)
    let ?c = "digit_char (unat (drop_bit s (p2 * 10)))"
    have st: "same_start (len + 1) (p[len := ?c]) (q[len := ?c])" using True 1(2) unfolding Suc_eq_plus1 [symmetric] by (intro same_start_store) simp_all
    show ?thesis
    proof (cases "p2 * 10 AND (push_bit s 1 - 1) \<le> delta * 10")
      case True
      note r = same_round_bind [OF grisu2_round_same [OF st order_refl]]
      show ?thesis using True \<open>p2 \<le> (- 1) div 10 \<and> drop_bit s (p2 * 10) \<le> 9 \<and> len < length p\<close> l r
        by (subst (1 2) fraction_loop.simps) (simp add: Let_def del: bindr_simps)
    next
      case False
      with True l 1(1) [OF _ _ _ _ _ _ _ _ _ _ st] show ?thesis
        by (subst (1 2) fraction_loop.simps) (simp add: Let_def)
    qed
  next
    case False
    then show ?thesis using 1(2) by (subst (1 2) fraction_loop.simps) (auto simp: Let_def same_start_def)
  qed
qed

lemma integral_loop_same: "same_start len p q \<Longrightarrow>
   same_decimal (integral_loop s k n p1 pow10 p2 delta gap p len) (integral_loop s k n p1 pow10 p2 delta gap q len)"
proof (induction s k n p1 pow10 p2 delta gap p len arbitrary: q rule: integral_loop.induct)
  case (1 s k p1 pow10 p2 delta gap p len)
  then show ?case by (simp add: fraction_loop_same)
next
  case (2 s k n p1 pow10 p2 delta gap p len)
  show ?case
  proof (cases "p1 div pow10 \<le> 9 \<and> len < length p")
    case True
    then have l: "len < length q" using 2(2) by (simp add: same_start_def)
    let ?c = "digit_char (unat (p1 div pow10))"
    have st: "same_start (len + 1) (p[len := ?c]) (q[len := ?c])" using True 2(2) unfolding Suc_eq_plus1 [symmetric] by (intro same_start_store) simp_all
    have st_len: "store_char len ?c p = Inr (p[len := ?c])" "store_char len ?c q = Inr (q[len := ?c])" using True l by (simp_all add: store_char_def)
    show ?thesis
    proof (cases "push_bit s (ucast (p1 mod pow10)) + p2 \<le> delta")
      case t: True
      note r = same_round_bind [OF grisu2_round_same [OF st order_refl]]
      show ?thesis using t True st_len r by (simp add: Let_def)
    next
      case False
      with True st_len 2(1) [OF _ _ _ _ _ _ st] show ?thesis by (simp add: Let_def)
    qed
  next
    case False
    then show ?thesis using 2(2) by (auto simp: Let_def same_start_def store_char_def)
  qed
qed

lemma grisu2_same:
  assumes "length p = length q"
  shows "same_decimal (grisu2 p x) (grisu2 q x)"
proof -
  have "same_start 0 p q" using assms by (simp add: same_start_def)
  then have d: "same_decimal (grisu2_digit_gen p 0 k a b c) (grisu2_digit_gen q 0 k a b c)" for k a b c
    by (auto simp: grisu2_digit_gen_def bindr_def Let_def integral_loop_same split: sum.split prod.split)
  then have s: "same_decimal (grisu2_scaled p a b c) (grisu2_scaled q a b c)" for a b c
    by (auto simp: grisu2_scaled_def bindr_def Let_def split: sum.split)
  then show ?thesis by (auto simp: grisu2_def bindr_def split: sum.split)
qed

lemma to_chars_positive_same:
  assumes "isfinite x" "\<not> signbit x" "23 \<le> length p" "length p = length q"
  shows "to_chars_positive p x = to_chars_positive q x"
proof (cases "x = 0")
  case True
  obtain a b c r where "p = a # b # c # r" using assms(3) split_four [of p] by auto
  moreover obtain a b c r where "q = a # b # c # r" using assms(3,4) split_four [of q] by auto
  ultimately show ?thesis by (simp add: to_chars_positive_def store_char_def True)
next
  case False
  have l: "17 \<le> length p" "17 \<le> length q" using assms(3,4) by simp_all
  obtain f e ds tail k where g: "double_parts x f e" "grisu2 p x = Inr (ds @ tail, length ds, k)" "digit_string ds"
    "length ds + length tail = length p" "below f e * 2 powi e < decimal_real ds k" "decimal_real ds k < (real f + 1 / 2) * 2 powi e"
    by (rule grisu2_spec [OF assms(1,2) False l(1)])
  obtain f' e' ds' tail' k' where g': "double_parts x f' e'" "grisu2 q x = Inr (ds' @ tail', length ds', k')" "digit_string ds'"
    "length ds' + length tail' = length q" "below f' e' * 2 powi e' < decimal_real ds' k'" "decimal_real ds' k' < (real f' + 1 / 2) * 2 powi e'"
    by (rule grisu2_spec [OF assms(1,2) False l(2)])
  have eq: "length ds' = length ds" "k' = k" "ds' = ds"
    using grisu2_same [OF assms(4), of x] unfolding g(2) g'(2) by (auto simp: same_start_def)
  have r: "\<bar>int (length ds) + k - 1\<bar> < 1000" by (rule decimal_exponent_range [OF g(3,1,5,6)])
  have "23 \<le> length ds + length tail" "23 \<le> length ds + length tail'" using g(4) g'(4) assms(3,4) eq by simp_all
  then obtain s s' where "format_buffer (ds @ tail) (length ds) k (- 4) 15 = Inr (float_layout ds k @ s, length (float_layout ds k))"
    "format_buffer (ds @ tail') (length ds) k (- 4) 15 = Inr (float_layout ds k @ s', length (float_layout ds k))"
    using format_buffer_spec [OF g(3) _ r] by blast
  then show ?thesis using assms False g(2,3) g'(2) eq by (simp add: to_chars_positive_def digit_string_def)
qed

lemma to_chars_same:
  assumes "isfinite x" "24 \<le> length p" "length p = length q"
  shows "to_chars p x = to_chars q x"
proof (cases "signbit x")
  case True
  note y = flip_sign [OF True]
  obtain a p' where p: "p = a # p'" using assms(2) by (cases p) simp_all
  obtain b q' where q: "q = b # q'" using assms(2,3) by (cases q) simp_all
  have "to_chars_positive p' (x XOR push_bit 63 1) = to_chars_positive q' (x XOR push_bit 63 1)"
    by (rule to_chars_positive_same) (use y(1,2) assms p q in simp_all)
  then show ?thesis using assms(1) True by (simp add: to_chars_def p q store_char_def)
next
  case False
  then show ?thesis using to_chars_positive_same [OF assms(1) False] assms by (simp add: to_chars_def)
qed

text \<open>
  C17: writing a finite double never leaves the 64-character number buffer and violates no assertion
  of the code, whatever earlier numbers left in the buffer, which does not influence the text; the
  text has at most 24 characters.
\<close>

theorem float_text_bounded:
  assumes "isfinite x" and "length first = 64"
  shows "\<exists>t. to_chars first x = Inr t \<and> dump_float x = Inr t \<and> length t \<le> 24"
proof -
  have "length first = length (replicate 64 (CHR 0x00))" "24 \<le> length first" using assms(2) by simp_all
  then have "to_chars first x = to_chars (replicate 64 (CHR 0x00)) x" by (intro to_chars_same [OF assms(1)])
  also have "\<dots> = dump_float x" using assms(1) by (simp only: dump_float_def simp_thms if_False)
  finally have "to_chars first x = Inr (float_text x)" by (simp only: dump_float_text)
  then show ?thesis using float_text_length [of x] by (simp add: dump_float_text)
qed

theorem float_text_bounded_witness:
  "\<exists>t. to_chars (replicate 64 (CHR ''7'')) 0xBFB999999999999A = Inr t \<and> dump_float 0xBFB999999999999A = Inr t \<and> length t \<le> 24"
proof (rule float_text_bounded)
  show "isfinite 0xBFB999999999999A" by code_simp
qed simp

end
