(* ===== verification/Json_Dump.thy ===== *)
theory Json_Dump
  imports Json_Float_Text
begin

text \<open>
  \<open>serializer::dump\<close> of the vendored JSON library, for every kind of value, with and without
  indentation, and \<open>basic_json::dump\<close>. A read past the indentation string is the error
  \<open>Buffer_overrun\<close>. The compact text is shown to be the one a printer without buffers produces.
\<close>

section \<open>Writing values\<close>

text \<open>The output and the indentation string, initially 512 indentation characters.\<close>

record serializer =
  out_text :: string
  indent_string :: string

definition new_serializer :: "char \<Rightarrow> serializer" where
  "new_serializer ichar = \<lparr>out_text = [], indent_string = replicate 512 ichar\<rparr>"

definition put_text :: "string \<Rightarrow> serializer \<Rightarrow> serializer" where
  "put_text cs s = s\<lparr>out_text := out_text s @ cs\<rparr>"

text \<open>Writing the first \<open>n\<close> characters of the indentation, which must exist (with its terminator).\<close>

definition write_indent :: "nat \<Rightarrow> serializer \<Rightarrow> serializer result" where
  "write_indent n s =
     (if n \<le> length (indent_string s) + 1
      then Inr (put_text (take n (indent_string s @ [CHR 0x00])) s) else Inl Buffer_overrun)"

text \<open>The indentation is doubled once, with blanks, when it is too short.\<close>

definition grow_indent :: "nat \<Rightarrow> serializer \<Rightarrow> serializer" where
  "grow_indent n s =
     (if length (indent_string s) < n
      then s\<lparr>indent_string := indent_string s @ replicate (length (indent_string s)) (CHR '' '')\<rparr> else s)"

definition write_escaped :: "error_handler_t \<Rightarrow> bool \<Rightarrow> string \<Rightarrow> serializer \<Rightarrow> serializer result" where
  "write_escaped h ensure_ascii str s = bindr (dump_escaped h ensure_ascii str) (\<lambda>x. Inr (put_text x s))"

definition write_result :: "string result \<Rightarrow> serializer \<Rightarrow> serializer result" where
  "write_result r s = bindr r (\<lambda>x. Inr (put_text x s))"

text \<open>The bytes of a binary value, separated by \<open>sep\<close>.\<close>

fun dump_bytes :: "string \<Rightarrow> string \<Rightarrow> serializer \<Rightarrow> serializer result" where
  "dump_bytes sep [] s = Inr s"
| "dump_bytes sep [b] s = write_result (dump_unsigned (of_nat (of_char b))) s"
| "dump_bytes sep (b # c # bs) s =
     bindr (write_result (dump_unsigned (of_nat (of_char b))) s)
       (\<lambda>s. dump_bytes sep (c # bs) (put_text sep s))"

definition dump_subtype :: "nat option \<Rightarrow> serializer \<Rightarrow> serializer result" where
  "dump_subtype t s =
     (case t of None \<Rightarrow> Inr (put_text ''null'' s)
      | Some n \<Rightarrow> write_result (dump_unsigned (of_nat n)) s)"

definition dump_binary ::
    "bool \<Rightarrow> nat \<Rightarrow> string \<Rightarrow> nat option \<Rightarrow> nat \<Rightarrow> serializer \<Rightarrow> serializer result" where
  "dump_binary pretty_print indent_step bs t cur s =
     (if pretty_print then
        (let new_indent = (cur + indent_step) mod 2 ^ 32
         in bindr (write_indent new_indent (grow_indent new_indent (put_text [CHR ''{'', CHR 0x0A] s)))
           (\<lambda>s. bindr (dump_bytes '', '' bs (put_text ([CHR 0x22] @ ''bytes'' @ [CHR 0x22] @ '': ['') s))
           (\<lambda>s. bindr (write_indent new_indent (put_text ('']'' @ '','' @ [CHR 0x0A]) s))
           (\<lambda>s. bindr (dump_subtype t (put_text ([CHR 0x22] @ ''subtype'' @ [CHR 0x22] @ '': '') s))
           (\<lambda>s. bindr (write_indent cur (put_text [CHR 0x0A] s)) (\<lambda>s. Inr (put_text ''}'' s)))))))
      else
        bindr (dump_bytes '','' bs (put_text (''{'' @ [CHR 0x22] @ ''bytes'' @ [CHR 0x22] @ '':['') s))
          (\<lambda>s. bindr (dump_subtype t (put_text (''],'' @ [CHR 0x22] @ ''subtype'' @ [CHR 0x22] @ '':'') s))
          (\<lambda>s. Inr (put_text ''}'' s))))"

primrec json_size :: "json \<Rightarrow> nat" where
  "json_size J_null = 0" | "json_size (J_bool b) = 0" | "json_size (J_int i) = 0"
| "json_size (J_uint i) = 0" | "json_size (J_float f) = 0" | "json_size (J_string s) = 0"
| "json_size (J_array vs) = Suc (sum_list (map Suc (map json_size vs)))"
| "json_size (J_object ms) = Suc (sum_list (map (Suc \<circ> snd) (map (map_prod id json_size) ms)))"
| "json_size (J_binary b t) = 0" | "json_size J_discarded = 0"

function (sequential) dump ::
    "error_handler_t \<Rightarrow> bool \<Rightarrow> bool \<Rightarrow> nat \<Rightarrow> json \<Rightarrow> nat \<Rightarrow> serializer \<Rightarrow> serializer result"
  and dump_members ::
    "error_handler_t \<Rightarrow> bool \<Rightarrow> bool \<Rightarrow> nat \<Rightarrow> (string \<times> json) list \<Rightarrow> nat \<Rightarrow> serializer \<Rightarrow> serializer result"
  and dump_elements ::
    "error_handler_t \<Rightarrow> bool \<Rightarrow> bool \<Rightarrow> nat \<Rightarrow> json list \<Rightarrow> nat \<Rightarrow> serializer \<Rightarrow> serializer result"
where
  "dump h pretty ea step (J_object ms) cur s =
     (if ms = [] then Inr (put_text ''{}'' s)
      else if pretty then
        (let new_indent = (cur + step) mod 2 ^ 32
         in bindr (dump_members h pretty ea step ms new_indent (grow_indent new_indent (put_text [CHR ''{'', CHR 0x0A] s)))
              (\<lambda>s. bindr (write_indent cur (put_text [CHR 0x0A] s)) (\<lambda>s. Inr (put_text ''}'' s))))
      else bindr (dump_members h pretty ea step ms cur (put_text ''{'' s)) (\<lambda>s. Inr (put_text ''}'' s)))"
| "dump h pretty ea step (J_array vs) cur s =
     (if vs = [] then Inr (put_text ''[]'' s)
      else if pretty then
        (let new_indent = (cur + step) mod 2 ^ 32
         in bindr (dump_elements h pretty ea step vs new_indent (grow_indent new_indent (put_text [CHR ''['', CHR 0x0A] s)))
              (\<lambda>s. bindr (write_indent cur (put_text [CHR 0x0A] s)) (\<lambda>s. Inr (put_text '']'' s))))
      else bindr (dump_elements h pretty ea step vs cur (put_text ''['' s)) (\<lambda>s. Inr (put_text '']'' s)))"
| "dump h pretty ea step (J_string str) cur s =
     bindr (write_escaped h ea str (put_text [CHR 0x22] s)) (\<lambda>s. Inr (put_text [CHR 0x22] s))"
| "dump h pretty ea step (J_binary bs t) cur s = dump_binary pretty step bs t cur s"
| "dump h pretty ea step (J_bool b) cur s = Inr (put_text (if b then ''true'' else ''false'') s)"
| "dump h pretty ea step (J_int i) cur s = write_result (dump_integer i) s"
| "dump h pretty ea step (J_uint i) cur s = write_result (dump_unsigned i) s"
| "dump h pretty ea step (J_float x) cur s = write_result (dump_float x) s"
| "dump h pretty ea step J_discarded cur s = Inr (put_text ''<discarded>'' s)"
| "dump h pretty ea step J_null cur s = Inr (put_text ''null'' s)"
| "dump_members h pretty ea step [] cur s = Inr s"
| "dump_members h pretty ea step ((k, v) # ms) cur s =
     bindr (if pretty then write_indent cur s else Inr s)
     (\<lambda>s. bindr (write_escaped h ea k (put_text [CHR 0x22] s))
     (\<lambda>s. bindr (dump h pretty ea step v cur (put_text (if pretty then [CHR 0x22] @ '': '' else [CHR 0x22] @ '':'') s))
     (\<lambda>s. if ms = [] then Inr s
          else dump_members h pretty ea step ms cur (put_text (if pretty then '','' @ [CHR 0x0A] else '','') s))))"
| "dump_elements h pretty ea step [] cur s = Inr s"
| "dump_elements h pretty ea step (v # vs) cur s =
     bindr (if pretty then write_indent cur s else Inr s)
     (\<lambda>s. bindr (dump h pretty ea step v cur s)
     (\<lambda>s. if vs = [] then Inr s
          else dump_elements h pretty ea step vs cur (put_text (if pretty then '','' @ [CHR 0x0A] else '','') s)))"
  by pat_completeness auto
termination
  by (relation "measure (\<lambda>x. case x of
        Inl (h, p, ea, st, v, cur, s) \<Rightarrow> json_size v
      | Inr (Inl (h, p, ea, st, ms, cur, s)) \<Rightarrow> sum_list (map (\<lambda>m. Suc (json_size (snd m))) ms)
      | Inr (Inr (h, p, ea, st, vs, cur, s)) \<Rightarrow> sum_list (map (\<lambda>v. Suc (json_size v)) vs))")
     (auto simp: comp_def)

text \<open>\<open>basic_json::dump\<close>, and the call with its default arguments.\<close>

definition basic_dump ::
    "int \<Rightarrow> char \<Rightarrow> bool \<Rightarrow> error_handler_t \<Rightarrow> json \<Rightarrow> string result" where
  "basic_dump indent indent_char ensure_ascii h v =
     bindr (if 0 \<le> indent then dump h True ensure_ascii (nat indent) v 0 (new_serializer indent_char)
            else dump h False ensure_ascii 0 v 0 (new_serializer indent_char))
       (\<lambda>s. Inr (out_text s))"

definition dump_json :: "json \<Rightarrow> string result" where
  "dump_json v = basic_dump (- 1) (CHR '' '') False Strict v"

section \<open>The compact text\<close>

text \<open>A character of a string: bytes of longer code points are copied.\<close>

definition escape_char :: "char \<Rightarrow> string" where
  "escape_char c = (if of_char c < (0x80 :: nat) then escape False (of_char c) else [c])"

definition quoted :: "string \<Rightarrow> string" where
  "quoted s = [CHR 0x22] @ concat (map escape_char s) @ [CHR 0x22]"

fun separated :: "string \<Rightarrow> string list \<Rightarrow> string" where
  "separated sep [] = []"
| "separated sep [x] = x"
| "separated sep (x # y # xs) = x @ sep @ separated sep (y # xs)"

definition print_byte :: "char \<Rightarrow> string" where
  "print_byte b = digits (of_char b)"

fun print_json :: "json \<Rightarrow> string" where
  "print_json J_null = ''null''"
| "print_json (J_bool b) = (if b then ''true'' else ''false'')"
| "print_json (J_int i) = show_int (sint i)"
| "print_json (J_uint i) = digits (unat i)"
| "print_json (J_float x) = float_text x"
| "print_json (J_string s) = quoted s"
| "print_json (J_array vs) = ''['' @ separated '','' (map print_json vs) @ '']''"
| "print_json (J_object ms) =
     ''{'' @ separated '','' (map (\<lambda>(k, v). quoted k @ '':'' @ print_json v) ms) @ ''}''"
| "print_json (J_binary bs t) =
     ''{'' @ quoted ''bytes'' @ '':['' @ separated '','' (map print_byte bs) @ ''],'' @ quoted ''subtype'' @ '':'' @
     (case t of None \<Rightarrow> ''null'' | Some n \<Rightarrow> digits (n mod 2 ^ 64)) @ ''}''"
| "print_json J_discarded = ''<discarded>''"

text \<open>All strings and keys are UTF-8.\<close>

fun utf8_json :: "json \<Rightarrow> bool" where
  "utf8_json (J_string s) \<longleftrightarrow> valid_utf8 (bytes_of s)"
| "utf8_json (J_array vs) \<longleftrightarrow> list_all utf8_json vs"
| "utf8_json (J_object ms) \<longleftrightarrow> list_all (\<lambda>(k, v). valid_utf8 (bytes_of k) \<and> utf8_json v) ms"
| "utf8_json _ \<longleftrightarrow> True"

lemma concat_plain: "list_all (\<lambda>c. escape_char c = [c]) s \<Longrightarrow> concat (map escape_char s) = s"
  by (induction s) simp_all

lemma escape_long:
  assumes "scalar c" "0x80 \<le> c"
  shows "concat (map escape_char (map char_of (utf8_encode c))) = map char_of (utf8_encode c)"
proof -
  have "list_all (\<lambda>b. 0x80 \<le> b \<and> b < 256) (utf8_encode c)"
    using assms by (auto simp: utf8_encode_def scalar_def)
  then have "list_all (\<lambda>d. escape_char d = [d]) (map char_of (utf8_encode c))"
    by (auto simp: escape_char_def list_all_iff)
  then show ?thesis by (rule concat_plain)
qed

lemma escape_chars:
  "scalar c \<Longrightarrow> concat (map escape_char (map char_of (utf8_encode c))) = escape False c"
proof (cases "c < 0x80")
  case True
  then show ?thesis by (simp add: utf8_encode_def escape_char_def)
next
  case False
  moreover assume "scalar c"
  moreover from False have "\<not> escaped False c" by (simp add: escaped_def)
  ultimately show ?thesis using escape_long [of c] by (simp add: escape_copied)
qed

lemma escape_string:
  "list_all scalar cs \<Longrightarrow> concat (map escape_char (map char_of (utf8_string cs))) = concat (map (escape False) cs)"
proof (induction cs)
  case (Cons c cs)
  then show ?case using escape_chars [of c] by simp
qed simp

text \<open>A run that prints \<open>t\<close>, or reports text that is not UTF-8.\<close>

definition prints :: "bool \<Rightarrow> string \<Rightarrow> serializer \<Rightarrow> serializer result \<Rightarrow> bool" where
  "prints ok t s r \<longleftrightarrow> (if ok then r = Inr (put_text t s) else \<exists>m. r = Inl (Type_error 316 m))"

lemma put_text_put_text [simp]: "put_text u (put_text t s) = put_text (t @ u) s"
  by (simp add: put_text_def)

lemma put_text_Nil [simp]: "put_text [] s = s"
  by (simp add: put_text_def)

lemma prints_Inr: "prints True t s (Inr (put_text t s))"
  by (simp add: prints_def)

lemma prints_Nil: "prints True [] s (Inr s)"
  by (simp add: prints_def)

lemma prints_then:
  "prints a t s r \<Longrightarrow> (\<And>s'. r = Inr s' \<Longrightarrow> prints b u s' (f s')) \<Longrightarrow>
   prints (a \<and> b) (t @ u) s (bindr r f)"
  by (auto simp: prints_def split: if_splits)

lemma prints_put: "prints a u (put_text t s) r \<Longrightarrow> prints a (t @ u) s r"
  by (simp add: prints_def)

lemma prints_end: "prints a t s r \<Longrightarrow> prints a (t @ u) s (bindr r (\<lambda>s. Inr (put_text u s)))"
  by (auto simp: prints_def split: if_splits)

lemma prints_escaped:
  "prints (valid_utf8 (bytes_of x)) (concat (map escape_char x)) s (write_escaped Strict False x s)"
proof (cases "valid_utf8 (bytes_of x)")
  case True
  then obtain cs where cs: "list_all scalar cs" "bytes_of x = utf8_string cs"
    by (auto simp: valid_utf8_def)
  with chars_of_bytes [of x] escape_string [OF cs(1)]
  have "dump_escaped Strict False x = Inr (concat (map escape_char x))"
    using dump_escaped_valid [OF cs] by simp
  with True show ?thesis by (simp add: prints_def write_escaped_def)
next
  case False
  with dump_escaped_invalid [OF False, of False] show ?thesis by (auto simp: prints_def write_escaped_def)
qed

lemma prints_unsigned: "prints True (digits (unat x)) s (write_result (dump_unsigned x) s)"
  by (simp add: write_result_def dump_unsigned_correct prints_def)

lemma prints_integer: "prints True (show_int (sint x)) s (write_result (dump_integer x) s)"
  by (simp add: write_result_def dump_integer_correct prints_def)

lemma prints_float: "prints True (float_text x) s (write_result (dump_float x) s)"
  by (simp add: write_result_def dump_float_text prints_def)

lemma prints_byte: "prints True (print_byte b) s (write_result (dump_unsigned (of_nat (of_char b))) s)"
proof -
  have "of_char b < (256 :: nat)" by simp
  then have "of_char b < (2 ^ 64 :: nat)" by (rule order_less_trans) simp
  then have "unat (of_nat (of_char b) :: 64 word) = of_char b" by (simp add: unat_of_nat)
  then show ?thesis using prints_unsigned [of "of_nat (of_char b)" s] by (simp add: print_byte_def)
qed

lemma prints_bytes: "prints True (separated sep (map print_byte bs)) s (dump_bytes sep bs s)"
proof (induction sep bs s rule: dump_bytes.induct)
  case (3 sep b c bs s)
  have "prints (True \<and> True) (print_byte b @ sep @ separated sep (map print_byte (c # bs))) s
      (dump_bytes sep (b # c # bs) s)"
    unfolding dump_bytes.simps using 3 by (intro prints_then prints_byte prints_put) auto
  then show ?case by simp
qed (simp_all add: prints_byte prints_Nil)

lemma prints_subtype:
  "prints True (case t of None \<Rightarrow> ''null'' | Some n \<Rightarrow> digits (n mod 2 ^ 64)) s (dump_subtype t s)"
proof (cases t)
  case None
  then show ?thesis by (simp add: dump_subtype_def prints_def)
next
  case (Some n)
  have "unat (of_nat n :: 64 word) = n mod 2 ^ 64" by (simp add: unat_of_nat)
  then show ?thesis using Some prints_unsigned [of "of_nat n" s] by (simp add: dump_subtype_def)
qed

lemma quoted_plain: "list_all (\<lambda>c. escape_char c = [c]) s \<Longrightarrow> quoted s = [CHR 0x22] @ s @ [CHR 0x22]"
  by (simp add: quoted_def concat_plain)

lemma quoted_names:
  "quoted ''bytes'' = [CHR 0x22] @ ''bytes'' @ [CHR 0x22]"
  "quoted ''subtype'' = [CHR 0x22] @ ''subtype'' @ [CHR 0x22]"
  by (intro quoted_plain; code_simp)+

lemma prints_binary:
  "prints True (print_json (J_binary bs t)) s (dump_binary False step bs t cur s)"
proof -
  let ?t = "case t of None \<Rightarrow> ''null'' | Some n \<Rightarrow> digits (n mod 2 ^ 64)"
  have "prints (True \<and> True)
     ((''{'' @ [CHR 0x22] @ ''bytes'' @ [CHR 0x22] @ '':['') @ separated '','' (map print_byte bs) @
      (''],'' @ [CHR 0x22] @ ''subtype'' @ [CHR 0x22] @ '':'') @ ?t @ ''}'') s
     (dump_binary False step bs t cur s)"
    unfolding dump_binary_def if_False
    by (intro prints_put prints_then prints_bytes prints_end prints_subtype)
  then show ?thesis by (simp add: quoted_names)
qed

lemma separated_Cons: "separated sep (x # xs) = x @ (if xs = [] then [] else sep @ separated sep xs)"
  by (cases xs) simp_all

lemma dump_prints:
  "h = Strict \<Longrightarrow> \<not> pretty \<Longrightarrow> \<not> ea \<Longrightarrow> prints (utf8_json v) (print_json v) s (dump h pretty ea step v cur s)"
  "h = Strict \<Longrightarrow> \<not> pretty \<Longrightarrow> \<not> ea \<Longrightarrow> prints (list_all (\<lambda>(k, v). valid_utf8 (bytes_of k) \<and> utf8_json v) ms)
     (separated '','' (map (\<lambda>(k, v). quoted k @ '':'' @ print_json v) ms)) s
     (dump_members h pretty ea step ms cur s)"
  "h = Strict \<Longrightarrow> \<not> pretty \<Longrightarrow> \<not> ea \<Longrightarrow> prints (list_all utf8_json vs) (separated '','' (map print_json vs)) s
     (dump_elements h pretty ea step vs cur s)"
proof (induction h pretty ea step v cur s and h pretty ea step ms cur s and h pretty ea step vs cur s
    rule: dump_dump_members_dump_elements.induct)
  case (1 h pretty ea step ms cur s)
  then show ?case by (auto simp: prints_Inr intro: prints_put [of _ _ "''{''", simplified] prints_end)
next
  case (2 h pretty ea step vs cur s)
  then show ?case by (auto simp: prints_Inr intro: prints_put [of _ _ "''[''", simplified] prints_end)
next
  case (3 h pretty ea step str cur s)
  then show ?case
    using prints_put [OF prints_end [OF prints_escaped, where u = "[CHR 0x22]"], where t = "[CHR 0x22]"]
    by (simp add: quoted_def)
next
  case (4 h pretty ea step bs t cur s)
  then show ?case using prints_binary by simp
next
  case (12 h pretty ea step k v ms cur s)
  then have [simp]: "h = Strict" "\<not> pretty" "\<not> ea" by simp_all
  have "prints (valid_utf8 (bytes_of k) \<and> utf8_json v \<and> list_all (\<lambda>(k, v). valid_utf8 (bytes_of k) \<and> utf8_json v) ms)
     ([CHR 0x22] @ concat (map escape_char k) @ ([CHR 0x22] @ '':'') @ print_json v @
       (if ms = [] then [] else '','' @ separated '','' (map (\<lambda>(k, v). quoted k @ '':'' @ print_json v) ms))) s
     (dump_members h pretty ea step ((k, v) # ms) cur s)"
    unfolding dump_members.simps if_not_P [OF \<open>\<not> pretty\<close>] bindr_simps
    by (rule prints_put, rule prints_then, simp add: prints_escaped, rule prints_put, rule prints_then)
       (use 12 in \<open>auto simp: prints_Nil intro: prints_put [of _ _ "'',''", simplified]\<close>)
  then show ?case by (cases "ms = []") (simp_all add: separated_Cons quoted_def)
next
  case (14 h pretty ea step v vs cur s)
  then have [simp]: "h = Strict" "\<not> pretty" "\<not> ea" by simp_all
  have "prints (utf8_json v \<and> list_all utf8_json vs)
     (print_json v @ (if vs = [] then [] else '','' @ separated '','' (map print_json vs))) s
     (dump_elements h pretty ea step (v # vs) cur s)"
    unfolding dump_elements.simps if_not_P [OF \<open>\<not> pretty\<close>] bindr_simps
    by (intro prints_then)
       (use 14 in \<open>auto simp: prints_Nil intro: prints_put [of _ _ "'',''", simplified]\<close>)
  then show ?case by (cases "vs = []") (simp_all add: separated_Cons)
qed (simp_all add: prints_Inr prints_Nil prints_integer prints_unsigned prints_float)

lemma dump_json_print:
  "utf8_json v \<Longrightarrow> dump_json v = Inr (print_json v)"
  "\<not> utf8_json v \<Longrightarrow> \<exists>m. dump_json v = Inl (Type_error 316 m)"
  using dump_prints(1) [of Strict False False v "new_serializer (CHR '' '')" 0 0]
  by (auto simp: dump_json_def basic_dump_def prints_def put_text_def new_serializer_def)

text \<open>
  C21: \<open>dump()\<close> writes a value whose strings and keys are all UTF-8 as its compact JSON text - numbers
  in decimal, strings escaped, members and elements separated by commas - and throws \<open>type_error\<close>
  316 for every other value; it never leaves its string, number or indentation buffer.
\<close>

theorem dump_json_correct:
  "case dump_json v of
     Inr t \<Rightarrow> utf8_json v \<and> t = print_json v
   | Inl e \<Rightarrow> \<not> utf8_json v \<and> (\<exists>m. e = Type_error 316 m)"
  using dump_json_print [of v] by (cases "utf8_json v") auto

end
