(* ===== verification/Json_Lexer.thy ===== *)
theory Json_Lexer
  imports Json_Dump
begin

text \<open>
  The lexer of the vendored JSON library (classes \<open>lexer_base\<close> and \<open>lexer\<close> in \<open>include/json.hpp\<close>),
  reading from a string through \<open>iterator_input_adapter\<close>. Every scan function is total: loops end
  because each round consumes input. Positions are natural numbers; the locale is the \<open>C\<close> locale,
  which the program never changes.
\<close>

section \<open>State\<close>

datatype token_type =
    Uninitialized | Literal_true | Literal_false | Literal_null | Value_string | Value_unsigned
  | Value_integer | Value_float | Begin_array | Begin_object | End_array | End_object
  | Name_separator | Value_separator | Token_error | End_of_input | Literal_or_value

fun token_type_name :: "token_type \<Rightarrow> string" where
  "token_type_name Uninitialized = ''<uninitialized>''"
| "token_type_name Literal_true = ''true literal''"
| "token_type_name Literal_false = ''false literal''"
| "token_type_name Literal_null = ''null literal''"
| "token_type_name Value_string = ''string literal''"
| "token_type_name Value_unsigned = ''number literal''"
| "token_type_name Value_integer = ''number literal''"
| "token_type_name Value_float = ''number literal''"
| "token_type_name Begin_array = [CHR 0x27, CHR ''['', CHR 0x27]"
| "token_type_name Begin_object = [CHR 0x27, CHR ''{'', CHR 0x27]"
| "token_type_name End_array = [CHR 0x27, CHR '']'', CHR 0x27]"
| "token_type_name End_object = [CHR 0x27, CHR ''}'', CHR 0x27]"
| "token_type_name Name_separator = [CHR 0x27, CHR '':'', CHR 0x27]"
| "token_type_name Value_separator = [CHR 0x27, CHR '','', CHR 0x27]"
| "token_type_name Token_error = ''<parse error>''"
| "token_type_name End_of_input = ''end of input''"
| "token_type_name Literal_or_value =
     [CHR 0x27, CHR ''['', CHR 0x27] @ '', '' @ [CHR 0x27, CHR ''{'', CHR 0x27] @ '', or a literal''"

text \<open>\<open>position_t\<close>.\<close>

record position_t =
  chars_read_total :: nat
  chars_read_current_line :: nat
  lines_read :: nat

text \<open>The lexer; \<open>ia\<close> is the part of the input not read yet, and \<open>current\<close> is \<open>None\<close> at \<open>eof()\<close>.\<close>

record lexer =
  ia :: string
  ignore_comments :: bool
  current :: "char option"
  next_unget :: bool
  position :: position_t
  token_string :: string
  token_buffer :: string
  error_message :: string
  value_integer :: "64 word"
  value_unsigned :: "64 word"
  value_float :: "64 word"
  decimal_point_char :: char

definition new_lexer :: "string \<Rightarrow> bool \<Rightarrow> lexer" where
  "new_lexer adapter ignore_comments' =
     \<lparr>ia = adapter, ignore_comments = ignore_comments', current = None, next_unget = False,
      position = \<lparr>chars_read_total = 0, chars_read_current_line = 0, lines_read = 0\<rparr>,
      token_string = [], token_buffer = [], error_message = [], value_integer = 0,
      value_unsigned = 0, value_float = 0, decimal_point_char = CHR ''.''\<rparr>"

section \<open>Input\<close>

text \<open>\<open>ia.get_character()\<close>.\<close>

definition get_character :: "lexer \<Rightarrow> lexer" where
  "get_character l =
     (case ia l of [] \<Rightarrow> l\<lparr>current := None\<rparr> | c # r \<Rightarrow> l\<lparr>current := Some c, ia := r\<rparr>)"

definition get :: "lexer \<Rightarrow> lexer" where
  "get l =
     (let l1 = l\<lparr>position := (position l)
                  \<lparr>chars_read_total := chars_read_total (position l) + 1,
                   chars_read_current_line := chars_read_current_line (position l) + 1\<rparr>\<rparr>;
          l2 = (if next_unget l1 then l1\<lparr>next_unget := False\<rparr> else get_character l1);
          l3 = (case current l2 of None \<Rightarrow> l2 | Some c \<Rightarrow> l2\<lparr>token_string := token_string l2 @ [c]\<rparr>)
      in if current l3 = Some (CHR 0x0A)
         then l3\<lparr>position := (position l3)
                   \<lparr>lines_read := lines_read (position l3) + 1, chars_read_current_line := 0\<rparr>\<rparr>
         else l3)"

definition unget :: "lexer \<Rightarrow> lexer" where
  "unget l =
     (let p = position l;
          p1 = p\<lparr>chars_read_total := chars_read_total p - 1\<rparr>;
          p2 = (if chars_read_current_line p1 = 0
                then (if 0 < lines_read p1 then p1\<lparr>lines_read := lines_read p1 - 1\<rparr> else p1)
                else p1\<lparr>chars_read_current_line := chars_read_current_line p1 - 1\<rparr>);
          l1 = l\<lparr>next_unget := True, position := p2\<rparr>
      in if current l \<noteq> None then l1\<lparr>token_string := butlast (token_string l1)\<rparr> else l1)"

definition add :: "char \<Rightarrow> lexer \<Rightarrow> lexer" where
  "add c l = l\<lparr>token_buffer := token_buffer l @ [c]\<rparr>"

text \<open>Reset the buffers; the current character begins the token (\<open>eof\<close> would be stored as FF).\<close>

definition reset :: "lexer \<Rightarrow> lexer" where
  "reset l = l\<lparr>token_buffer := [],
     token_string := [case current l of Some c \<Rightarrow> c | None \<Rightarrow> CHR 0xFF]\<rparr>"

definition scan_error :: "string \<Rightarrow> lexer \<Rightarrow> lexer" where
  "scan_error m l = l\<lparr>error_message := m\<rparr>"

text \<open>The input that is left, counting a character that was put back.\<close>

definition unread :: "lexer \<Rightarrow> nat" where
  "unread l = length (ia l) + (if next_unget l \<and> current l \<noteq> None then 1 else 0)"

lemma get_sel:
  "ia (get l) = (if next_unget l then ia l else tl (ia l))"
  "current (get l) = (if next_unget l then current l else case ia l of [] \<Rightarrow> None | c # r \<Rightarrow> Some c)"
  by (simp_all add: get_def get_character_def Let_def split: option.split list.split)

lemma get_keeps [simp]:
  "\<not> next_unget (get l)" "token_buffer (get l) = token_buffer l" "ignore_comments (get l) = ignore_comments l"
  "decimal_point_char (get l) = decimal_point_char l"
  by (simp_all add: get_def get_character_def Let_def split: option.split list.split)

lemma unget_sel [simp]:
  "ia (unget l) = ia l" "current (unget l) = current l" "next_unget (unget l)"
  "token_buffer (unget l) = token_buffer l" "ignore_comments (unget l) = ignore_comments l"
  "decimal_point_char (unget l) = decimal_point_char l"
  by (simp_all add: unget_def Let_def)

lemma get_unread: "unread (get l) \<le> unread l"
  by (simp add: unread_def get_sel)

lemma get_unread_less: "current (get l) \<noteq> None \<Longrightarrow> unread (get l) < unread l"
  by (simp add: unread_def get_sel split: list.splits if_splits)

lemma unget_get_unread: "unread (unget (get l)) \<le> unread l"
  by (auto simp: unread_def get_sel split: list.split)

lemma add_unread [simp]: "unread (add c l) = unread l"
  by (simp add: add_def unread_def)

lemma reset_unread [simp]: "unread (reset l) = unread l"
  by (simp add: reset_def unread_def)

lemma scan_error_unread [simp]: "unread (scan_error m l) = unread l"
  by (simp add: scan_error_def unread_def)

section \<open>Strings\<close>

definition hex_value :: "char option \<Rightarrow> nat option" where
  "hex_value c =
     (case c of None \<Rightarrow> None
      | Some c \<Rightarrow>
          (let b = of_char c :: nat
           in if 0x30 \<le> b \<and> b \<le> 0x39 then Some (b - 0x30)
              else if 0x41 \<le> b \<and> b \<le> 0x46 then Some (b - 0x37)
              else if 0x61 \<le> b \<and> b \<le> 0x66 then Some (b - 0x57)
              else None))"

fun codepoint_digits :: "nat list \<Rightarrow> nat \<Rightarrow> lexer \<Rightarrow> nat option \<times> lexer" where
  "codepoint_digits [] cp l = (Some cp, l)"
| "codepoint_digits (factor # factors) cp l =
     (let l1 = get l
      in case hex_value (current l1) of
           None \<Rightarrow> (None, l1)
         | Some d \<Rightarrow> codepoint_digits factors (cp + push_bit factor d) l1)"

definition get_codepoint :: "lexer \<Rightarrow> nat option \<times> lexer" where
  "get_codepoint l = codepoint_digits [12, 8, 4, 0] 0 l"

fun bytes_in_range :: "(nat \<times> nat) list \<Rightarrow> lexer \<Rightarrow> bool \<times> lexer" where
  "bytes_in_range [] l = (True, l)"
| "bytes_in_range ((lo, hi) # ranges) l =
     (let l1 = get l
      in case current l1 of
           None \<Rightarrow> (False, scan_error ''invalid string: ill-formed UTF-8 byte'' l1)
         | Some c \<Rightarrow>
             if lo \<le> of_char c \<and> of_char c \<le> hi then bytes_in_range ranges (add c l1)
             else (False, scan_error ''invalid string: ill-formed UTF-8 byte'' l1))"

definition next_byte_in_range :: "char \<Rightarrow> (nat \<times> nat) list \<Rightarrow> lexer \<Rightarrow> bool \<times> lexer" where
  "next_byte_in_range c ranges l = bytes_in_range ranges (add c l)"

text \<open>Translate a code point into bytes.\<close>

definition add_codepoint :: "nat \<Rightarrow> lexer \<Rightarrow> lexer" where
  "add_codepoint cp l =
     (if cp < 0x80 then add (char_of cp) l
      else if cp \<le> 0x7FF then
        add (char_of (0x80 OR (cp AND 0x3F))) (add (char_of (0xC0 OR drop_bit 6 cp)) l)
      else if cp \<le> 0xFFFF then
        add (char_of (0x80 OR (cp AND 0x3F)))
          (add (char_of (0x80 OR (drop_bit 6 cp AND 0x3F))) (add (char_of (0xE0 OR drop_bit 12 cp)) l))
      else
        add (char_of (0x80 OR (cp AND 0x3F)))
          (add (char_of (0x80 OR (drop_bit 6 cp AND 0x3F)))
            (add (char_of (0x80 OR (drop_bit 12 cp AND 0x3F))) (add (char_of (0xF0 OR drop_bit 18 cp)) l))))"

definition hex_message :: string where
  "hex_message = ''invalid string: '' @ [CHR 0x27, CHR 0x5C] @ ''u'' @ [CHR 0x27] @
     '' must be followed by 4 hex digits''"

definition high_message :: string where
  "high_message = ''invalid string: surrogate U+D800..U+DBFF must be followed by U+DC00..U+DFFF''"

text \<open>The escape \<open>\u\<close>, with a second one after a high surrogate.\<close>

definition scan_unicode :: "lexer \<Rightarrow> bool \<times> lexer" where
  "scan_unicode l =
     (case get_codepoint l of
        (None, l1) \<Rightarrow> (False, scan_error hex_message l1)
      | (Some cp1, l1) \<Rightarrow>
          if 0xD800 \<le> cp1 \<and> cp1 \<le> 0xDBFF then
            (let l2 = get l1
             in if current l2 = Some (CHR 0x5C)
                then (let l3 = get l2
                      in if current l3 = Some (CHR ''u'')
                         then (case get_codepoint l3 of
                                 (None, l4) \<Rightarrow> (False, scan_error hex_message l4)
                               | (Some cp2, l4) \<Rightarrow>
                                   if 0xDC00 \<le> cp2 \<and> cp2 \<le> 0xDFFF
                                   then (True, add_codepoint (push_bit 10 cp1 + cp2 - 0x35FDC00) l4)
                                   else (False, scan_error high_message l4))
                         else (False, scan_error high_message l3))
                else (False, scan_error high_message l2))
          else if 0xDC00 \<le> cp1 \<and> cp1 \<le> 0xDFFF
          then (False, scan_error
            ''invalid string: surrogate U+DC00..U+DFFF must follow U+D800..U+DBFF'' l1)
          else (True, add_codepoint cp1 l1))"

definition scan_escape :: "lexer \<Rightarrow> bool \<times> lexer" where
  "scan_escape l =
     (let l1 = get l; c = current l1
      in if c = Some (CHR 0x22) then (True, add (CHR 0x22) l1)
         else if c = Some (CHR 0x5C) then (True, add (CHR 0x5C) l1)
         else if c = Some (CHR ''/'') then (True, add (CHR ''/'') l1)
         else if c = Some (CHR ''b'') then (True, add (CHR 0x08) l1)
         else if c = Some (CHR ''f'') then (True, add (CHR 0x0C) l1)
         else if c = Some (CHR ''n'') then (True, add (CHR 0x0A) l1)
         else if c = Some (CHR ''r'') then (True, add (CHR 0x0D) l1)
         else if c = Some (CHR ''t'') then (True, add (CHR 0x09) l1)
         else if c = Some (CHR ''u'') then scan_unicode l1
         else (False, scan_error ''invalid string: forbidden character after backslash'' l1))"

text \<open>The messages for control characters.\<close>

definition control_names :: "string list" where
  "control_names =
     [''NUL'', ''SOH'', ''STX'', ''ETX'', ''EOT'', ''ENQ'', ''ACK'', ''BEL'', ''BS'', ''HT'', ''LF'', ''VT'',
      ''FF'', ''CR'', ''SO'', ''SI'', ''DLE'', ''DC1'', ''DC2'', ''DC3'', ''DC4'', ''NAK'', ''SYN'', ''ETB'',
      ''CAN'', ''EM'', ''SUB'', ''ESC'', ''FS'', ''GS'', ''RS'', ''US'']"

definition control_message :: "nat \<Rightarrow> string" where
  "control_message b =
     ''invalid string: control character U+00'' @ hex_bytes b @ '' ('' @ control_names ! b @
     '') must be escaped to '' @ [CHR 0x5C] @ ''u00'' @ hex_bytes b @
     (if b = 0x08 then '' or '' @ [CHR 0x5C] @ ''b'' else if b = 0x09 then '' or '' @ [CHR 0x5C] @ ''t''
      else if b = 0x0A then '' or '' @ [CHR 0x5C] @ ''n'' else if b = 0x0C then '' or '' @ [CHR 0x5C] @ ''f''
      else if b = 0x0D then '' or '' @ [CHR 0x5C] @ ''r'' else [])"

text \<open>Bytes from 80: the ranges of the continuation bytes.\<close>

definition scan_multibyte :: "char \<Rightarrow> lexer \<Rightarrow> bool \<times> lexer" where
  "scan_multibyte c l =
     (let b = of_char c :: nat
      in if 0xC2 \<le> b \<and> b \<le> 0xDF then next_byte_in_range c [(0x80, 0xBF)] l
         else if b = 0xE0 then next_byte_in_range c [(0xA0, 0xBF), (0x80, 0xBF)] l
         else if 0xE1 \<le> b \<and> b \<le> 0xEC \<or> b = 0xEE \<or> b = 0xEF
         then next_byte_in_range c [(0x80, 0xBF), (0x80, 0xBF)] l
         else if b = 0xED then next_byte_in_range c [(0x80, 0x9F), (0x80, 0xBF)] l
         else if b = 0xF0 then next_byte_in_range c [(0x90, 0xBF), (0x80, 0xBF), (0x80, 0xBF)] l
         else if 0xF1 \<le> b \<and> b \<le> 0xF3
         then next_byte_in_range c [(0x80, 0xBF), (0x80, 0xBF), (0x80, 0xBF)] l
         else if b = 0xF4 then next_byte_in_range c [(0x80, 0x8F), (0x80, 0xBF), (0x80, 0xBF)] l
         else (False, scan_error ''invalid string: ill-formed UTF-8 byte'' l))"

definition scan_character :: "char \<Rightarrow> lexer \<Rightarrow> bool \<times> lexer" where
  "scan_character c l =
     (let b = of_char c :: nat
      in if c = CHR 0x5C then scan_escape l
         else if b \<le> 0x1F then (False, scan_error (control_message b) l)
         else if b \<le> 0x7F then (True, add c l)
         else scan_multibyte c l)"

lemma codepoint_digits_unread: "unread (snd (codepoint_digits fs cp l)) \<le> unread l"
proof (induction fs cp l rule: codepoint_digits.induct)
  case (2 f fs cp l)
  then show ?case
    using get_unread [of l] by (auto simp: Let_def split: option.split intro: order_trans)
qed simp

lemma get_codepoint_unread: "get_codepoint l = (r, l') \<Longrightarrow> unread l' \<le> unread l"
  using codepoint_digits_unread [of "[12, 8, 4, 0]" 0 l] by (simp add: get_codepoint_def)

lemma add_codepoint_unread [simp]: "unread (add_codepoint cp l) = unread l"
  by (simp add: add_codepoint_def)

lemma bytes_in_range_unread: "unread (snd (bytes_in_range rs l)) \<le> unread l"
proof (induction rs l rule: bytes_in_range.induct)
  case (2 lo hi rs l)
  then show ?case
    using get_unread [of l] by (auto simp: Let_def split: option.split intro: order_trans)
qed simp

lemma get_codepoint_unread_gets: "get_codepoint (get (get l)) = (r, l') \<Longrightarrow> unread l' \<le> unread l"
  by (meson get_codepoint_unread get_unread order_trans)

lemma gets_unread: "unread (get (get l)) \<le> unread l"
  by (meson get_unread order_trans)

lemma scan_unicode_unread: "unread (snd (scan_unicode l)) \<le> unread l"
  by (auto simp: scan_unicode_def Let_def split: option.split prod.split
      dest!: get_codepoint_unread get_codepoint_unread_gets
      intro: order_trans get_unread gets_unread)

lemma scan_character_unread: "scan_character c l = (ok, l') \<Longrightarrow> unread l' \<le> unread l"
proof -
  have "unread (snd (scan_escape l)) \<le> unread l"
    using scan_unicode_unread [of "get l"] get_unread [of l] by (simp add: scan_escape_def Let_def)
  moreover have "unread (snd (scan_multibyte c l)) \<le> unread l"
    using bytes_in_range_unread [of _ "add c l"]
    by (simp add: scan_multibyte_def next_byte_in_range_def Let_def del: bytes_in_range.simps)
  ultimately have "unread (snd (scan_character c l)) \<le> unread l"
    by (simp add: scan_character_def Let_def)
  then show "scan_character c l = (ok, l') \<Longrightarrow> unread l' \<le> unread l" by simp
qed

function scan_string_loop :: "lexer \<Rightarrow> token_type \<times> lexer" where
  "scan_string_loop l =
     (let l1 = get l
      in case current l1 of
           None \<Rightarrow> (Token_error, scan_error ''invalid string: missing closing quote'' l1)
         | Some c \<Rightarrow>
             if c = CHR 0x22 then (Value_string, l1)
             else (case scan_character c l1 of
                     (True, l2) \<Rightarrow> scan_string_loop l2
                   | (False, l2) \<Rightarrow> (Token_error, l2)))"
  by pat_completeness auto
termination
  by (relation "measure unread")
     (auto dest!: sym [of "(_, _)"] scan_character_unread intro: le_less_trans get_unread_less)

declare scan_string_loop.simps [simp del]

definition scan_string :: "lexer \<Rightarrow> token_type \<times> lexer" where
  "scan_string l = scan_string_loop (reset l)"

section \<open>Comments\<close>

function line_comment :: "lexer \<Rightarrow> lexer" where
  "line_comment l =
     (let l1 = get l
      in if current l1 \<in> {None, Some (CHR 0x0A), Some (CHR 0x0D), Some (CHR 0x00)} then l1
         else line_comment l1)"
  by pat_completeness auto
termination
  by (relation "measure unread") (auto intro: get_unread_less)

declare line_comment.simps [simp del]

text \<open>A \<open>*\<close> that no \<open>/\<close> follows is passed, and the next character is read again.\<close>

function block_comment :: "lexer \<Rightarrow> bool \<times> lexer" where
  "block_comment l =
     (let l1 = get l
      in if current l1 \<in> {None, Some (CHR 0x00)} then
           (False, scan_error (''invalid comment; missing closing '' @ [CHR 0x27] @ ''*/'' @ [CHR 0x27]) l1)
         else if current l1 = Some (CHR ''*'') then
           (let l2 = get l1
            in if current l2 = Some (CHR ''/'') then (True, l2) else block_comment (unget l2))
         else block_comment l1)"
  by pat_completeness auto
termination
  by (relation "measure unread")
     (auto intro: get_unread_less le_less_trans [OF unget_get_unread])

declare block_comment.simps [simp del]

definition scan_comment :: "lexer \<Rightarrow> bool \<times> lexer" where
  "scan_comment l =
     (let l1 = get l
      in if current l1 = Some (CHR ''/'') then (True, line_comment l1)
         else if current l1 = Some (CHR ''*'') then block_comment l1
         else (False, scan_error (''invalid comment; expecting '' @ [CHR 0x27] @ ''/'' @ [CHR 0x27] @ '' or '' @
                [CHR 0x27] @ ''*'' @ [CHR 0x27] @ '' after '' @ [CHR 0x27] @ ''/'' @ [CHR 0x27]) l1))"

lemma line_comment_unread: "unread (line_comment l) \<le> unread l"
proof (induction l rule: line_comment.induct)
  case (1 l)
  then show ?case
    using get_unread [of l] by (subst line_comment.simps) (auto simp: Let_def intro: order_trans)
qed

lemma block_comment_unread: "unread (snd (block_comment l)) \<le> unread l"
proof (induction l rule: block_comment.induct)
  case (1 l)
  have "unread (unget (get (get l))) \<le> unread l" by (meson unget_get_unread get_unread order_trans)
  with 1 get_unread [of l] gets_unread [of l] show ?case
    by (subst block_comment.simps) (auto simp: Let_def intro: order_trans)
qed

lemma scan_comment_unread:
  "scan_comment l = (ok, l') \<Longrightarrow> unread l' \<le> unread l"
  "scan_comment l = (True, l') \<Longrightarrow> unread l' < unread l"
  using get_unread [of l] get_unread_less [of l] line_comment_unread [of "get l"] block_comment_unread [of "get l"]
  by (auto simp: scan_comment_def Let_def split: if_splits)

section \<open>Converting numbers\<close>

text \<open>
  \<open>strtoull\<close> and \<open>strtoll\<close> on decimal digits with an optional sign: the value, or \<open>None\<close> when
  \<open>errno\<close> becomes \<open>ERANGE\<close>.
\<close>

definition strtoull :: "string \<Rightarrow> 64 word option" where
  "strtoull s = (if decimal_value s < 2 ^ 64 then Some (of_nat (decimal_value s)) else None)"

definition strtoll :: "string \<Rightarrow> 64 word option" where
  "strtoll s =
     (let n = (case s of c # r \<Rightarrow> if c = CHR ''-'' then - int (decimal_value r) else int (decimal_value s)
               | [] \<Rightarrow> 0)
      in if - (2 ^ 63) \<le> n \<and> n < 2 ^ 63 then Some (word_of_int n) else None)"

text \<open>
  \<open>strtod\<close> on a decimal number: the nearest double, ties to even. A positive rational \<open>n / d\<close> lies
  in \<open>[2 ^ e, 2 ^ (e + 1))\<close>; the double's unit is \<open>2 ^ max (e - 52) (- 1074)\<close>, and a significand
  that rounds up to the next power of two carries into the exponent field.
\<close>

fun bitlen :: "nat \<Rightarrow> nat" where
  "bitlen n = (if n = 0 then 0 else Suc (bitlen (n div 2)))"

declare bitlen.simps [simp del]

definition round_half_even :: "nat \<Rightarrow> nat \<Rightarrow> nat" where
  "round_half_even n d =
     (let q = n div d; r = n mod d
      in if 2 * r < d then q else if 2 * r > d then q + 1 else if even q then q else q + 1)"

definition ratio_exponent :: "nat \<Rightarrow> nat \<Rightarrow> int" where
  "ratio_exponent n d =
     (let e = int (bitlen n) - int (bitlen d)
      in if d * 2 ^ nat e \<le> n * 2 ^ nat (- e) then e else e - 1)"

definition double_of_ratio :: "nat \<Rightarrow> nat \<Rightarrow> nat" where
  "double_of_ratio n d =
     (if n = 0 then 0
      else let q = max (ratio_exponent n d - 52) (- 1074);
               m = round_half_even (n * 2 ^ nat (- q)) (d * 2 ^ nat q);
               bits = nat (q + 1074) * 2 ^ 52 + m
           in min bits (0x7FF * 2 ^ 52))"

definition double_of_decimal :: "bool \<Rightarrow> nat \<Rightarrow> int \<Rightarrow> 64 word" where
  "double_of_decimal neg m e =
     (if neg then 2 ^ 63 else 0) + of_nat (double_of_ratio (m * 10 ^ nat e) (10 ^ nat (- e)))"

definition strtod :: "string \<Rightarrow> 64 word" where
  "strtod s =
     (let neg = (s \<noteq> [] \<and> hd s = CHR ''-'');
          s1 = (if neg then tl s else s);
          whole = takeWhile is_digit s1;
          s2 = dropWhile is_digit s1;
          frac = (if s2 \<noteq> [] \<and> hd s2 = CHR ''.'' then takeWhile is_digit (tl s2) else []);
          s3 = (if s2 \<noteq> [] \<and> hd s2 = CHR ''.'' then dropWhile is_digit (tl s2) else s2);
          s4 = (if s3 \<noteq> [] then tl s3 else []);
          exp = (case s4 of [] \<Rightarrow> 0
                 | c # r \<Rightarrow> if c = CHR ''-'' then - int (decimal_value r)
                            else if c = CHR ''+'' then int (decimal_value r) else int (decimal_value s4))
      in double_of_decimal neg (decimal_value (whole @ frac)) (exp - int (length frac)))"

section \<open>Numbers\<close>

datatype number_state = N_minus | N_zero | N_any1 | N_decimal1 | N_decimal2 | N_exponent | N_sign | N_any2

datatype number_move = Goto number_state char | Number_done | Number_error string

text \<open>One function for each label of the automaton: what the character just read leads to.\<close>

definition is_1_to_9 :: "char \<Rightarrow> bool" where
  "is_1_to_9 c \<longleftrightarrow> is_digit c \<and> c \<noteq> CHR ''0''"

definition number_init :: "char \<Rightarrow> number_state option" where
  "number_init c =
     (if c = CHR ''-'' then Some N_minus else if c = CHR ''0'' then Some N_zero
      else if is_1_to_9 c then Some N_any1 else None)"

definition number_minus :: "char option \<Rightarrow> number_move" where
  "number_minus c =
     (case c of
        Some c \<Rightarrow> if c = CHR ''0'' then Goto N_zero c else if is_1_to_9 c then Goto N_any1 c
          else Number_error (''invalid number; expected digit after '' @ [CHR 0x27] @ ''-'' @ [CHR 0x27])
      | None \<Rightarrow> Number_error (''invalid number; expected digit after '' @ [CHR 0x27] @ ''-'' @ [CHR 0x27]))"

definition number_zero :: "char \<Rightarrow> char option \<Rightarrow> number_move" where
  "number_zero decimal_point c =
     (case c of
        Some c \<Rightarrow> if c = CHR ''.'' then Goto N_decimal1 decimal_point
          else if c = CHR ''e'' \<or> c = CHR ''E'' then Goto N_exponent c else Number_done
      | None \<Rightarrow> Number_done)"

definition number_any1 :: "char \<Rightarrow> char option \<Rightarrow> number_move" where
  "number_any1 decimal_point c =
     (case c of
        Some c \<Rightarrow> if is_digit c then Goto N_any1 c
          else if c = CHR ''.'' then Goto N_decimal1 decimal_point
          else if c = CHR ''e'' \<or> c = CHR ''E'' then Goto N_exponent c else Number_done
      | None \<Rightarrow> Number_done)"

definition number_decimal1 :: "char option \<Rightarrow> number_move" where
  "number_decimal1 c =
     (case c of
        Some c \<Rightarrow> if is_digit c then Goto N_decimal2 c
          else Number_error (''invalid number; expected digit after '' @ [CHR 0x27] @ ''.'' @ [CHR 0x27])
      | None \<Rightarrow> Number_error (''invalid number; expected digit after '' @ [CHR 0x27] @ ''.'' @ [CHR 0x27]))"

definition number_decimal2 :: "char option \<Rightarrow> number_move" where
  "number_decimal2 c =
     (case c of
        Some c \<Rightarrow> if is_digit c then Goto N_decimal2 c
          else if c = CHR ''e'' \<or> c = CHR ''E'' then Goto N_exponent c else Number_done
      | None \<Rightarrow> Number_done)"

definition exponent_message :: string where
  "exponent_message = ''invalid number; expected '' @ [CHR 0x27] @ ''+'' @ [CHR 0x27] @ '', '' @
     [CHR 0x27] @ ''-'' @ [CHR 0x27] @ '', or digit after exponent''"

definition number_exponent :: "char option \<Rightarrow> number_move" where
  "number_exponent c =
     (case c of
        Some c \<Rightarrow> if c = CHR ''+'' \<or> c = CHR ''-'' then Goto N_sign c
          else if is_digit c then Goto N_any2 c else Number_error exponent_message
      | None \<Rightarrow> Number_error exponent_message)"

definition number_sign :: "char option \<Rightarrow> number_move" where
  "number_sign c =
     (case c of
        Some c \<Rightarrow> if is_digit c then Goto N_any2 c
          else Number_error ''invalid number; expected digit after exponent sign''
      | None \<Rightarrow> Number_error ''invalid number; expected digit after exponent sign'')"

definition number_any2 :: "char option \<Rightarrow> number_move" where
  "number_any2 c =
     (case c of Some c \<Rightarrow> if is_digit c then Goto N_any2 c else Number_done | None \<Rightarrow> Number_done)"

fun number_step :: "char \<Rightarrow> number_state \<Rightarrow> char option \<Rightarrow> number_move" where
  "number_step dp N_minus c = number_minus c"
| "number_step dp N_zero c = number_zero dp c"
| "number_step dp N_any1 c = number_any1 dp c"
| "number_step dp N_decimal1 c = number_decimal1 c"
| "number_step dp N_decimal2 c = number_decimal2 c"
| "number_step dp N_exponent c = number_exponent c"
| "number_step dp N_sign c = number_sign c"
| "number_step dp N_any2 c = number_any2 c"

text \<open>What a label makes of the type of the number.\<close>

definition number_type_at :: "number_state \<Rightarrow> token_type \<Rightarrow> token_type" where
  "number_type_at st t =
     (if st = N_minus then Value_integer
      else if st = N_decimal1 \<or> st = N_exponent then Value_float else t)"

definition number_float :: "lexer \<Rightarrow> token_type \<times> lexer" where
  "number_float l = (Value_float, l\<lparr>value_float := strtod (token_buffer l)\<rparr>)"

definition number_done :: "token_type \<Rightarrow> lexer \<Rightarrow> token_type \<times> lexer" where
  "number_done number_type l =
     (if number_type = Value_unsigned
      then (case strtoull (token_buffer l) of
              Some x \<Rightarrow> (Value_unsigned, l\<lparr>value_unsigned := x\<rparr>) | None \<Rightarrow> number_float l)
      else if number_type = Value_integer
      then (case strtoll (token_buffer l) of
              Some x \<Rightarrow> (Value_integer, l\<lparr>value_integer := x\<rparr>) | None \<Rightarrow> number_float l)
      else number_float l)"

lemma number_step_Goto: "number_step dp st c = Goto st' d \<Longrightarrow> c \<noteq> None"
  by (cases st; cases c)
     (simp_all add: number_minus_def number_zero_def number_any1_def number_decimal1_def number_decimal2_def
       number_exponent_def number_sign_def number_any2_def)

function scan_number_loop :: "number_state \<Rightarrow> token_type \<Rightarrow> lexer \<Rightarrow> token_type \<times> lexer" where
  "scan_number_loop st t l =
     (let t1 = number_type_at st t; l1 = get l
      in case number_step (decimal_point_char l1) st (current l1) of
           Goto st' c \<Rightarrow> scan_number_loop st' t1 (add c l1)
         | Number_done \<Rightarrow> number_done t1 (unget l1)
         | Number_error m \<Rightarrow> (Token_error, scan_error m l1))"
  by pat_completeness auto
termination
  by (relation "measure (\<lambda>(st, t, l). unread l)")
     (auto intro!: get_unread_less dest!: number_step_Goto)

declare scan_number_loop.simps [simp del]

text \<open>Entered with a digit or a minus sign; anything else would violate an assertion.\<close>

definition scan_number :: "lexer \<Rightarrow> token_type \<times> lexer" where
  "scan_number l =
     (let l1 = reset l
      in case current l1 of
           None \<Rightarrow> (Token_error, l1)
         | Some c \<Rightarrow>
             (case number_init c of
                None \<Rightarrow> (Token_error, l1)
              | Some st \<Rightarrow> scan_number_loop st Value_unsigned (add c l1)))"

section \<open>Literals and tokens\<close>

text \<open>The characters of the literal after the first, which has been read.\<close>

fun scan_literal :: "string \<Rightarrow> token_type \<Rightarrow> lexer \<Rightarrow> token_type \<times> lexer" where
  "scan_literal [] return_type l = (return_type, l)"
| "scan_literal (c # cs) return_type l =
     (let l1 = get l
      in if current l1 \<noteq> Some c then (Token_error, scan_error ''invalid literal'' l1)
         else scan_literal cs return_type l1)"

definition skip_bom :: "lexer \<Rightarrow> bool \<times> lexer" where
  "skip_bom l =
     (let l1 = get l
      in if current l1 = Some (CHR 0xEF)
         then (let l2 = get l1
               in if current l2 = Some (CHR 0xBB)
                  then (let l3 = get l2 in (current l3 = Some (CHR 0xBF), l3))
                  else (False, l2))
         else (True, unget l1))"

definition is_ws :: "char option \<Rightarrow> bool" where
  "is_ws c \<longleftrightarrow> c \<in> {Some (CHR '' ''), Some (CHR 0x09), Some (CHR 0x0A), Some (CHR 0x0D)}"

function skip_whitespace :: "lexer \<Rightarrow> lexer" where
  "skip_whitespace l = (let l1 = get l in if is_ws (current l1) then skip_whitespace l1 else l1)"
  by pat_completeness auto
termination
  by (relation "measure unread") (auto simp: is_ws_def intro: get_unread_less)

declare skip_whitespace.simps [simp del]

lemma skip_whitespace_unread:
  "unread (skip_whitespace l) \<le> unread l \<and>
   (current (skip_whitespace l) \<noteq> None \<longrightarrow> unread (skip_whitespace l) < unread l)"
proof (induction l rule: skip_whitespace.induct)
  case (1 l)
  then show ?case
    using get_unread [of l] get_unread_less [of l]
    by (subst (1 2 3) skip_whitespace.simps) (auto simp: Let_def)
qed

text \<open>\<open>False\<close> when a comment is malformed.\<close>

function skip_comments :: "lexer \<Rightarrow> bool \<times> lexer" where
  "skip_comments l =
     (if ignore_comments l \<and> current l = Some (CHR ''/'')
      then (case scan_comment l of
              (True, l1) \<Rightarrow> skip_comments (skip_whitespace l1)
            | (False, l1) \<Rightarrow> (False, l1))
      else (True, l))"
  by pat_completeness auto
termination
  by (relation "measure unread")
     (auto dest!: sym [of "(_, _)"] scan_comment_unread(2)
       intro: le_less_trans conjunct1 [OF skip_whitespace_unread])

declare skip_comments.simps [simp del]

definition scan_token :: "lexer \<Rightarrow> token_type \<times> lexer" where
  "scan_token l =
     (case current l of
        None \<Rightarrow> (End_of_input, l)
      | Some c \<Rightarrow>
          if c = CHR ''['' then (Begin_array, l)
          else if c = CHR '']'' then (End_array, l)
          else if c = CHR ''{'' then (Begin_object, l)
          else if c = CHR ''}'' then (End_object, l)
          else if c = CHR '':'' then (Name_separator, l)
          else if c = CHR '','' then (Value_separator, l)
          else if c = CHR ''t'' then scan_literal ''rue'' Literal_true l
          else if c = CHR ''f'' then scan_literal ''alse'' Literal_false l
          else if c = CHR ''n'' then scan_literal ''ull'' Literal_null l
          else if c = CHR 0x22 then scan_string l
          else if c = CHR ''-'' \<or> is_digit c then scan_number l
          else if c = CHR 0x00 then (End_of_input, l)
          else (Token_error, scan_error ''invalid literal'' l))"

definition scan :: "lexer \<Rightarrow> token_type \<times> lexer" where
  "scan l =
     (let (bom, l1) = (if chars_read_total (position l) = 0 then skip_bom l else (True, l))
      in if \<not> bom then (Token_error, scan_error ''invalid BOM; must be 0xEF 0xBB 0xBF if given'' l1)
         else case skip_comments (skip_whitespace l1) of
                (False, l2) \<Rightarrow> (Token_error, l2)
              | (True, l2) \<Rightarrow> scan_token l2)"

text \<open>The last token read, for error messages.\<close>

definition token_char :: "char \<Rightarrow> string" where
  "token_char c =
     (if of_char c \<le> (0x1F :: nat) then ''<U+00'' @ hex_bytes (of_char c) @ ''>'' else [c])"

definition get_token_string :: "lexer \<Rightarrow> string" where
  "get_token_string l = concat (map token_char (token_string l))"

section \<open>Progress\<close>

lemma scan_string_loop_unread: "unread (snd (scan_string_loop l)) \<le> unread l"
proof (induction l rule: scan_string_loop.induct)
  case (1 l)
  show ?case
  proof (cases "current (get l)")
    case None
    then show ?thesis using get_unread [of l] by (subst scan_string_loop.simps) (simp add: Let_def)
  next
    case (Some c)
    obtain ok l2 where s: "scan_character c (get l) = (ok, l2)" by fastforce
    with scan_character_unread [OF s] get_unread [of l] Some 1 [OF refl Some _ s [symmetric]]
    show ?thesis
      by (subst scan_string_loop.simps) (cases ok, auto simp: Let_def intro: order_trans)
  qed
qed

lemma number_done_unread: "unread (snd (number_done t l)) = unread l"
  by (simp add: number_done_def number_float_def unread_def split: option.split)

lemma scan_number_loop_unread: "unread (snd (scan_number_loop st t l)) \<le> unread l"
proof (induction st t l rule: scan_number_loop.induct)
  case (1 st t l)
  show ?case
  proof (cases "number_step (decimal_point_char (get l)) st (current (get l))")
    case (Goto st' c)
    from 1 [OF refl refl Goto] get_unread [of l] Goto show ?thesis
      by (subst scan_number_loop.simps) (simp add: Let_def)
  qed (use get_unread [of l] unget_get_unread [of l] in
      \<open>simp_all add: scan_number_loop.simps [of st] Let_def number_done_unread\<close>)
qed

lemma scan_literal_unread: "unread (snd (scan_literal cs t l)) \<le> unread l"
proof (induction cs t l rule: scan_literal.induct)
  case (2 c cs t l)
  then show ?case using get_unread [of l] by (auto simp: Let_def intro: order_trans)
qed simp

lemma scan_token_unread: "unread (snd (scan_token l)) \<le> unread l"
  using scan_string_loop_unread [of "reset l"] scan_number_loop_unread [of _ _ "add _ (reset l)"]
    scan_literal_unread [of _ _ l]
  by (simp add: scan_token_def scan_string_def scan_number_def Let_def
      del: scan_literal.simps split: option.split)

lemma scan_token_eof: "current l = None \<Longrightarrow> fst (scan_token l) = End_of_input"
  by (simp add: scan_token_def)

lemma skip_bom_unread: "unread (snd (skip_bom l)) \<le> unread l"
  using get_unread [of l] get_unread [of "get l"] get_unread [of "get (get l)"] unget_get_unread [of l]
  by (auto simp: skip_bom_def Let_def)

lemma skip_comments_unread:
  "unread (snd (skip_comments l)) \<le> unread l \<and>
   (fst (skip_comments l) \<and> current l = None \<longrightarrow> current (snd (skip_comments l)) = None)"
proof (induction l rule: skip_comments.induct)
  case (1 l)
  show ?case
  proof (cases "ignore_comments l \<and> current l = Some (CHR ''/'')")
    case True
    obtain ok l1 where s: "scan_comment l = (ok, l1)" by fastforce
    with True scan_comment_unread(1) [OF s] conjunct1 [OF skip_whitespace_unread, of l1]
      1 [OF True s [symmetric]] show ?thesis
      by (subst (1 2 3) skip_comments.simps) (cases ok, auto)
  next
    case False
    then show ?thesis by (subst (1 2 3) skip_comments.simps) auto
  qed
qed

text \<open>Every token but the end of the input and an error consumes input.\<close>

lemma scan_unread:
  assumes "scan l = (t, l')"
  shows "unread l' \<le> unread l" "t \<noteq> End_of_input \<Longrightarrow> t \<noteq> Token_error \<Longrightarrow> unread l' < unread l"
proof -
  define b where "b = (if chars_read_total (position l) = 0 then skip_bom l else (True, l))"
  define w where "w = skip_whitespace (snd b)"
  have b: "unread (snd b) \<le> unread l" by (simp add: b_def skip_bom_unread)
  have w: "unread w \<le> unread (snd b)" "current w \<noteq> None \<Longrightarrow> unread w < unread (snd b)"
    using skip_whitespace_unread [of "snd b"] by (auto simp: w_def)
  have s: "scan l = (if \<not> fst b then (Token_error, scan_error ''invalid BOM; must be 0xEF 0xBB 0xBF if given'' (snd b))
      else if fst (skip_comments w) then scan_token (snd (skip_comments w)) else (Token_error, snd (skip_comments w)))"
    by (simp add: scan_def b_def [symmetric] w_def case_prod_beta Let_def split: bool.split)
  show "unread l' \<le> unread l"
    using assms s b w(1) skip_comments_unread [of w] scan_token_unread [of "snd (skip_comments w)"]
    by (auto split: if_splits)
  assume t: "t \<noteq> End_of_input" "t \<noteq> Token_error"
  with assms s have "fst (skip_comments w)" "scan_token (snd (skip_comments w)) = (t, l')"
    by (auto split: if_splits)
  moreover from this t have "current w \<noteq> None"
    using scan_token_eof [of "snd (skip_comments w)"] skip_comments_unread [of w] by auto
  ultimately show "unread l' < unread l"
    using b w(2) skip_comments_unread [of w] scan_token_unread [of "snd (skip_comments w)"] by simp
qed

end
