(* ===== verification/Json_Parser.thy ===== *)
theory Json_Parser
  imports Json_Lexer "HOL-Library.Char_ord" "HOL-Library.List_Lexorder"
begin

text \<open>
  The parser of the vendored JSON library (class \<open>parser\<close>) and the builder of values it drives
  (class \<open>json_sax_dom_parser\<close>), both in \<open>include/json.hpp\<close>, up to \<open>basic_json::parse\<close>. The builder's
  pointers into the value under construction are paths from the root. Objects are \<open>std::map\<close>s,
  here lists of members in ascending order of their keys. Callbacks are not used by the program.
\<close>

section \<open>Values under construction\<close>

text \<open>\<open>std::map::operator[]\<close>: a null value is inserted when the key is absent.\<close>

fun obj_index :: "string \<Rightarrow> (string \<times> json) list \<Rightarrow> (string \<times> json) list" where
  "obj_index k [] = [(k, J_null)]"
| "obj_index k ((k', v) # ms) =
     (if k = k' then (k', v) # ms
      else if k < k' then (k, J_null) # (k', v) # ms
      else (k', v) # obj_index k ms)"

datatype path_step = At nat | Member string

type_synonym path = "path_step list"

fun at_path :: "path \<Rightarrow> json \<Rightarrow> json option" where
  "at_path [] v = Some v"
| "at_path (At i # p) (J_array vs) = (if i < length vs then at_path p (vs ! i) else None)"
| "at_path (Member k # p) (J_object ms) =
     (case map_of ms k of None \<Rightarrow> None | Some v \<Rightarrow> at_path p v)"
| "at_path (_ # p) _ = None"

fun update_at :: "path \<Rightarrow> (json \<Rightarrow> json) \<Rightarrow> json \<Rightarrow> json" where
  "update_at [] f v = f v"
| "update_at (At i # p) f (J_array vs) = J_array (vs[i := update_at p f (vs ! i)])"
| "update_at (Member k # p) f (J_object ms) =
     J_object (map (\<lambda>(k', v). (k', if k' = k then update_at p f v else v)) ms)"
| "update_at (_ # p) f v = v"

section \<open>The builder\<close>

record sax_dom =
  root :: json
  ref_stack :: "path list"
  object_element :: "path option"
  errored :: bool
  allow_exceptions :: bool

definition new_sax_dom :: "bool \<Rightarrow> sax_dom" where
  "new_sax_dom allow =
     \<lparr>root = J_null, ref_stack = [], object_element = None, errored = False, allow_exceptions = allow\<rparr>"

text \<open>Adds a value where the builder stands and returns where it is now.\<close>

definition handle_value :: "json \<Rightarrow> sax_dom \<Rightarrow> (path \<times> sax_dom) result" where
  "handle_value v d =
     (if ref_stack d = [] then Inr ([], d\<lparr>root := v\<rparr>)
      else let p = last (ref_stack d)
           in case at_path p (root d) of
                Some (J_array vs) \<Rightarrow>
                  Inr (p @ [At (length vs)], d\<lparr>root := update_at p (\<lambda>_. J_array (vs @ [v])) (root d)\<rparr>)
              | Some (J_object ms) \<Rightarrow>
                  (case object_element d of
                     None \<Rightarrow> Inl Assertion_failed
                   | Some q \<Rightarrow> Inr (q, d\<lparr>root := update_at q (\<lambda>_. v) (root d)\<rparr>))
              | _ \<Rightarrow> Inl Assertion_failed)"

definition sax_value :: "json \<Rightarrow> sax_dom \<Rightarrow> sax_dom result" where
  "sax_value v d = bindr (handle_value v d) (\<lambda>(p, d'). Inr d')"

definition sax_null :: "sax_dom \<Rightarrow> sax_dom result" where
  "sax_null d = sax_value J_null d"

definition sax_boolean :: "bool \<Rightarrow> sax_dom \<Rightarrow> sax_dom result" where
  "sax_boolean val d = sax_value (J_bool val) d"

definition sax_number_integer :: "64 word \<Rightarrow> sax_dom \<Rightarrow> sax_dom result" where
  "sax_number_integer val d = sax_value (J_int val) d"

definition sax_number_unsigned :: "64 word \<Rightarrow> sax_dom \<Rightarrow> sax_dom result" where
  "sax_number_unsigned val d = sax_value (J_uint val) d"

definition sax_number_float :: "64 word \<Rightarrow> sax_dom \<Rightarrow> sax_dom result" where
  "sax_number_float val d = sax_value (J_float val) d"

definition sax_string :: "string \<Rightarrow> sax_dom \<Rightarrow> sax_dom result" where
  "sax_string val d = sax_value (J_string val) d"

text \<open>The length is unknown when parsing text, so that the size check does not apply.\<close>

definition start_object :: "sax_dom \<Rightarrow> sax_dom result" where
  "start_object d =
     bindr (handle_value (J_object []) d) (\<lambda>(p, d'). Inr (d'\<lparr>ref_stack := ref_stack d' @ [p]\<rparr>))"

definition sax_key :: "string \<Rightarrow> sax_dom \<Rightarrow> sax_dom result" where
  "sax_key val d =
     (if ref_stack d = [] then Inl Assertion_failed
      else let p = last (ref_stack d)
           in case at_path p (root d) of
                Some (J_object ms) \<Rightarrow>
                  Inr (d\<lparr>root := update_at p (\<lambda>_. J_object (obj_index val ms)) (root d),
                         object_element := Some (p @ [Member val])\<rparr>)
              | _ \<Rightarrow> Inl Assertion_failed)"

definition end_object :: "sax_dom \<Rightarrow> sax_dom result" where
  "end_object d =
     (if ref_stack d = [] then Inl Assertion_failed
      else case at_path (last (ref_stack d)) (root d) of
             Some (J_object ms) \<Rightarrow> Inr (d\<lparr>ref_stack := butlast (ref_stack d)\<rparr>)
           | _ \<Rightarrow> Inl Assertion_failed)"

definition start_array :: "sax_dom \<Rightarrow> sax_dom result" where
  "start_array d =
     bindr (handle_value (J_array []) d) (\<lambda>(p, d'). Inr (d'\<lparr>ref_stack := ref_stack d' @ [p]\<rparr>))"

definition end_array :: "sax_dom \<Rightarrow> sax_dom result" where
  "end_array d =
     (if ref_stack d = [] then Inl Assertion_failed
      else case at_path (last (ref_stack d)) (root d) of
             Some (J_array vs) \<Rightarrow> Inr (d\<lparr>ref_stack := butlast (ref_stack d)\<rparr>)
           | _ \<Rightarrow> Inl Assertion_failed)"

text \<open>Throws, or records the error.\<close>

definition sax_parse_error :: "json_error \<Rightarrow> sax_dom \<Rightarrow> sax_dom result" where
  "sax_parse_error ex d = (if allow_exceptions d then Inl ex else Inr (d\<lparr>errored := True\<rparr>))"

section \<open>The parser\<close>

text \<open>The parser with the local variables of its loop; the last of \<open>states\<close> is the head.\<close>

record parser =
  last_token :: token_type
  m_lexer :: lexer
  states :: "bool list"
  skip_to_state_evaluation :: bool
  sax :: sax_dom

definition get_token :: "parser \<Rightarrow> parser" where
  "get_token p = (case scan (m_lexer p) of (t, l) \<Rightarrow> p\<lparr>last_token := t, m_lexer := l\<rparr>)"

definition exception_message :: "token_type \<Rightarrow> string \<Rightarrow> parser \<Rightarrow> string" where
  "exception_message expected context p =
     ''syntax error '' @
     (if context \<noteq> [] then ''while parsing '' @ context @ '' '' else []) @
     ''- '' @
     (if last_token p = Token_error
      then error_message (m_lexer p) @ ''; last read: '' @ [CHR 0x27] @ get_token_string (m_lexer p) @ [CHR 0x27]
      else ''unexpected '' @ token_type_name (last_token p)) @
     (if expected \<noteq> Uninitialized then ''; expected '' @ token_type_name expected else [])"

definition position_string :: "position_t \<Rightarrow> string" where
  "position_string pos =
     '' at line '' @ digits (lines_read pos + 1) @ '', column '' @ digits (chars_read_current_line pos)"

definition parse_error_create :: "nat \<Rightarrow> position_t \<Rightarrow> string \<Rightarrow> json_error" where
  "parse_error_create n pos what_arg =
     Parse_error n (''parse error'' @ position_string pos @ '': '' @ what_arg)"

datatype flow =
    Break parser
  | Continue parser
  | Return bool parser
  | Throw json_error

definition sax_report :: "json_error \<Rightarrow> parser \<Rightarrow> flow" where
  "sax_report ex p =
     (case sax_parse_error ex (sax p) of Inl e \<Rightarrow> Throw e | Inr d \<Rightarrow> Return False (p\<lparr>sax := d\<rparr>))"

definition unexpected :: "token_type \<Rightarrow> string \<Rightarrow> parser \<Rightarrow> flow" where
  "unexpected expected context p =
     sax_report (parse_error_create 101 (position (m_lexer p)) (exception_message expected context p)) p"

text \<open>An event of the builder, which never returns false, and what follows.\<close>

definition event :: "(sax_dom \<Rightarrow> sax_dom result) \<Rightarrow> (parser \<Rightarrow> flow) \<Rightarrow> parser \<Rightarrow> flow" where
  "event f k p = (case f (sax p) of Inl e \<Rightarrow> Throw e | Inr d \<Rightarrow> k (p\<lparr>sax := d\<rparr>))"

text \<open>A key and the colon after it; then the first token of the value is read.\<close>

definition parse_key :: "(parser \<Rightarrow> flow) \<Rightarrow> parser \<Rightarrow> flow" where
  "parse_key k p =
     (if last_token p \<noteq> Value_string then unexpected Value_string ''object key'' p
      else event (sax_key (token_buffer (m_lexer p)))
        (\<lambda>p1. let p2 = get_token p1
              in if last_token p2 \<noteq> Name_separator then unexpected Name_separator ''object separator'' p2
                 else k p2) p)"

definition value_begin_object :: "parser \<Rightarrow> flow" where
  "value_begin_object p =
     event start_object
       (\<lambda>p1. let p2 = get_token p1
             in if last_token p2 = End_object then event end_object Break p2
                else parse_key (\<lambda>p3. Continue (get_token (p3\<lparr>states := False # states p3\<rparr>))) p2) p"

definition value_begin_array :: "parser \<Rightarrow> flow" where
  "value_begin_array p =
     event start_array
       (\<lambda>p1. let p2 = get_token p1
             in if last_token p2 = End_array then event end_array Break p2
                else Continue (p2\<lparr>states := True # states p2\<rparr>)) p"

definition value_number_float :: "parser \<Rightarrow> flow" where
  "value_number_float p =
     (if \<not> isfinite (value_float (m_lexer p))
      then sax_report (Out_of_range 406 (''number overflow parsing '' @ [CHR 0x27] @
             get_token_string (m_lexer p) @ [CHR 0x27])) p
      else event (sax_number_float (value_float (m_lexer p))) Break p)"

definition value_end_of_input :: "parser \<Rightarrow> flow" where
  "value_end_of_input p =
     (if chars_read_total (position (m_lexer p)) = 1
      then sax_report (parse_error_create 101 (position (m_lexer p))
             ''attempting to parse an empty input; check that your input string or stream contains the expected JSON'') p
      else unexpected Literal_or_value ''value'' p)"

definition value_step :: "parser \<Rightarrow> flow" where
  "value_step p =
     (case last_token p of
        Begin_object \<Rightarrow> value_begin_object p
      | Begin_array \<Rightarrow> value_begin_array p
      | Value_float \<Rightarrow> value_number_float p
      | Literal_false \<Rightarrow> event (sax_boolean False) Break p
      | Literal_null \<Rightarrow> event sax_null Break p
      | Literal_true \<Rightarrow> event (sax_boolean True) Break p
      | Value_integer \<Rightarrow> event (sax_number_integer (value_integer (m_lexer p))) Break p
      | Value_string \<Rightarrow> event (sax_string (token_buffer (m_lexer p))) Break p
      | Value_unsigned \<Rightarrow> event (sax_number_unsigned (value_unsigned (m_lexer p))) Break p
      | Token_error \<Rightarrow> unexpected Uninitialized ''value'' p
      | End_of_input \<Rightarrow> value_end_of_input p
      | _ \<Rightarrow> unexpected Literal_or_value ''value'' p)"

definition leave :: "parser \<Rightarrow> flow" where
  "leave p = Continue (p\<lparr>states := tl (states p), skip_to_state_evaluation := True\<rparr>)"

definition array_state :: "parser \<Rightarrow> flow" where
  "array_state p =
     (let p1 = get_token p
      in if last_token p1 = Value_separator then Continue (get_token p1)
         else if last_token p1 = End_array then event end_array leave p1
         else unexpected End_array ''array'' p1)"

definition object_state :: "parser \<Rightarrow> flow" where
  "object_state p =
     (let p1 = get_token p
      in if last_token p1 = Value_separator then parse_key (\<lambda>p2. Continue (get_token p2)) (get_token p1)
         else if last_token p1 = End_object then event end_object leave p1
         else unexpected End_object ''object'' p1)"

definition state_step :: "parser \<Rightarrow> flow" where
  "state_step p =
     (case states p of
        [] \<Rightarrow> Return True p
      | True # _ \<Rightarrow> array_state p
      | False # _ \<Rightarrow> object_state p)"

text \<open>One round of the loop.\<close>

definition parse_round :: "parser \<Rightarrow> flow" where
  "parse_round p =
     (if \<not> skip_to_state_evaluation p
      then (case value_step p of Break p1 \<Rightarrow> state_step p1 | f \<Rightarrow> f)
      else state_step (p\<lparr>skip_to_state_evaluation := False\<rparr>))"

text \<open>What is left to do: a token that was read counts until it is handled.\<close>

definition work :: "parser \<Rightarrow> nat" where
  "work p = 2 * unread (m_lexer p) +
     (if skip_to_state_evaluation p \<or> last_token p \<notin> {End_of_input, Token_error} then 1 else 0)"

lemma get_token_sel [simp]:
  "states (get_token p) = states p" "skip_to_state_evaluation (get_token p) = skip_to_state_evaluation p"
  "sax (get_token p) = sax p"
  by (simp_all add: get_token_def case_prod_beta)

lemma get_token_work: "\<not> skip_to_state_evaluation p \<Longrightarrow> work (get_token p) \<le> 2 * unread (m_lexer p)"
proof -
  obtain t l where s: "scan (m_lexer p) = (t, l)" by fastforce
  from scan_unread [OF this] show "\<not> skip_to_state_evaluation p \<Longrightarrow> work (get_token p) \<le> 2 * unread (m_lexer p)"
    by (auto simp: work_def get_token_def s)
qed

lemma get_token_unread: "unread (m_lexer (get_token p)) \<le> unread (m_lexer p)"
  using scan_unread(1) [of "m_lexer p"] by (auto simp: get_token_def split: prod.split)

text \<open>A step that leaves at most \<open>n\<close> characters to read.\<close>

definition bounded :: "nat \<Rightarrow> flow \<Rightarrow> bool" where
  "bounded n f \<longleftrightarrow>
     (case f of Break p \<Rightarrow> unread (m_lexer p) \<le> n \<and> \<not> skip_to_state_evaluation p
      | Continue p \<Rightarrow> work p \<le> 2 * n | _ \<Rightarrow> True)"

lemma bounded_simps [simp]:
  "bounded n (Break p) \<longleftrightarrow> unread (m_lexer p) \<le> n \<and> \<not> skip_to_state_evaluation p"
  "bounded n (Continue p) \<longleftrightarrow> work p \<le> 2 * n" "bounded n (Return b p)" "bounded n (Throw e)"
  by (simp_all add: bounded_def)

lemma bounded_sax_report [simp]: "bounded n (sax_report e p)" "bounded n (unexpected t c p)"
  by (simp_all add: sax_report_def unexpected_def split: sum.split)

lemma bounded_event: "(\<And>d. bounded n (k (p\<lparr>sax := d\<rparr>))) \<Longrightarrow> bounded n (event f k p)"
  by (simp add: event_def split: sum.split)

lemma work_get_token_le:
  "\<not> skip_to_state_evaluation p \<Longrightarrow> unread (m_lexer p) \<le> n \<Longrightarrow> work (get_token p) \<le> 2 * n"
  using get_token_work [of p] by linarith

lemma unread_get_token_le: "unread (m_lexer p) \<le> n \<Longrightarrow> unread (m_lexer (get_token p)) \<le> n"
  using get_token_unread [of p] by linarith

lemma bounded_parse_key:
  assumes "\<not> skip_to_state_evaluation p" and "unread (m_lexer p) \<le> n"
    and "\<And>q. \<not> skip_to_state_evaluation q \<Longrightarrow> unread (m_lexer q) \<le> n \<Longrightarrow> bounded n (k q)"
  shows "bounded n (parse_key k p)"
  using assms by (auto simp: parse_key_def Let_def intro!: bounded_event assms(3) unread_get_token_le)

lemma bounded_value_begin_object:
  "\<not> skip_to_state_evaluation p \<Longrightarrow> bounded (unread (m_lexer p)) (value_begin_object p)"
  by (auto simp: value_begin_object_def Let_def
      intro!: bounded_event bounded_parse_key unread_get_token_le work_get_token_le)

lemma work_states [simp]: "work (p\<lparr>states := st\<rparr>) = work p"
  by (simp add: work_def)

lemma bounded_value_begin_array:
  "\<not> skip_to_state_evaluation p \<Longrightarrow> bounded (unread (m_lexer p)) (value_begin_array p)"
  by (auto simp: value_begin_array_def Let_def
      intro!: bounded_event unread_get_token_le work_get_token_le)

lemma bounded_value_step:
  assumes "\<not> skip_to_state_evaluation p"
  shows "bounded (unread (m_lexer p)) (value_step p)"
  using assms bounded_value_begin_object [OF assms] bounded_value_begin_array [OF assms]
  by (auto simp: value_step_def value_number_float_def value_end_of_input_def
      intro!: bounded_event split: token_type.split)

text \<open>A closing bracket was read, so that something was consumed.\<close>

lemma bounded_leave:
  assumes "\<not> skip_to_state_evaluation p" and "last_token (get_token p) \<notin> {End_of_input, Token_error}"
    and "unread (m_lexer p) \<le> n"
  shows "bounded n (event f leave (get_token p))"
proof -
  obtain t l where s: "scan (m_lexer p) = (t, l)" by fastforce
  with assms(2) have "unread l < unread (m_lexer p)" using scan_unread(2) [OF s] by (simp add: get_token_def)
  with s assms(3) show ?thesis by (intro bounded_event) (simp add: leave_def work_def get_token_def)
qed

lemma bounded_state_step:
  assumes "\<not> skip_to_state_evaluation p" and "unread (m_lexer p) \<le> n"
  shows "bounded n (state_step p)"
  using assms
  by (auto simp: state_step_def array_state_def object_state_def Let_def split: list.split bool.split
      intro!: bounded_leave bounded_parse_key work_get_token_le unread_get_token_le)

lemma stop_no_value:
  "last_token p \<in> {End_of_input, Token_error} \<Longrightarrow> value_step p \<noteq> Break q \<and> value_step p \<noteq> Continue q"
  by (auto simp: value_step_def value_end_of_input_def unexpected_def sax_report_def
      split: sum.splits if_splits)

lemma parse_round_work:
  assumes "parse_round p = Continue q"
  shows "work q < work p"
proof (cases "skip_to_state_evaluation p")
  case True
  with assms bounded_state_step [of "p\<lparr>skip_to_state_evaluation := False\<rparr>" "unread (m_lexer p)"]
  show ?thesis by (simp add: parse_round_def work_def)
next
  case False
  note v = bounded_value_step [OF False]
  from False assms have t: "last_token p \<notin> {End_of_input, Token_error}"
    using stop_no_value [of p] by (auto simp: parse_round_def split: flow.splits)
  have "work q \<le> 2 * unread (m_lexer p)"
  proof (cases "value_step p")
    case (Break r)
    with v bounded_state_step [of r "unread (m_lexer p)"] assms False show ?thesis
      by (simp add: parse_round_def)
  qed (use v assms False in \<open>simp_all add: parse_round_def\<close>)
  with t show ?thesis by (simp add: work_def)
qed

function sax_parse_internal :: "parser \<Rightarrow> (bool \<times> parser) result" where
  "sax_parse_internal p =
     (case parse_round p of
        Continue q \<Rightarrow> sax_parse_internal q
      | Return b q \<Rightarrow> Inr (b, q)
      | Throw e \<Rightarrow> Inl e
      | Break q \<Rightarrow> Inr (True, q))"
  by pat_completeness auto
termination
  by (relation "measure work") (simp_all add: parse_round_work)

declare sax_parse_internal.simps [simp del]

definition new_parser :: "string \<Rightarrow> bool \<Rightarrow> bool \<Rightarrow> parser" where
  "new_parser adapter allow skip_comments' =
     get_token \<lparr>last_token = Uninitialized, m_lexer = new_lexer adapter skip_comments', states = [],
       skip_to_state_evaluation = False, sax = new_sax_dom allow\<rparr>"

text \<open>\<open>parser::parse\<close> without a callback; an error that does not throw gives a discarded value.\<close>

definition parser_parse :: "bool \<Rightarrow> parser \<Rightarrow> json result" where
  "parser_parse strict p =
     bindr (sax_parse_internal p)
       (\<lambda>(ok, p1).
          let p2 = (if strict then get_token p1 else p1)
          in bindr (if strict \<and> last_token p2 \<noteq> End_of_input
                    then sax_parse_error (parse_error_create 101 (position (m_lexer p2))
                           (exception_message End_of_input ''value'' p2)) (sax p2)
                    else Inr (sax p2))
               (\<lambda>d. Inr (if errored d then J_discarded else root d)))"

text \<open>\<open>basic_json::parse\<close>, and the call with its default arguments.\<close>

definition basic_parse :: "string \<Rightarrow> bool \<Rightarrow> bool \<Rightarrow> json result" where
  "basic_parse i allow skip_comments' = parser_parse True (new_parser i allow skip_comments')"

definition parse_json :: "string \<Rightarrow> json result" where
  "parse_json i = basic_parse i True False"

end
