(* ===== verification/Json_Reading.thy ===== *)
theory Json_Reading
  imports Json_Parser
begin

text \<open>
  What the lexer makes of the texts that the serializer writes: strings, integers, literals and
  punctuation are scanned as the tokens they were printed from.
\<close>

section \<open>Reading a known text\<close>

text \<open>The lexer is about to read \<open>s\<close>; the decimal point is that of the C locale.\<close>

definition reads :: "lexer \<Rightarrow> string \<Rightarrow> bool" where
  "reads l s \<longleftrightarrow> decimal_point_char l = CHR ''.'' \<and>
     (if next_unget l then (case current l of None \<Rightarrow> s = [] \<and> ia l = [] | Some c \<Rightarrow> s = c # ia l) else ia l = s)"

lemma reads_get:
  "reads l (c # s) \<Longrightarrow> current (get l) = Some c" "reads l (c # s) \<Longrightarrow> reads (get l) s"
  "reads l [] \<Longrightarrow> current (get l) = None" "reads l [] \<Longrightarrow> reads (get l) []"
  by (auto simp: reads_def get_sel split: if_splits option.splits list.splits)

lemma reads_unget: "reads l s \<Longrightarrow> reads (unget (get l)) s"
  by (cases s) (auto simp: reads_def get_sel split: if_splits option.splits list.splits)

lemma reads_add [simp]: "reads (add c l) s = reads l s" "token_buffer (add c l) = token_buffer l @ [c]"
  "current (add c l) = current l"
  by (simp_all add: add_def reads_def split: option.split)

lemma reads_reset [simp]: "reads (reset l) s = reads l s" "token_buffer (reset l) = []"
  "current (reset l) = current l"
  by (simp_all add: reset_def reads_def split: option.split)

lemma reads_number_values [simp]:
  "reads (l\<lparr>value_unsigned := x\<rparr>) s = reads l s" "reads (l\<lparr>value_integer := x\<rparr>) s = reads l s"
  "reads (l\<lparr>value_float := x\<rparr>) s = reads l s"
  by (simp_all add: reads_def split: option.split)

section \<open>Strings\<close>

lemma scan_string_step:
  assumes "reads l (c # s)" and "c \<noteq> CHR 0x22" and "scan_character c (get l) = (True, l')"
  shows "scan_string_loop l = scan_string_loop l'"
  using assms by (subst scan_string_loop.simps) (simp add: reads_get Let_def)

lemma scan_string_end: "reads l (CHR 0x22 # s) \<Longrightarrow> scan_string_loop l = (Value_string, get l)"
  by (subst scan_string_loop.simps) (simp add: reads_get Let_def)

text \<open>The text of one code point takes the loop from one state to the next.\<close>

definition scans :: "lexer \<Rightarrow> string \<Rightarrow> string \<Rightarrow> bool" where
  "scans l x s \<longleftrightarrow> (\<exists>l'. scan_string_loop l = scan_string_loop l' \<and> reads l' s \<and>
     token_buffer l' = token_buffer l @ x)"

lemma scans_trans:
  assumes "scans l x s" and "\<And>l'. reads l' s \<Longrightarrow> scans l' y t"
  shows "scans l (x @ y) t"
proof -
  from assms(1) obtain l1 where 1: "scan_string_loop l = scan_string_loop l1" "reads l1 s"
    "token_buffer l1 = token_buffer l @ x" by (auto simp: scans_def)
  from assms(2) [OF 1(2)] obtain l2 where "scan_string_loop l1 = scan_string_loop l2" "reads l2 t"
    "token_buffer l2 = token_buffer l1 @ y" by (auto simp: scans_def)
  with 1 show ?thesis by (auto simp: scans_def)
qed

lemma scans_plain:
  assumes "0x20 \<le> (of_char c :: nat)" "of_char c \<le> (0x7F :: nat)" "c \<noteq> CHR 0x22" "c \<noteq> CHR 0x5C"
    and "reads l (c # s)"
  shows "scans l [c] s"
proof -
  have "scan_character c (get l) = (True, add c (get l))"
    using assms(1,2,4) by (simp add: scan_character_def Let_def)
  from scan_string_step [OF assms(5,3) this] reads_get(2) [OF assms(5)] show ?thesis
    by (auto simp: scans_def intro!: exI [of _ "add c (get l)"])
qed

lemma scan_escape_step:
  assumes "reads l (CHR 0x5C # c # s)" and "scan_escape (get l) = (True, l')"
  shows "scan_string_loop l = scan_string_loop l'"
  using assms by (intro scan_string_step [OF assms(1)]) (simp_all add: scan_character_def Let_def)

definition short_escapes :: "(char \<times> char) list" where
  "short_escapes = [(CHR 0x22, CHR 0x22), (CHR 0x5C, CHR 0x5C), (CHR ''b'', CHR 0x08), (CHR ''f'', CHR 0x0C),
     (CHR ''n'', CHR 0x0A), (CHR ''r'', CHR 0x0D), (CHR ''t'', CHR 0x09)]"

lemma scans_short:
  assumes "(e, c) \<in> set short_escapes" and "reads l (CHR 0x5C # e # s)"
  shows "scans l [c] s"
proof -
  let ?l = "get (get l)"
  have r: "reads (get l) (e # s)" "reads ?l s" "current ?l = Some e"
    using assms(2) by (auto intro: reads_get)
  have "scan_escape (get l) = (True, add c ?l)"
    using assms(1) r(3) by (auto simp: short_escapes_def scan_escape_def Let_def)
  from scan_escape_step [OF assms(2) this] r(2) show ?thesis
    by (auto simp: scans_def intro!: exI [of _ "add c ?l"])
qed

lemma hex_value_hex4:
  "d < 16 \<Longrightarrow> hex_value (Some (''0123456789abcdef'' ! d)) = Some d"
proof -
  have "list_all (\<lambda>d. hex_value (Some (''0123456789abcdef'' ! d)) = Some d) [0..<16]" by code_simp
  then show "d < 16 \<Longrightarrow> hex_value (Some (''0123456789abcdef'' ! d)) = Some d" by (simp add: list_all_iff)
qed

lemma hex4_sum:
  "n div 4096 * 4096 + n div 256 mod 16 * 256 + n div 16 mod 16 * 16 + n mod 16 = (n :: nat)"
proof -
  define a b c where "a = n div 16" "b = n div 256" "c = n div 4096"
  have "b = a div 16" "c = b div 16"
    by (simp_all add: a_b_c_def div_mult2_eq [symmetric])
  then have "16 * a + n mod 16 = n" "16 * b + a mod 16 = a" "16 * c + b mod 16 = b"
    by (simp_all add: a_b_c_def(1))
  then show ?thesis unfolding a_b_c_def(1) [symmetric] a_b_c_def(2) [symmetric] a_b_c_def(3) [symmetric] by simp
qed

lemma get_codepoint_hex4:
  assumes "n < 65536" and "reads l (hex4 n @ s)"
  shows "get_codepoint l = (Some n, get (get (get (get l))))" "reads (get (get (get (get l)))) s"
proof -
  let ?h = "\<lambda>i. ''0123456789abcdef'' ! (n div 16 ^ i mod 16)"
  have r: "reads l (?h 3 # ?h 2 # ?h 1 # ?h 0 # s)" using assms(2) by (simp add: hex4_def Let_def)
  note r1 = reads_get(2) [OF r] note r2 = reads_get(2) [OF r1] note r3 = reads_get(2) [OF r2]
  show "reads (get (get (get (get l)))) s" by (rule reads_get(2) [OF r3])
  note c = reads_get(1) [OF r] reads_get(1) [OF r1] reads_get(1) [OF r2] reads_get(1) [OF r3]
  have "n div 4096 < 16" using assms(1) by (simp add: div_less_iff_less_mult)
  with hex4_sum [of n] show "get_codepoint l = (Some n, get (get (get (get l))))"
    by (simp add: get_codepoint_def Let_def c hex_value_hex4 push_bit_eq_mult)
qed

lemma scans_control:
  assumes "n < 0x20" and "reads l ([CHR 0x5C, CHR ''u''] @ hex4 n @ s)"
  shows "scans l [char_of n] s"
proof -
  have r: "reads l (CHR 0x5C # CHR ''u'' # hex4 n @ s)" using assms(2) by simp
  let ?u = "get (get l)"
  have u: "current ?u = Some (CHR ''u'')" "reads ?u (hex4 n @ s)" using r by (auto intro: reads_get)
  note g = get_codepoint_hex4 [OF _ u(2)]
  let ?l = "add (char_of n) (get (get (get (get ?u))))"
  have "scan_escape (get l) = (True, ?l)"
    using u(1) g(1) assms(1) by (simp add: scan_escape_def scan_unicode_def add_codepoint_def Let_def)
  from scan_escape_step [OF r this] g(2) assms(1) show ?thesis
    by (auto simp: scans_def intro!: exI [of _ ?l])
qed

text \<open>Code points of several bytes.\<close>

lemma bytes_in_range_reads:
  "list_all2 (\<lambda>(lo, hi) b. lo \<le> b \<and> b \<le> hi \<and> b < 256) rs bs \<Longrightarrow> reads l (map char_of bs @ s) \<Longrightarrow>
   \<exists>l'. bytes_in_range rs l = (True, l') \<and> reads l' s \<and> token_buffer l' = token_buffer l @ map char_of bs"
proof (induction rs bs arbitrary: l rule: list_all2_induct)
  case (Cons r rs b bs)
  obtain lo hi where r: "r = (lo, hi)" by fastforce
  have g: "current (get l) = Some (char_of b)" "reads (get l) (map char_of bs @ s)"
    using Cons.prems by (auto intro: reads_get)
  from Cons.IH [of "add (char_of b) (get l)"] g(2) obtain l'
    where "bytes_in_range rs (add (char_of b) (get l)) = (True, l')" "reads l' s"
      "token_buffer l' = token_buffer l @ char_of b # map char_of bs" by auto
  with g(1) Cons.hyps(1) r show ?case by (simp add: Let_def)
qed simp

lemma scans_multibyte:
  assumes "list_all2 (\<lambda>(lo, hi) b. lo \<le> b \<and> b \<le> hi \<and> b < 256) rs bs" and "0x80 \<le> b" "b < 256"
    and "scan_multibyte (char_of b) (get l) = next_byte_in_range (char_of b) rs (get l)"
    and "reads l (map char_of (b # bs) @ s)"
  shows "scans l (map char_of (b # bs)) s"
proof -
  have r: "reads l (char_of b # map char_of bs @ s)" using assms(5) by simp
  have ne: "char_of b \<noteq> CHR 0x22" "char_of b \<noteq> CHR 0x5C"
    using assms(2,3) byte_char [of b] by (auto dest: arg_cong [of _ _ "of_char :: char \<Rightarrow> nat"])
  from bytes_in_range_reads [OF assms(1), of "add (char_of b) (get l)" s] reads_get(2) [OF r]
  obtain l' where l': "next_byte_in_range (char_of b) rs (get l) = (True, l')" "reads l' s"
    "token_buffer l' = token_buffer l @ map char_of (b # bs)"
    by (auto simp: next_byte_in_range_def)
  have "scan_character (char_of b) (get l) = (True, l')"
    using ne assms(2-4) l'(1) by (simp add: scan_character_def Let_def)
  from scan_string_step [OF r ne(1) this] l' show ?thesis by (auto simp: scans_def)
qed

lemma scans_encoded:
  assumes "scalar c" and "0x80 \<le> c" and "reads l (map char_of (utf8_encode c) @ s)"
  shows "scans l (map char_of (utf8_encode c)) s"
  using assms(1)
proof (cases rule: encode_shape)
  case one
  with assms(2) show ?thesis by simp
next
  case (two x z)
  with assms(3) show ?thesis
    by (simp only: two(5))
       (rule scans_multibyte [of "[(0x80, 0xBF)]"], auto simp: scan_multibyte_def)
next
  case (three x y z)
  note r = assms(3) [unfolded three(7)]
  consider "x = 0" | "x = 13" | "x \<noteq> 0" "x \<noteq> 13" by blast
  then show ?thesis unfolding three(7)
  proof cases
    case 1
    with three(1-5) show "scans l (map char_of [224 + x, 128 + y, 128 + z]) s"
      by (intro scans_multibyte [OF _ _ _ _ r, of "[(0xA0, 0xBF), (0x80, 0xBF)]"])
         (auto simp: scan_multibyte_def)
  next
    case 2
    with three(1-5) show "scans l (map char_of [224 + x, 128 + y, 128 + z]) s"
      by (intro scans_multibyte [OF _ _ _ _ r, of "[(0x80, 0x9F), (0x80, 0xBF)]"])
         (auto simp: scan_multibyte_def)
  next
    case 3
    with three(1) have "x \<le> 12 \<or> x = 14 \<or> x = 15" by linarith
    with 3 three(1-5) show "scans l (map char_of [224 + x, 128 + y, 128 + z]) s"
      by (intro scans_multibyte [OF _ _ _ _ r, of "[(0x80, 0xBF), (0x80, 0xBF)]"])
         (auto simp: scan_multibyte_def)
  qed
next
  case (four w x y z)
  note r = assms(3) [unfolded four(8)]
  consider "w = 0" | "w = 4" | "w \<noteq> 0" "w \<noteq> 4" by blast
  then show ?thesis unfolding four(8)
  proof cases
    case 1
    with four(1-6) show "scans l (map char_of [240 + w, 128 + x, 128 + y, 128 + z]) s"
      by (intro scans_multibyte [OF _ _ _ _ r, of "[(0x90, 0xBF), (0x80, 0xBF), (0x80, 0xBF)]"])
         (auto simp: scan_multibyte_def)
  next
    case 2
    with four(1-6) show "scans l (map char_of [240 + w, 128 + x, 128 + y, 128 + z]) s"
      by (intro scans_multibyte [OF _ _ _ _ r, of "[(0x80, 0x8F), (0x80, 0xBF), (0x80, 0xBF)]"])
         (auto simp: scan_multibyte_def)
  next
    case 3
    with four(1-6) show "scans l (map char_of [240 + w, 128 + x, 128 + y, 128 + z]) s"
      by (intro scans_multibyte [OF _ _ _ _ r, of "[(0x80, 0xBF), (0x80, 0xBF), (0x80, 0xBF)]"])
         (auto simp: scan_multibyte_def)
  qed
qed

text \<open>The escape of a character below 80.\<close>

lemma escape_small:
  assumes "n < 0x80"
  obtains (short) e where "escape False n = [CHR 0x5C, e]" "(e, char_of n) \<in> set short_escapes"
  | (control) "n < 0x20" "escape False n = [CHR 0x5C, CHR ''u''] @ hex4 n"
  | (plain) "escape False n = [char_of n]" "0x20 \<le> n" "char_of n \<noteq> CHR 0x22" "char_of n \<noteq> CHR 0x5C"
proof -
  have ne: "char_of n \<noteq> CHR 0x22" "char_of n \<noteq> CHR 0x5C" if "n \<noteq> 0x22" "n \<noteq> 0x5C"
    using that assms byte_char [of n] by (auto dest: arg_cong [of _ _ "of_char :: char \<Rightarrow> nat"])
  consider "n \<in> {0x08, 0x09, 0x0A, 0x0C, 0x0D, 0x22, 0x5C}"
    | "n < 0x20" "n \<notin> {0x08, 0x09, 0x0A, 0x0C, 0x0D}" | "0x20 \<le> n" "n \<noteq> 0x22" "n \<noteq> 0x5C"
    by (cases "n < 0x20") auto
  then show thesis
  proof cases
    case 1
    have "list_all (\<lambda>n. case escape False n of [b, e] \<Rightarrow> b = CHR 0x5C \<and> (e, char_of n) \<in> set short_escapes
        | _ \<Rightarrow> False) [0x08, 0x09, 0x0A, 0x0C, 0x0D, 0x22, 0x5C]" by code_simp
    with 1 short show ?thesis by (auto simp: list_all_iff split: list.splits)
  next
    case 2
    then show ?thesis by (intro control) (auto simp: escape_def)
  next
    case 3
    with assms ne show ?thesis by (intro plain) (auto simp: escape_def utf8_encode_def)
  qed
qed

lemma scans_scalar:
  assumes "scalar c" and "reads l (escape False c @ s)"
  shows "scans l (map char_of (utf8_encode c)) s"
proof (cases "c < 0x80")
  case True
  then have e: "map char_of (utf8_encode c) = [char_of c]" "of_char (char_of c :: char) = c"
    by (simp_all add: utf8_encode_def)
  from True show ?thesis
  proof (cases rule: escape_small)
    case (short x)
    with scans_short [OF short(2), of l s] assms(2) show ?thesis by (simp add: e)
  next
    case control
    with scans_control [of c l s] assms(2) show ?thesis by (simp add: e)
  next
    case plain
    with scans_plain [of "char_of c" l s] assms(2) True show ?thesis by (simp add: e)
  qed
next
  case False
  with assms scans_encoded [OF assms(1)] escape_copied [of False c] show ?thesis
    by (simp add: escaped_def)
qed

lemma scans_scalars:
  "list_all scalar cs \<Longrightarrow> reads l (concat (map (escape False) cs) @ s) \<Longrightarrow>
   scans l (map char_of (utf8_string cs)) s"
proof (induction cs arbitrary: l)
  case Nil
  then show ?case by (auto simp: scans_def)
next
  case (Cons c cs)
  then have "scans l (map char_of (utf8_encode c)) (concat (map (escape False) cs) @ s)"
    by (intro scans_scalar) simp_all
  from scans_trans [OF this, of "map char_of (utf8_string cs)" s] Cons show ?case by simp
qed

lemma scan_string_quoted:
  assumes "valid_utf8 (bytes_of x)" and "reads l (concat (map escape_char x) @ CHR 0x22 # s)"
  shows "\<exists>l'. scan_string l = (Value_string, l') \<and> reads l' s \<and> token_buffer l' = x"
proof -
  from assms(1) obtain cs where cs: "list_all scalar cs" "bytes_of x = utf8_string cs"
    by (auto simp: valid_utf8_def)
  then have x: "x = map char_of (utf8_string cs)" using chars_of_bytes [of x] by simp
  from assms(2) have "reads (reset l) (concat (map (escape False) cs) @ CHR 0x22 # s)"
    by (simp only: x escape_string [OF cs(1)] reads_reset)
  from scans_scalars [OF cs(1) this] obtain l1 where l1: "scan_string l = scan_string_loop l1"
    "reads l1 (CHR 0x22 # s)" "token_buffer l1 = x" by (auto simp: scans_def scan_string_def x)
  with scan_string_end [OF l1(2)] reads_get(2) [OF l1(2)] show ?thesis by auto
qed

section \<open>Numbers\<close>

definition ends_number :: "string \<Rightarrow> bool" where
  "ends_number s \<longleftrightarrow>
     (case s of [] \<Rightarrow> True | c # r \<Rightarrow> \<not> is_digit c \<and> c \<notin> {CHR ''.'', CHR ''e'', CHR ''E''})"

lemma scan_number_goto:
  assumes "reads l (c # s)" and "number_step (decimal_point_char l) st (Some c) = Goto st' d"
  shows "scan_number_loop st t l = scan_number_loop st' (number_type_at st t) (add d (get l))"
  using assms by (subst scan_number_loop.simps) (simp add: Let_def reads_get)

lemma scan_number_stop:
  assumes "reads l s" and "number_step (decimal_point_char l) st (current (get l)) = Number_done"
  shows "scan_number_loop st t l = number_done (number_type_at st t) (unget (get l))"
  using assms by (subst scan_number_loop.simps) (simp add: Let_def)

lemma digit_chars: "is_digit c \<Longrightarrow> c \<noteq> CHR ''.''" "is_digit c \<Longrightarrow> c \<noteq> CHR ''e''" "is_digit c \<Longrightarrow> c \<noteq> CHR ''E''"
  "is_digit c \<Longrightarrow> c \<noteq> CHR ''-''"
  by (auto simp: is_digit_def)

lemma scan_any1:
  "list_all is_digit ds \<Longrightarrow> ends_number s \<Longrightarrow> reads l (ds @ s) \<Longrightarrow>
   \<exists>l'. scan_number_loop N_any1 t l = number_done t l' \<and> reads l' s \<and> token_buffer l' = token_buffer l @ ds"
proof (induction ds arbitrary: l)
  case Nil
  then have r: "reads l s" by simp
  have "number_step (decimal_point_char l) N_any1 (current (get l)) = Number_done"
    using Nil.prems(2) r
    by (cases s) (simp_all add: reads_get number_any1_def ends_number_def)
  from scan_number_stop [OF r this] reads_unget [OF r] show ?case
    by (auto simp: number_type_at_def intro!: exI [of _ "unget (get l)"])
next
  case (Cons d ds)
  then have r: "reads l (d # ds @ s)" and d: "is_digit d" by simp_all
  from scan_number_goto [OF r, of N_any1 N_any1 d] d
  have 1: "scan_number_loop N_any1 t l = scan_number_loop N_any1 t (add d (get l))"
    by (simp add: number_any1_def number_type_at_def)
  from Cons.IH [of "add d (get l)"] Cons.prems reads_get(2) [OF r] show ?case unfolding 1 by auto
qed

lemma scan_zero:
  assumes "ends_number s" and "reads l s"
  shows "\<exists>l'. scan_number_loop N_zero t l = number_done t l' \<and> reads l' s \<and> token_buffer l' = token_buffer l"
proof -
  have "number_step (decimal_point_char l) N_zero (current (get l)) = Number_done"
    using assms by (cases s) (simp_all add: reads_get number_zero_def ends_number_def)
  from scan_number_stop [OF assms(2) this] reads_unget [OF assms(2)] show ?thesis
    by (auto simp: number_type_at_def intro!: exI [of _ "unget (get l)"])
qed

lemma digits_shape: "0 < n \<Longrightarrow> \<exists>c ds. digits n = c # ds \<and> is_1_to_9 c \<and> list_all is_digit ds"
proof (induction n rule: digits.induct)
  case (1 n)
  show ?case
  proof (cases "n < 10")
    case True
    have "digit n \<noteq> CHR ''0''"
      using 1(2) True digit_ok [of n] by (auto simp: digit_value_def dest: arg_cong [of _ _ digit_value])
    with True show ?thesis by (simp add: digits_small is_1_to_9_def digit_ok)
  next
    case False
    then have "0 < n div 10" by simp
    with 1(1) False obtain c ds where "digits (n div 10) = c # ds" "is_1_to_9 c" "list_all is_digit ds"
      by auto
    with False show ?thesis by (simp add: digits_step digit_ok)
  qed
qed

text \<open>The digits of a number, after the part of the token already in the buffer.\<close>

lemma scan_digits:
  assumes "ends_number s"
  obtains c ds where "digits n = c # ds" "is_digit c"
    "\<And>l t. reads l (ds @ s) \<Longrightarrow>
      \<exists>l'. scan_number_loop (if c = CHR ''0'' then N_zero else N_any1) t l = number_done t l' \<and> reads l' s \<and>
        token_buffer l' = token_buffer l @ ds"
    "c \<noteq> CHR ''0'' \<longleftrightarrow> is_1_to_9 c"
proof (cases "n = 0")
  case True
  show ?thesis
    by (rule that [of "CHR ''0''" "[]"])
       (use True scan_zero [OF assms] in \<open>auto simp: digits_small digit_0 is_digit_def is_1_to_9_def\<close>)
next
  case False
  then obtain c ds where c: "digits n = c # ds" "is_1_to_9 c" "list_all is_digit ds"
    using digits_shape [of n] by auto
  show ?thesis
    by (rule that [OF c(1)]) (use c scan_any1 [OF c(3) assms] in \<open>auto simp: is_1_to_9_def\<close>)
qed

lemma number_done_unsigned:
  "decimal_value (token_buffer l) < 2 ^ 64 \<Longrightarrow>
   number_done Value_unsigned l = (Value_unsigned, l\<lparr>value_unsigned := of_nat (decimal_value (token_buffer l))\<rparr>)"
  by (simp add: number_done_def strtoull_def)

lemma scan_number_unsigned:
  assumes "reads l (tl (digits n) @ s)" and "current l = Some (hd (digits n))" and "ends_number s" and "n < 2 ^ 64"
  shows "\<exists>l'. scan_number l = (Value_unsigned, l') \<and> reads l' s \<and> value_unsigned l' = of_nat n"
proof -
  obtain c ds where c: "digits n = c # ds" "is_digit c"
    "\<And>l t. reads l (ds @ s) \<Longrightarrow>
      \<exists>l'. scan_number_loop (if c = CHR ''0'' then N_zero else N_any1) t l = number_done t l' \<and> reads l' s \<and>
        token_buffer l' = token_buffer l @ ds"
    "c \<noteq> CHR ''0'' \<longleftrightarrow> is_1_to_9 c"
    using scan_digits [OF assms(3), of n] by blast
  let ?l = "add c (reset l)"
  have "reads ?l (ds @ s)" using assms(1) c(1) by simp
  from c(3) [OF this, of Value_unsigned] obtain l'
    where l': "scan_number_loop (if c = CHR ''0'' then N_zero else N_any1) Value_unsigned ?l =
        number_done Value_unsigned l'" "reads l' s" "token_buffer l' = digits n"
    using c(1) by auto
  have "scan_number l = number_done Value_unsigned l'"
    using assms(2) c(1,2,4) digit_chars(4) [OF c(2)] l'(1)
    by (auto simp: scan_number_def number_init_def Let_def)
  with number_done_unsigned [of l'] l' assms(4) show ?thesis by simp
qed

lemma scan_number_negative:
  assumes "reads l (digits n @ s)" and "current l = Some (CHR ''-'')" and "ends_number s" and "0 < n" "n \<le> 2 ^ 63"
  shows "\<exists>l'. scan_number l = (Value_integer, l') \<and> reads l' s \<and> value_integer l' = word_of_int (- int n)"
proof -
  obtain c ds where c: "digits n = c # ds" "is_digit c"
    "\<And>l t. reads l (ds @ s) \<Longrightarrow>
      \<exists>l'. scan_number_loop (if c = CHR ''0'' then N_zero else N_any1) t l = number_done t l' \<and> reads l' s \<and>
        token_buffer l' = token_buffer l @ ds"
    "c \<noteq> CHR ''0'' \<longleftrightarrow> is_1_to_9 c"
    using scan_digits [OF assms(3), of n] by blast
  let ?l = "add (CHR ''-'') (reset l)"
  have r: "reads ?l (c # ds @ s)" using assms(1) c(1) by simp
  then have "reads (add c (get ?l)) (ds @ s)" by (simp add: reads_get(2) [OF r])
  from c(3) [OF this, of Value_integer] obtain l'
    where l': "scan_number_loop (if c = CHR ''0'' then N_zero else N_any1) Value_integer (add c (get ?l)) =
        number_done Value_integer l'" "reads l' s" "token_buffer l' = CHR ''-'' # digits n"
    using c(1) by auto
  have m: "scan_number l = scan_number_loop N_minus Value_unsigned ?l"
    using assms(2) by (simp add: scan_number_def number_init_def Let_def)
  also have "\<dots> = scan_number_loop (if c = CHR ''0'' then N_zero else N_any1) Value_integer (add c (get ?l))"
    using scan_number_goto [OF r, of N_minus "if c = CHR ''0'' then N_zero else N_any1" c Value_unsigned] c(4)
    by (cases "c = CHR ''0''") (simp_all add: number_minus_def number_type_at_def)
  finally have "scan_number l = number_done Value_integer l'" using l'(1) by simp
  moreover have "strtoll (CHR ''-'' # digits n) = Some (word_of_int (- int n))"
    using assms(5) by (simp add: strtoll_def)
  ultimately show ?thesis using l' by (simp add: number_done_def)
qed

section \<open>Tokens\<close>

lemma skip_bom_none:
  assumes "reads l s" and "\<And>r. s \<noteq> CHR 0xEF # r"
  shows "skip_bom l = (True, unget (get l))"
  using assms by (cases s) (auto simp: skip_bom_def reads_get Let_def)

lemma skip_whitespace_none: "\<not> is_ws (current (get l)) \<Longrightarrow> skip_whitespace l = get l"
  by (subst skip_whitespace.simps) (simp add: Let_def)

lemma skip_comments_none: "current l \<noteq> Some (CHR ''/'') \<Longrightarrow> skip_comments l = (True, l)"
  by (subst skip_comments.simps) simp

lemma scan_at:
  assumes "reads l s" and "\<And>r. s \<noteq> CHR 0xEF # r" and "\<And>r. s \<noteq> CHR ''/'' # r" and "s = [] \<or> \<not> is_ws (Some (hd s))"
  obtains l1 where "scan l = scan_token l1" "current l1 = (case s of [] \<Rightarrow> None | c # r \<Rightarrow> Some c)"
    "reads l1 (tl s)"
proof -
  define l0 where "l0 = (if chars_read_total (position l) = 0 then unget (get l) else l)"
  have r: "reads l0 s" using assms(1) reads_unget by (simp add: l0_def)
  have b: "(if chars_read_total (position l) = 0 then skip_bom l else (True, l)) = (True, l0)"
    using skip_bom_none [OF assms(1,2)] by (simp add: l0_def)
  have g: "current (get l0) = (case s of [] \<Rightarrow> None | c # r \<Rightarrow> Some c)" "reads (get l0) (tl s)"
    using r by (cases s; auto intro: reads_get)+
  then have "\<not> is_ws (current (get l0))" "current (get l0) \<noteq> Some (CHR ''/'')"
    using assms(3,4) by (auto simp: is_ws_def split: list.splits)
  then have "scan l = scan_token (get l0)"
    by (simp add: scan_def b skip_whitespace_none skip_comments_none)
  with g that show ?thesis by blast
qed

lemma scan_end: "reads l [] \<Longrightarrow> fst (scan l) = End_of_input"
  by (rule scan_at [of l "[]"]) (simp_all add: scan_token_eof)

definition punctuation :: "(char \<times> token_type) list" where
  "punctuation = [(CHR ''['', Begin_array), (CHR '']'', End_array), (CHR ''{'', Begin_object),
     (CHR ''}'', End_object), (CHR '':'', Name_separator), (CHR '','', Value_separator)]"

lemma scan_token_punctuation:
  assumes "(c, t) \<in> set punctuation" and "current l = Some c"
  shows "scan_token l = (t, l)"
proof -
  from assms(1) have "c = CHR ''['' \<and> t = Begin_array \<or> c = CHR '']'' \<and> t = End_array \<or>
    c = CHR ''{'' \<and> t = Begin_object \<or> c = CHR ''}'' \<and> t = End_object \<or>
    c = CHR '':'' \<and> t = Name_separator \<or> c = CHR '','' \<and> t = Value_separator"
    by (simp add: punctuation_def)
  then show ?thesis using assms(2) unfolding scan_token_def by (elim disjE conjE) simp_all
qed

lemma scan_punctuation:
  assumes "(c, t) \<in> set punctuation" and "reads l (c # s)"
  shows "\<exists>l'. scan l = (t, l') \<and> reads l' s"
proof -
  have "c \<noteq> CHR 0xEF" "c \<noteq> CHR ''/''" "\<not> is_ws (Some c)"
    using assms(1) by (auto simp: punctuation_def is_ws_def)
  then obtain l1 where "scan l = scan_token l1" "current l1 = Some c" "reads l1 s"
    by (auto intro: scan_at [OF assms(2)])
  with scan_token_punctuation [OF assms(1)] show ?thesis by auto
qed

lemma scan_literal_reads:
  "reads l (cs @ s) \<Longrightarrow> \<exists>l'. scan_literal cs t l = (t, l') \<and> reads l' s"
proof (induction cs arbitrary: l)
  case (Cons c cs)
  then have r: "reads l (c # cs @ s)" by simp
  from Cons.IH [OF reads_get(2) [OF r]] reads_get(1) [OF r] show ?case by (auto simp: Let_def)
qed simp

lemma scan_literals:
  "reads l (''true'' @ s) \<Longrightarrow> \<exists>l'. scan l = (Literal_true, l') \<and> reads l' s"
  "reads l (''false'' @ s) \<Longrightarrow> \<exists>l'. scan l = (Literal_false, l') \<and> reads l' s"
  "reads l (''null'' @ s) \<Longrightarrow> \<exists>l'. scan l = (Literal_null, l') \<and> reads l' s"
proof -
  have *: "\<exists>l1. scan l = scan_token l1 \<and> current l1 = Some c \<and> reads l1 (cs @ s)"
    if "reads l ((c # cs) @ s)" "c \<in> {CHR ''t'', CHR ''f'', CHR ''n''}" for c cs
    using that scan_at [of l "c # cs @ s"] by (auto simp: is_ws_def)
  show "\<exists>l'. scan l = (Literal_true, l') \<and> reads l' s" if "reads l (''true'' @ s)"
    using * [OF that] scan_literal_reads [of _ "''rue''" s Literal_true]
    by (auto simp: scan_token_def simp del: scan_literal.simps)
  show "\<exists>l'. scan l = (Literal_false, l') \<and> reads l' s" if "reads l (''false'' @ s)"
    using * [OF that] scan_literal_reads [of _ "''alse''" s Literal_false]
    by (auto simp: scan_token_def simp del: scan_literal.simps)
  show "\<exists>l'. scan l = (Literal_null, l') \<and> reads l' s" if "reads l (''null'' @ s)"
    using * [OF that] scan_literal_reads [of _ "''ull''" s Literal_null]
    by (auto simp: scan_token_def simp del: scan_literal.simps)
qed

lemma scan_quoted:
  assumes "valid_utf8 (bytes_of x)" and "reads l (quoted x @ s)"
  shows "\<exists>l'. scan l = (Value_string, l') \<and> reads l' s \<and> token_buffer l' = x"
proof -
  from assms(2) have "reads l (CHR 0x22 # concat (map escape_char x) @ CHR 0x22 # s)" by (simp add: quoted_def)
  then obtain l1 where "scan l = scan_token l1" "current l1 = Some (CHR 0x22)"
    "reads l1 (concat (map escape_char x) @ CHR 0x22 # s)"
    by (rule scan_at) (auto simp: is_ws_def)
  with scan_string_quoted [OF assms(1), of l1 s] show ?thesis by (simp add: scan_token_def)
qed

lemma number_char:
  assumes "is_digit c \<or> c = CHR ''-''"
  shows "c \<notin> set (''[]{}:,tfn'' @ [CHR 0x22, CHR 0xEF, CHR 0x09, CHR 0x0A, CHR 0x0D] @ '' /'')"
  using assms
proof
  assume "is_digit c"
  then show ?thesis by (auto simp: is_digit_def)
next
  assume "c = CHR ''-''"
  then show ?thesis by simp
qed

lemma number_first:
  assumes "is_digit c \<or> c = CHR ''-''" and "current l = Some c"
  shows "scan_token l = scan_number l"
proof -
  have "c \<noteq> CHR ''[''" "c \<noteq> CHR '']''" "c \<noteq> CHR ''{''" "c \<noteq> CHR ''}''" "c \<noteq> CHR '':''" "c \<noteq> CHR '',''"
    "c \<noteq> CHR ''t''" "c \<noteq> CHR ''f''" "c \<noteq> CHR ''n''" "c \<noteq> CHR 0x22"
    using number_char [OF assms(1)] by simp_all
  moreover from assms(1) have "c = CHR ''-'' \<or> is_digit c" by blast
  ultimately show ?thesis using assms(2) by (simp only: scan_token_def option.case if_False if_True)
qed

lemma number_start:
  assumes "is_digit c \<or> c = CHR ''-''"
  shows "c \<noteq> CHR 0xEF" "c \<noteq> CHR ''/''" "\<not> is_ws (Some c)"
  using number_char [OF assms] by (simp_all add: is_ws_def)

lemma scan_unsigned:
  assumes "reads l (digits n @ s)" and "ends_number s" and "n < 2 ^ 64"
  shows "\<exists>l'. scan l = (Value_unsigned, l') \<and> reads l' s \<and> value_unsigned l' = of_nat n"
proof -
  obtain c ds where c: "digits n = c # ds" by (cases "digits n") (auto simp: digits.simps [of n] split: if_splits)
  then have d: "is_digit c" using digits_are_digits [of n] by simp
  obtain l1 where l1: "scan l = scan_token l1" "current l1 = Some c" "reads l1 (ds @ s)"
    by (rule scan_at [OF assms(1)]) (use c number_start [of c] d in \<open>simp_all\<close>)
  with scan_number_unsigned [of l1 n s] assms(2,3) c number_first [of c l1] d show ?thesis by simp
qed

lemma scan_negative:
  assumes "reads l (CHR ''-'' # digits n @ s)" and "ends_number s" and "0 < n" "n \<le> 2 ^ 63"
  shows "\<exists>l'. scan l = (Value_integer, l') \<and> reads l' s \<and> value_integer l' = word_of_int (- int n)"
proof -
  obtain l1 where l1: "scan l = scan_token l1" "current l1 = Some (CHR ''-'')" "reads l1 (digits n @ s)"
    by (rule scan_at [OF assms(1)]) (use number_start [of "CHR ''-''"] in \<open>simp_all\<close>)
  with scan_number_negative [of l1 n s] assms(2-) number_first [of "CHR ''-''" l1] show ?thesis by simp
qed

end
