(* ===== verification/Json_Float_Reading.thy ===== *)
theory Json_Float_Reading
  imports Json_Reading
begin

text \<open>
  The text of a finite double is scanned as one floating-point token, and \<open>strtod\<close> reads from it the
  double it was written from.
\<close>

section \<open>Rounding to the nearest double\<close>

lemma bitlen_bounds: "0 < n \<Longrightarrow> 0 < bitlen n \<and> 2 ^ (bitlen n - 1) \<le> n \<and> n < 2 ^ bitlen n"
proof (induction n rule: bitlen.induct)
  case (1 n)
  then have b: "bitlen n = Suc (bitlen (n div 2))" by (simp add: bitlen.simps [of n])
  show ?case
  proof (cases "n = 1")
    case True
    then show ?thesis by (simp add: bitlen.simps)
  next
    case False
    with 1 have "0 < bitlen (n div 2) \<and> 2 ^ (bitlen (n div 2) - 1) \<le> n div 2 \<and> n div 2 < 2 ^ bitlen (n div 2)" by simp
    then show ?thesis unfolding b by (cases "bitlen (n div 2)") auto
  qed
qed

lemma two_less: "(2 :: real) powi i < 2 powi j \<Longrightarrow> i < j"
  using power_int_increasing [of j i "2 :: real"] by force

lemma ratio_exponent_bounds:
  assumes "0 < n" "0 < d"
  shows "2 powi ratio_exponent n d \<le> real n / real d" and "real n / real d < 2 powi (ratio_exponent n d + 1)"
proof -
  define e where "e = int (bitlen n) - int (bitlen d)"
  note n = bitlen_bounds [OF assms(1)] and d = bitlen_bounds [OF assms(2)]
  have up: "real x < 2 ^ bitlen x" "2 ^ (bitlen x - 1) \<le> real x" if "0 < x" for x
  proof -
    have "real x < real (2 ^ bitlen x)" "real (2 ^ (bitlen x - 1)) \<le> real x"
      using bitlen_bounds [OF that] by (simp_all only: of_nat_less_iff of_nat_le_iff)
    then show "real x < 2 ^ bitlen x" "2 ^ (bitlen x - 1) \<le> real x" by simp_all
  qed
  obtain b c where b: "bitlen d = Suc b" "bitlen n = Suc c" using n d by (metis gr0_implies_Suc)
  have "real n / real d < 2 ^ bitlen n / 2 ^ (bitlen d - 1)"
    using up(1) [OF assms(1)] up(2) [OF assms(2)] assms by (intro frac_less) simp_all
  also have "\<dots> = 2 powi (e + 1)"
  proof -
    have "e + 1 = int (bitlen n) - int b" by (simp add: e_def b)
    then show ?thesis using power_int_diff [of "2 :: real" "int (bitlen n)" "int b"]
      by (simp only: b(1) diff_Suc_1 power_int_of_nat) simp
  qed
  finally have below: "real n / real d < 2 powi (e + 1)" .
  have "2 powi (e - 1) = 2 ^ (bitlen n - 1) / (2 :: real) ^ bitlen d"
  proof -
    have "e - 1 = int c - int (bitlen d)" by (simp add: e_def b)
    then show ?thesis using power_int_diff [of "2 :: real" "int c" "int (bitlen d)"]
      by (simp only: b(2) diff_Suc_1 power_int_of_nat) simp
  qed
  also have "\<dots> \<le> real n / real d"
    using up(2) [OF assms(1)] up(1) [OF assms(2)] assms by (intro frac_le) simp_all
  finally have above: "2 powi (e - 1) \<le> real n / real d" .
  have "d * 2 ^ nat e \<le> n * 2 ^ nat (- e) \<longleftrightarrow> real (d * 2 ^ nat e) \<le> real (n * 2 ^ nat (- e))" by (simp only: of_nat_le_iff)
  also have "\<dots> \<longleftrightarrow> 2 powi e \<le> real n / real d" using assms by (simp add: powi_quotient field_simps)
  finally have "ratio_exponent n d = (if 2 powi e \<le> real n / real d then e else e - 1)"
    by (simp add: ratio_exponent_def e_def Let_def)
  with below above show "2 powi ratio_exponent n d \<le> real n / real d" "real n / real d < 2 powi (ratio_exponent n d + 1)"
    by (simp_all split: if_split)
qed

lemma near_nat: "\<bar>real a - real b\<bar> < 1 \<Longrightarrow> a = b"
  by linarith

lemma round_half_even_near:
  assumes "0 < d" and "\<bar>real n / real d - real m\<bar> < 1 / 2"
  shows "round_half_even n d = m"
proof -
  let ?q = "n div d" and ?r = "n mod d"
  define a where "a = real ?r / real d"
  have "real n = real ?q * real d + real ?r" by (metis div_mult_mod_eq of_nat_add of_nat_mult)
  then have n: "real n / real d = real ?q + a" using assms(1) by (simp add: a_def field_simps)
  have "2 * ?r < d \<longleftrightarrow> real (2 * ?r) < real d" "2 * ?r > d \<longleftrightarrow> real (2 * ?r) > real d" by (simp_all only: of_nat_less_iff)
  moreover have "2 * a = real (2 * ?r) / real d" by (simp add: a_def)
  ultimately have lt: "2 * ?r < d \<longleftrightarrow> 2 * a < 1" "2 * ?r > d \<longleftrightarrow> 2 * a > 1" using assms(1) by simp_all
  have r: "0 \<le> a" "a < 1" using assms(1) by (simp_all add: a_def)
  note near = assms(2) [unfolded n]
  consider "2 * a < 1" | "2 * a > 1" | "2 * a = 1" by linarith
  then show ?thesis
  proof cases
    case 1
    then have "?q = m" using near r by (intro near_nat) linarith
    with 1 show ?thesis by (simp add: round_half_even_def Let_def lt)
  next
    case 2
    then have "\<bar>real ?q + 1 - real m\<bar> < 1" using near r unfolding abs_less_iff by linarith
    then have "?q + 1 = m" by (intro near_nat) (simp only: of_nat_add of_nat_1)
    with 2 show ?thesis by (simp add: round_half_even_def Let_def lt)
  next
    case 3
    then have "real ?q < real m" "real m < real ?q + 1" using near unfolding abs_less_iff by linarith+
    then have "real ?q < real m" "real m < real (?q + 1)" by (simp_all only: of_nat_add of_nat_1)
    then have "?q < m" "m < ?q + 1" by (simp_all only: of_nat_less_iff)
    then show ?thesis by simp
  qed
qed

lemma double_of_ratio_nearest:
  assumes p: "double_parts x f e" and nd: "0 < n" "0 < d"
    and lo: "below f e * 2 powi e < real n / real d" and hi: "real n / real d < (real f + 1 / 2) * 2 powi e"
  shows "double_of_ratio n d = unat x"
proof -
  define V E q where "V = real n / real d" and "E = ratio_exponent n d" and "q = max (E - 52) (- 1074)"
  have x: "unat x = nat (e + 1074) * 2 ^ 52 + f" "- 1074 \<le> e" "e \<le> 971" "0 < f" "f < 2 ^ 53" "- 1074 < e \<longrightarrow> 2 ^ 52 \<le> f"
    using p by (simp_all add: double_parts_def)
  note b = ratio_exponent_bounds [OF nd, folded V_def E_def]
  have V: "below f e * 2 powi e < V" "V < (real f + 1 / 2) * 2 powi e" using lo hi by (simp_all add: V_def)
  have shift: "2 ^ i * 2 powi e = (2 :: real) powi (e + int i)" for i by (simp add: power_int_add)
  have half: "real f - 1 / 2 \<le> below f e" by (simp add: below_def)
  have "f + 1 \<le> 2 ^ 53" using x(5) by simp
  then have "real (f + 1) \<le> real (2 ^ 53)" by (simp only: of_nat_le_iff)
  then have f: "real f + 1 \<le> 2 ^ 53" by simp
  then have "(real f + 1 / 2) * 2 powi e \<le> 2 powi (e + int 53)" unfolding shift [symmetric] by (intro mult_right_mono) simp_all
  then have "2 powi E < (2 :: real) powi (e + 53)" using b(1) V(2) unfolding of_nat_numeral by linarith
  then have E: "E < e + 53" by (rule two_less)
  have ratio: "real (n * 2 ^ nat (- q)) / real (d * 2 ^ nat q) = V / 2 powi q"
    by (simp add: V_def powi_quotient)
  have rounds: "round_half_even (n * 2 ^ nat (- q)) (d * 2 ^ nat q) = m" if "V / 2 powi q < real m + 1 / 2" "real m - 1 / 2 < V / 2 powi q" for m
  proof (rule round_half_even_near)
    show "\<bar>real (n * 2 ^ nat (- q)) / real (d * 2 ^ nat q) - real m\<bar> < 1 / 2" unfolding ratio abs_less_iff using that by linarith
  qed (use nd in simp)
  have bits: "nat (q + 1074) * 2 ^ 52 + m = unat x \<Longrightarrow> round_half_even (n * 2 ^ nat (- q)) (d * 2 ^ nat q) = m \<Longrightarrow> ?thesis" for m
  proof -
    assume m: "nat (q + 1074) * 2 ^ 52 + m = unat x" "round_half_even (n * 2 ^ nat (- q)) (d * 2 ^ nat q) = m"
    have "nat (e + 1074) \<le> 2045" using x(3) by simp
    then have "unat x \<le> 0x7FF * 2 ^ 52" using x(1,5) by simp
    then show ?thesis unfolding double_of_ratio_def using nd m by (simp add: Let_def E_def [symmetric] q_def [symmetric])
  qed
  show ?thesis
  proof (cases "e = - 1074 \<or> 2 powi (e + 52) \<le> V")
    case True
    then have q: "q = e"
    proof
      assume "2 powi (e + 52) \<le> V"
      then have "2 powi (e + 52) < (2 :: real) powi (E + 1)" using b(2) by simp
      then have "e + 52 < E + 1" by (rule two_less)
      with E x(2) show ?thesis by (simp add: q_def)
    qed (use E in \<open>simp add: q_def\<close>)
    have pos: "0 < (2 :: real) powi e" by simp
    have "real f - 1 / 2 < V / 2 powi e"
    proof -
      have "(real f - 1 / 2) * 2 powi e \<le> below f e * 2 powi e" using half by (intro mult_right_mono) simp_all
      then have "(real f - 1 / 2) * 2 powi e < V" using V(1) by linarith
      then show ?thesis by (simp add: pos_less_divide_eq)
    qed
    moreover have "V / 2 powi e < real f + 1 / 2" using V(2) by (simp add: pos_divide_less_eq)
    ultimately have "round_half_even (n * 2 ^ nat (- q)) (d * 2 ^ nat q) = f"
      by (intro rounds) (simp_all add: q)
    with q x(1) show ?thesis by (intro bits) simp_all
  next
    case False
    then have e: "- 1074 < e" and small: "V < 2 powi (e + 52)" using x(2) by auto
    have f52: "f = 2 ^ 52"
    proof (rule ccontr)
      assume "f \<noteq> 2 ^ 52"
      then have "2 ^ 52 + 1 \<le> f" using x(6) e by simp
      then have "real (2 ^ 52 + 1) \<le> real f" by (simp only: of_nat_le_iff)
      then have "2 powi (e + int 52) \<le> below f e * 2 powi e" unfolding shift [symmetric] using half by (intro mult_right_mono) simp_all
      with V(1) small show False unfolding of_nat_numeral by linarith
    qed
    have bel: "below f e = 2 ^ 52 - 1 / 4" using f52 e by (simp add: below_def)
    have "2 powi (e + int 51) \<le> below f e * 2 powi e" unfolding bel shift [symmetric] by (intro mult_right_mono) simp_all
    then have "2 powi (e + 51) < (2 :: real) powi (E + 1)" using V(1) b(2) unfolding of_nat_numeral by linarith
    then have "e + 51 < E + 1" by (rule two_less)
    moreover have "2 powi E < (2 :: real) powi (e + 52)" using b(1) small by simp
    then have "E < e + 52" by (rule two_less)
    ultimately have q: "q = e - 1" using e by (simp add: q_def)
    have e1: "(2 :: real) powi e = 2 * 2 powi (e - 1)" using power_int_add [of "2 :: real" 1 "e - 1"] by simp
    have "V / 2 powi (e - 1) < 2 ^ 53" using small shift [of 52] e1 by (simp add: pos_divide_less_eq)
    moreover have "2 ^ 53 - 1 / 2 < V / 2 powi (e - 1)" using V(1) unfolding bel e1 by (simp add: pos_less_divide_eq)
    ultimately have "V / 2 powi q < real (2 ^ 53) + 1 / 2" "real (2 ^ 53) - 1 / 2 < V / 2 powi q"
      unfolding q of_nat_power of_nat_numeral by linarith+
    then have "round_half_even (n * 2 ^ nat (- q)) (d * 2 ^ nat q) = 2 ^ 53" by (rule rounds)
    moreover have "nat (q + 1074) + 1 = nat (e + 1074)" using q e by simp
    then have "nat (q + 1074) * 2 ^ 52 + 2 ^ 53 = unat x" unfolding x(1) f52 by (simp flip: \<open>nat (q + 1074) + 1 = nat (e + 1074)\<close>)
    ultimately show ?thesis by (intro bits)
  qed
qed

lemma double_of_decimal_nearest:
  assumes "decimal_of y ds k" and "real m * 10 powi j = decimal_real ds k"
  shows "double_of_decimal neg m j = (if neg then 2 ^ 63 else 0) + y"
proof -
  obtain f e where f: "double_parts y f e" "below f e * 2 powi e < decimal_real ds k" "decimal_real ds k < (real f + 1 / 2) * 2 powi e"
    using assms(1) by (auto simp: decimal_of_def)
  have r: "real (m * 10 ^ nat j) / real (10 ^ nat (- j)) = decimal_real ds k"
    unfolding assms(2) [symmetric] by (simp add: powi_quotient)
  have "1 \<le> f" using f(1) by (simp add: double_parts_def)
  then have "0 < below f e * 2 powi e" by (simp add: below_def)
  then have "0 < real m * 10 powi j" using f(2) assms(2) by linarith
  then have "0 < m" by (cases m) simp_all
  then have "double_of_ratio (m * 10 ^ nat j) (10 ^ nat (- j)) = unat y"
    by (intro double_of_ratio_nearest [OF f(1)]) (use f r in \<open>simp_all only: zero_less_power zero_less_mult_iff zero_less_numeral simp_thms nat_0_less_mult_iff\<close>)
  then show ?thesis by (simp add: double_of_decimal_def)
qed

section \<open>The parts of the text\<close>

definition exponent_part :: "int option \<Rightarrow> string" where
  "exponent_part E = (case E of None \<Rightarrow> [] | Some n \<Rightarrow> CHR ''e'' # exponent_text n)"

definition exponent_of :: "int option \<Rightarrow> int" where
  "exponent_of E = (case E of None \<Rightarrow> 0 | Some n \<Rightarrow> n)"

definition number_text :: "string \<Rightarrow> string \<Rightarrow> int option \<Rightarrow> string" where
  "number_text whole fraction E = whole @ (if fraction = [] then [] else CHR ''.'' # fraction) @ exponent_part E"

definition number_parts :: "string \<Rightarrow> string \<Rightarrow> int option \<Rightarrow> bool" where
  "number_parts whole fraction E \<longleftrightarrow> list_all is_digit whole \<and> list_all is_digit fraction \<and> whole \<noteq> []
     \<and> (whole = ''0'' \<or> hd whole \<noteq> CHR ''0'') \<and> (fraction \<noteq> [] \<or> E \<noteq> None)"

lemma decimal_value_zero: "decimal_value ''0'' = 0"
  by (simp add: decimal_value_def digit_value_def)

lemma decimal_value_zeros: "decimal_value (replicate j (CHR ''0'')) = 0"
proof (induction j)
  case (Suc j)
  have "decimal_value ([CHR ''0''] @ replicate j (CHR ''0'')) = 0"
    unfolding decimal_value_append Suc by (simp add: decimal_value_zero)
  then show ?case by simp
qed simp

lemma is_digit_zero: "is_digit (CHR ''0'')"
  by (simp add: is_digit_def)

lemma float_layout_parts:
  assumes "digit_string ds"
  obtains whole fraction E where "float_layout ds k = number_text whole fraction E" "number_parts whole fraction E"
    "real (decimal_value (whole @ fraction)) * 10 powi (exponent_of E - int (length fraction)) = decimal_real ds k"
proof -
  define n where "n = int (length ds) + k"
  have ds: "ds \<noteq> []" "list_all is_digit ds" "hd ds \<noteq> CHR ''0''" using assms by (simp_all add: digit_string_def)
  have sub: "list_all is_digit (take m ds)" "list_all is_digit (drop m ds)" for m
    using ds(2) by (auto simp: list_all_iff dest: in_set_takeD in_set_dropD)
  consider "0 \<le> k" "n \<le> 15" | "k < 0" "0 < n" "n \<le> 15" | "- 4 < n" "n \<le> 0" | "n \<le> - 4 \<or> 15 < n" by linarith
  then show thesis
  proof cases
    case 1
    let ?w = "ds @ replicate (nat k) (CHR ''0'')"
    have z: "10 powi k = (10 :: real) ^ nat k" using 1(1) by (simp add: power_int_def)
    have "real (decimal_value (?w @ ''0'')) * 10 powi (exponent_of None - int (length ''0'')) = decimal_real ds k"
      unfolding decimal_value_append by (simp add: decimal_value_zeros decimal_real_def z exponent_of_def power_int_minus decimal_value_zero)
    then show thesis
      by (intro that [of ?w "''0''" None])
         (use 1 ds in \<open>simp_all add: float_layout_def number_text_def number_parts_def exponent_part_def n_def is_digit_zero list_all_iff set_replicate_conv_if\<close>)
  next
    case 2
    have "nat n < length ds" using 2 by (simp add: n_def)
    with 2 show thesis
      by (intro that [of "take (nat n) ds" "drop (nat n) ds" None])
         (use ds sub in \<open>simp_all add: float_layout_def number_text_def number_parts_def exponent_part_def n_def Let_def decimal_real_def exponent_of_def\<close>)
  next
    case 3
    let ?f = "replicate (nat (- n)) (CHR ''0'') @ ds"
    have c: "\<not> int (length ds) \<le> n" "\<not> 0 < n" using 3 ds(1) by (simp_all, cases ds, simp_all)
    have "decimal_value (''0'' @ ?f) = decimal_value ds" unfolding decimal_value_append
      by (simp add: decimal_value_zeros decimal_value_zero)
    with c 3 show thesis
      by (intro that [of "''0''" ?f None])
         (use ds in \<open>simp_all add: float_layout_def number_text_def number_parts_def exponent_part_def n_def Let_def decimal_real_def exponent_of_def is_digit_zero list_all_iff set_replicate_conv_if\<close>)
  next
    case 4
    obtain d r where d: "ds = d # r" using ds(1) by (cases ds) simp_all
    have c: "\<not> (int (length ds) \<le> n \<and> n \<le> 15)" "\<not> (0 < n \<and> n \<le> 15)" "\<not> (- 4 < n \<and> n \<le> 0)" using 4 by auto
    have l: "float_layout ds k = number_text [d] r (Some (n - 1))"
      unfolding float_layout_def Let_def n_def [symmetric] using c by (simp only: if_False) (simp add: d number_text_def exponent_part_def)
    have "n - 1 - int (length r) = k" by (simp add: n_def d)
    with l show thesis
      by (intro that [of "[d]" r "Some (n - 1)"]) (use ds d in \<open>simp_all add: number_parts_def decimal_real_def exponent_of_def\<close>)
  qed
qed

section \<open>Reading the number\<close>

lemma exponent_digits: "\<exists>c ds. exponent_text n = (if n < 0 then CHR ''-'' else CHR ''+'') # c # ds \<and> list_all is_digit (c # ds)
    \<and> decimal_value (c # ds) = nat \<bar>n\<bar>"
proof -
  define u where "u = (if \<bar>n\<bar> < 10 then ''0'' else []) @ digits (nat \<bar>n\<bar>)"
  have "u \<noteq> []" by (simp add: u_def)
  moreover have "list_all is_digit u" using digits_are_digits [of "nat \<bar>n\<bar>"] by (simp add: u_def is_digit_zero)
  moreover have "decimal_value u = nat \<bar>n\<bar>" unfolding u_def decimal_value_append
    by (simp add: decimal_value_zero)
  moreover have "exponent_text n = (if n < 0 then CHR ''-'' else CHR ''+'') # u" by (simp add: exponent_text_def u_def)
  ultimately show ?thesis by (cases u) simp_all
qed

lemma digits_then:
  assumes "list_all is_digit ds" "s = [] \<or> \<not> is_digit (hd s)"
  shows "takeWhile is_digit (ds @ s) = ds" "dropWhile is_digit (ds @ s) = s"
  using assms by (induction ds) (cases s; auto)+

lemma not_digits: "\<not> is_digit (CHR ''.'')" "\<not> is_digit (CHR ''e'')" "\<not> is_digit (CHR ''-'')"
  by (simp_all add: is_digit_def)

lemma strtod_number_text:
  assumes "number_parts whole fraction E"
  shows "strtod ((if neg then ''-'' else []) @ number_text whole fraction E)
    = double_of_decimal neg (decimal_value (whole @ fraction)) (exponent_of E - int (length fraction))"
proof -
  have p: "list_all is_digit whole" "list_all is_digit fraction" "whole \<noteq> []" using assms by (simp_all add: number_parts_def)
  let ?s = "(if neg then ''-'' else []) @ number_text whole fraction E" and ?e = "exponent_part E"
  have "hd whole \<noteq> CHR ''-''" using p(1,3) not_digits(3) by (cases whole) auto
  then have neg: "(?s \<noteq> [] \<and> hd ?s = CHR ''-'') = neg" "(if neg then tl ?s else ?s) = number_text whole fraction E"
    using p(3) by (auto simp: number_text_def hd_append)
  have e: "?e = [] \<or> \<not> is_digit (hd ?e)" "?e \<noteq> [] \<Longrightarrow> hd ?e \<noteq> CHR ''.''"
    using not_digits by (auto simp: exponent_part_def split: option.splits)
  define s2 where "s2 = (if fraction = [] then [] else CHR ''.'' # fraction) @ ?e"
  have s2: "s2 = [] \<or> \<not> is_digit (hd s2)" using e not_digits by (auto simp: s2_def)
  have w: "takeWhile is_digit (number_text whole fraction E) = whole" "dropWhile is_digit (number_text whole fraction E) = s2"
    unfolding number_text_def s2_def [symmetric] by (rule digits_then [OF p(1) s2])+
  have f: "(if s2 \<noteq> [] \<and> hd s2 = CHR ''.'' then takeWhile is_digit (tl s2) else []) = fraction"
    "(if s2 \<noteq> [] \<and> hd s2 = CHR ''.'' then dropWhile is_digit (tl s2) else s2) = ?e"
    using e digits_then [OF p(2) e(1)] by (auto simp: s2_def)
  have x: "(case (if ?e \<noteq> [] then tl ?e else []) of [] \<Rightarrow> 0
      | c # r \<Rightarrow> if c = CHR ''-'' then - int (decimal_value r)
                 else if c = CHR ''+'' then int (decimal_value r) else int (decimal_value (if ?e \<noteq> [] then tl ?e else []))) = exponent_of E"
  proof (cases E)
    case (Some n)
    with exponent_digits [of n] show ?thesis by (auto simp: exponent_part_def exponent_of_def)
  qed (simp add: exponent_part_def exponent_of_def)
  show ?thesis unfolding strtod_def Let_def neg w f x by simp
qed

section \<open>Scanning the number\<close>

text \<open>The states a text leads through, and what they make of the type of the number.\<close>

fun number_path :: "number_state \<Rightarrow> string \<Rightarrow> number_state option" where
  "number_path st [] = Some st"
| "number_path st (c # u) =
     (case number_step (CHR ''.'') st (Some c) of
        Goto st' d \<Rightarrow> if d = c then number_path st' u else None | _ \<Rightarrow> None)"

fun type_along :: "number_state \<Rightarrow> token_type \<Rightarrow> string \<Rightarrow> token_type" where
  "type_along st t [] = number_type_at st t"
| "type_along st t (c # u) =
     (case number_step (CHR ''.'') st (Some c) of
        Goto st' d \<Rightarrow> type_along st' (number_type_at st t) u | _ \<Rightarrow> t)"

lemma scan_path:
  "number_path st u = Some st' \<Longrightarrow> reads l (u @ s) \<Longrightarrow>
   \<exists>l' t'. scan_number_loop st t l = scan_number_loop st' t' l' \<and> number_type_at st' t' = type_along st t u
     \<and> reads l' s \<and> token_buffer l' = token_buffer l @ u"
proof (induction u arbitrary: st t l)
  case (Cons c u)
  from Cons.prems(1) obtain st1 where g: "number_step (CHR ''.'') st (Some c) = Goto st1 c" "number_path st1 u = Some st'"
    by (auto split: number_move.splits if_splits)
  have r: "reads l (c # u @ s)" using Cons.prems(2) by simp
  have dp: "decimal_point_char l = CHR ''.''" using r by (simp add: reads_def)
  have "scan_number_loop st t l = scan_number_loop st1 (number_type_at st t) (add c (get l))"
    by (rule scan_number_goto [OF r]) (simp add: dp g(1))
  moreover have "reads (add c (get l)) (u @ s)" using reads_get(2) [OF r] by simp
  ultimately show ?case using Cons.IH [OF g(2), of "add c (get l)" "number_type_at st t"] g(1) by auto
qed auto

lemma number_path_append:
  "number_path st (u @ v) = (case number_path st u of None \<Rightarrow> None | Some st' \<Rightarrow> number_path st' v)"
  by (induction st u rule: number_path.induct) (auto split: number_move.splits)

lemma number_step_minus: "number_step dp st (Some c) = Goto st' d \<Longrightarrow> st' \<noteq> N_minus"
  by (cases st) (auto simp: number_minus_def number_zero_def number_any1_def number_decimal1_def number_decimal2_def
       number_exponent_def number_sign_def number_any2_def split: if_splits)

lemma type_along_float: "number_path st u \<noteq> None \<Longrightarrow> st \<noteq> N_minus \<Longrightarrow> type_along st Value_float u = Value_float"
proof (induction u arbitrary: st)
  case (Cons c u)
  then show ?case using number_step_minus [of "CHR ''.''" st c]
    by (auto simp: number_type_at_def split: number_move.splits if_splits)
qed (simp add: number_type_at_def)

lemma type_along_append:
  "number_path st u = Some st' \<Longrightarrow> v \<noteq> [] \<Longrightarrow> st' \<in> {N_decimal1, N_exponent} \<Longrightarrow> number_path st' v \<noteq> None \<Longrightarrow>
   type_along st t (u @ v) = Value_float"
proof (induction u arbitrary: st t)
  case Nil
  then obtain c w where v: "v = c # w" by (cases v) auto
  with Nil show ?case using type_along_float [of _ w] number_step_minus [of "CHR ''.''" st' c]
    by (auto simp: number_type_at_def split: number_move.splits if_splits)
qed (auto split: number_move.splits if_splits)

lemma number_path_digits:
  assumes "list_all is_digit ds"
  shows "number_path N_any1 ds = Some N_any1" "number_path N_decimal2 ds = Some N_decimal2" "number_path N_any2 ds = Some N_any2"
  using assms by (induction ds) (simp_all add: number_any1_def number_decimal2_def number_any2_def)

lemma number_path_fraction:
  assumes "list_all is_digit fraction" "fraction \<noteq> []"
  shows "number_path N_decimal1 fraction = Some N_decimal2"
  using assms number_path_digits(2) by (cases fraction) (simp_all add: number_decimal1_def)

lemma number_path_exponent: "number_path N_exponent (exponent_text n) = Some N_any2" "exponent_text n \<noteq> []"
proof -
  obtain c ds where "exponent_text n = (if n < 0 then CHR ''-'' else CHR ''+'') # c # ds" "list_all is_digit (c # ds)"
    using exponent_digits [of n] by blast
  then show "number_path N_exponent (exponent_text n) = Some N_any2" "exponent_text n \<noteq> []"
    using number_path_digits(3) [of ds] by (simp_all add: number_exponent_def number_sign_def)
qed

lemma step_point: "st \<in> {N_zero, N_any1} \<Longrightarrow> number_step (CHR ''.'') st (Some (CHR ''.'')) = Goto N_decimal1 (CHR ''.'')"
  using not_digits by (auto simp: number_zero_def number_any1_def)

lemma step_exponent: "st \<in> {N_zero, N_any1, N_decimal2} \<Longrightarrow> number_step (CHR ''.'') st (Some (CHR ''e'')) = Goto N_exponent (CHR ''e'')"
  using not_digits by (auto simp: number_zero_def number_any1_def number_decimal2_def)

text \<open>After the digits of the whole part.\<close>

lemma number_path_rest:
  assumes "number_parts whole fraction E" and "st \<in> {N_zero, N_any1}"
  obtains st' where "number_path st ((if fraction = [] then [] else CHR ''.'' # fraction) @ exponent_part E) = Some st'"
    "st' \<in> {N_decimal2, N_any2}" "type_along st t ((if fraction = [] then [] else CHR ''.'' # fraction) @ exponent_part E) = Value_float"
proof -
  have p: "list_all is_digit fraction" "fraction \<noteq> [] \<or> E \<noteq> None" using assms(1) by (simp_all add: number_parts_def)
  have s: "number_step (CHR ''.'') st (Some (CHR ''.'')) = Goto N_decimal1 (CHR ''.'')"
    "number_step (CHR ''.'') st (Some (CHR ''e'')) = Goto N_exponent (CHR ''e'')"
    using assms(2) step_point [of st] step_exponent [of st] by blast+
  show thesis
  proof (cases "fraction = []")
    case True
    with p obtain n where n: "E = Some n" by auto
    have "type_along N_exponent (number_type_at st t) (exponent_text n) = Value_float"
      using type_along_append [of N_exponent "[]" N_exponent "exponent_text n"] number_path_exponent [of n] by simp
    with True n show thesis
      by (intro that [of N_any2]) (simp_all add: exponent_part_def s number_path_exponent)
  next
    case False
    note f = number_path_fraction [OF p(1) False]
    define st' where "st' = (if E = None then N_decimal2 else N_any2)"
    have e: "number_path N_decimal2 (exponent_part E) = Some st'"
      by (cases E) (simp_all add: exponent_part_def st'_def step_exponent number_path_exponent del: number_step.simps)
    have "type_along N_decimal1 (number_type_at st t) (fraction @ exponent_part E) = Value_float"
      using type_along_append [of N_decimal1 "[]" N_decimal1 "fraction @ exponent_part E"] False
      by (simp add: number_path_append f e)
    then show thesis using False
      by (intro that [of st']) (simp_all add: s number_path_append f e st'_def)
  qed
qed

lemma type_along_prefix: "number_path st u = Some st' \<Longrightarrow> \<exists>t'. type_along st t (u @ v) = type_along st' t' v"
  by (induction u arbitrary: st t) (auto split: number_move.splits if_splits)

lemma scan_number_end:
  assumes "st \<in> {N_decimal2, N_any2}" "number_type_at st t = Value_float" "reads l s" "ends_number s"
  shows "\<exists>l'. scan_number_loop st t l = number_float l' \<and> reads l' s \<and> token_buffer l' = token_buffer l"
proof -
  have "number_step (decimal_point_char l) st (current (get l)) = Number_done"
    using assms(1,3,4) by (cases s) (auto simp: reads_get number_decimal2_def number_any2_def ends_number_def)
  from scan_number_stop [OF assms(3) this] assms(2) reads_unget [OF assms(3)] show ?thesis
    by (auto simp: number_done_def intro!: exI [of _ "unget (get l)"])
qed

text \<open>From the state of the first digit.\<close>

definition digit_state :: "char \<Rightarrow> number_state" where
  "digit_state c = (if c = CHR ''0'' then N_zero else N_any1)"

lemma number_path_text:
  assumes "number_parts (c # w) fraction E"
  obtains st' where "number_path (digit_state c) (tl (number_text (c # w) fraction E)) = Some st'" "st' \<in> {N_decimal2, N_any2}"
    "type_along (digit_state c) t (tl (number_text (c # w) fraction E)) = Value_float"
proof -
  let ?r = "(if fraction = [] then [] else CHR ''.'' # fraction) @ exponent_part E"
  have t: "tl (number_text (c # w) fraction E) = w @ ?r" by (simp add: number_text_def)
  have w: "number_path (digit_state c) w = Some (digit_state c)"
    using assms number_path_digits(1) [of w] by (auto simp: digit_state_def number_parts_def)
  obtain t' where t': "type_along (digit_state c) t (w @ ?r) = type_along (digit_state c) t' ?r"
    using type_along_prefix [OF w] by blast
  have st: "digit_state c \<in> {N_zero, N_any1}" by (simp add: digit_state_def)
  obtain st' where "number_path (digit_state c) ?r = Some st'" "st' \<in> {N_decimal2, N_any2}" "type_along (digit_state c) t' ?r = Value_float"
    by (rule number_path_rest [OF assms st, of t'])
  then show thesis by (intro that) (simp_all only: t t' number_path_append w option.case)
qed

lemma scan_number_text:
  assumes p: "number_parts whole fraction E" and e: "ends_number s"
    and l: "current l = Some c" "reads l (r @ s)" and t: "c # r = (if neg then ''-'' else []) @ number_text whole fraction E"
  shows "\<exists>l'. scan_number l = (Value_float, l') \<and> reads l' s \<and> value_float l' = strtod (c # r)"
proof -
  obtain d w where w: "whole = d # w" using p by (cases whole) (simp_all add: number_parts_def)
  have d: "is_digit d" using p w by (simp add: number_parts_def)
  have init: "number_init d = Some (digit_state d)"
    using d not_digits(3) by (auto simp: number_init_def digit_state_def is_1_to_9_def)
  have minus: "number_step (CHR ''.'') N_minus (Some d) = Goto (digit_state d) d"
    using d by (simp add: number_minus_def digit_state_def is_1_to_9_def)
  have shape: "number_text whole fraction E = d # tl (number_text whole fraction E)" by (simp add: number_text_def w)
  define st where "st = (if neg then N_minus else digit_state d)"
  have first: "number_init c = Some st" "\<exists>st'. number_path st r = Some st' \<and> st' \<in> {N_decimal2, N_any2} \<and> type_along st Value_unsigned r = Value_float"
  proof -
    note path = number_path_text [OF p [unfolded w]]
    have "c = (if neg then CHR ''-'' else d)" using arg_cong [OF t, of hd] by (simp add: number_text_def w)
    then show "number_init c = Some st" using init number_init_def [of "CHR ''-''"] by (cases neg) (simp_all add: st_def)
    show "\<exists>st'. number_path st r = Some st' \<and> st' \<in> {N_decimal2, N_any2} \<and> type_along st Value_unsigned r = Value_float"
    proof (cases neg)
      case True
      then have r: "r = d # tl (number_text (d # w) fraction E)" using t shape w by simp
      obtain st' where "number_path (digit_state d) (tl (number_text (d # w) fraction E)) = Some st'" "st' \<in> {N_decimal2, N_any2}"
        "type_along (digit_state d) Value_integer (tl (number_text (d # w) fraction E)) = Value_float" by (rule path)
      with True show ?thesis by (intro exI [of _ st']) (simp add: st_def r minus number_type_at_def del: number_step.simps)
    next
      case False
      then have r: "r = tl (number_text (d # w) fraction E)" using t w by (metis append_Nil list.sel(3))
      obtain st' where "number_path (digit_state d) (tl (number_text (d # w) fraction E)) = Some st'" "st' \<in> {N_decimal2, N_any2}"
        "type_along (digit_state d) Value_unsigned (tl (number_text (d # w) fraction E)) = Value_float" by (rule path)
      with False show ?thesis by (intro exI [of _ st']) (simp add: st_def r)
    qed
  qed
  then obtain st' where st': "number_path st r = Some st'" "st' \<in> {N_decimal2, N_any2}" "type_along st Value_unsigned r = Value_float" by blast
  let ?l = "add c (reset l)"
  have "reads ?l (r @ s)" using l(2) by simp
  from scan_path [OF st'(1) this, of Value_unsigned] obtain l1 t1 where l1: "scan_number_loop st Value_unsigned ?l = scan_number_loop st' t1 l1"
    "number_type_at st' t1 = Value_float" "reads l1 s" "token_buffer l1 = c # r" using st'(3) by auto
  from scan_number_end [OF st'(2) l1(2,3) e] obtain l2 where l2: "scan_number_loop st' t1 l1 = number_float l2" "reads l2 s" "token_buffer l2 = c # r"
    using l1(4) by auto
  have "scan_number l = number_float l2" using l(1) first(1) l1(1) l2(1) by (simp add: scan_number_def Let_def)
  then show ?thesis using l2 by (simp add: number_float_def)
qed

section \<open>Printed doubles\<close>

lemma float_text_parts:
  assumes "isfinite x"
  obtains whole fraction E neg where "float_text x = (if neg then ''-'' else []) @ number_text whole fraction E"
    "number_parts whole fraction E" "double_of_decimal neg (decimal_value (whole @ fraction)) (exponent_of E - int (length fraction)) = x"
proof -
  obtain y t where y: "float_text x = (if signbit x then ''-'' else []) @ t" "positive_text y t" "x = (if signbit x then 2 ^ 63 else 0) + y"
    using dump_float_finite [OF assms] unfolding dump_float_text sum.inject by blast
  show thesis
  proof (cases "y = 0 \<and> t = ''0.0''")
    case True
    have n: "number_text ''0'' ''0'' None = ''0.0''" "number_parts ''0'' ''0'' None"
      by (simp_all add: number_text_def exponent_part_def number_parts_def is_digit_zero)
    have z: "decimal_value (''0'' @ ''0'') = 0" unfolding decimal_value_append by (simp add: decimal_value_zero)
    have "double_of_decimal (signbit x) (decimal_value (''0'' @ ''0'')) (exponent_of None - int (length ''0'')) = x"
      unfolding z using True y(3) by (simp add: double_of_decimal_def double_of_ratio_def)
    then show thesis using True y(1) n by (intro that [of "signbit x" "''0''" "''0''" None]) simp_all
  next
    case False
    then obtain ds k where d: "decimal_of y ds k" "t = float_layout ds k" using y(2) by (auto simp: positive_text_def)
    have ds: "digit_string ds" using d(1) by (simp add: decimal_of_def)
    obtain whole fraction E where p: "float_layout ds k = number_text whole fraction E" "number_parts whole fraction E"
      "real (decimal_value (whole @ fraction)) * 10 powi (exponent_of E - int (length fraction)) = decimal_real ds k"
      by (rule float_layout_parts [OF ds])
    from double_of_decimal_nearest [OF d(1) p(3), of "signbit x"] y(3) p(1,2) d(2) y(1) show thesis
      by (intro that [of "signbit x" whole fraction E]) simp_all
  qed
qed

text \<open>Reading the text of a finite double gives the double back.\<close>

lemma strtod_float_text: "isfinite x \<Longrightarrow> strtod (float_text x) = x"
  by (rule float_text_parts [of x]) (simp_all only: strtod_number_text)

lemma scan_float:
  assumes "isfinite x" "reads l (float_text x @ s)" "ends_number s"
  shows "\<exists>l'. scan l = (Value_float, l') \<and> reads l' s \<and> value_float l' = x"
proof -
  obtain whole fraction E neg where p: "float_text x = (if neg then ''-'' else []) @ number_text whole fraction E" "number_parts whole fraction E"
    by (rule float_text_parts [OF assms(1)])
  then have "float_text x \<noteq> []" by (simp add: number_text_def number_parts_def)
  then obtain c r where c: "float_text x = c # r" by (cases "float_text x") simp_all
  have "is_digit c \<or> c = CHR ''-''"
    using c p by (cases whole) (auto simp: number_text_def number_parts_def split: if_splits)
  note ch = number_start [OF this] and first = number_first [OF this]
  obtain l1 where l1: "scan l = scan_token l1" "current l1 = Some c" "reads l1 (r @ s)"
    by (rule scan_at [OF assms(2)]) (use c ch in simp_all)
  from scan_number_text [OF p(2) assms(3) l1(2,3)] c p(1) first [OF l1(2)] l1(1) strtod_float_text [OF assms(1)] show ?thesis by metis
qed

text \<open>
  C6: every finite double, zeros of both signs and subnormal numbers included, is written as a text
  that reads back as exactly the same 64 bits.
\<close>

theorem float_text_roundtrip:
  assumes "isfinite x"
  shows "\<exists>t. dump_float x = Inr t \<and> strtod t = x"
  using strtod_float_text [OF assms] by (simp add: dump_float_text)

theorem float_text_roundtrip_witness: "\<exists>t. dump_float 0x8000000000000001 = Inr t \<and> strtod t = 0x8000000000000001"
proof (rule float_text_roundtrip)
  show "isfinite 0x8000000000000001" by code_simp
qed

end
