(* ===== verification/Json_Roundtrip.thy ===== *)
theory Json_Roundtrip
  imports Json_Float_Reading
begin

text \<open>
  The parser and the builder on printed values. The builder's pointers are related to a zipper,
  and the parser's loop is followed through a value in big steps.
\<close>

section \<open>The builder as a zipper\<close>

text \<open>An open container around the one being filled; the key or the end is where that one goes.\<close>

datatype frame = In_array "json list" | In_object "(string \<times> json) list" string

definition obj_put :: "string \<Rightarrow> json \<Rightarrow> (string \<times> json) list \<Rightarrow> (string \<times> json) list" where
  "obj_put k v ms = map (\<lambda>(k', u). (k', if k' = k then v else u)) (obj_index k ms)"

fun fill_frame :: "frame \<Rightarrow> json \<Rightarrow> json" where
  "fill_frame (In_array vs) v = J_array (vs @ [v])"
| "fill_frame (In_object ms k) v = J_object (obj_put k v ms)"

fun frame_step :: "frame \<Rightarrow> path_step" where
  "frame_step (In_array vs) = At (length vs)"
| "frame_step (In_object ms k) = Member k"

fun fill :: "frame list \<Rightarrow> json \<Rightarrow> json" where
  "fill [] v = v"
| "fill (f # fs) v = fill fs (fill_frame f v)"

definition path_of :: "frame list \<Rightarrow> path" where
  "path_of fs = rev (map frame_step fs)"

fun stack_of :: "frame list \<Rightarrow> path list" where
  "stack_of [] = [[]]"
| "stack_of (f # fs) = stack_of fs @ [path_of (f # fs)]"

lemma path_of_simps [simp]: "path_of [] = []" "path_of (f # fs) = path_of fs @ [frame_step f]"
  by (simp_all add: path_of_def)

lemma stack_of_last [simp]: "stack_of fs \<noteq> []" "last (stack_of fs) = path_of fs"
  by (cases fs; simp)+

lemma at_path_append: "at_path (p @ q) v = (case at_path p v of None \<Rightarrow> None | Some u \<Rightarrow> at_path q u)"
  by (induction p v rule: at_path.induct) (auto split: option.split)

lemma update_at_append: "update_at (p @ q) f v = update_at p (update_at q f) v"
  by (induction p f v rule: update_at.induct) (auto cong: map_cong)

lemma obj_index_key: "k \<in> fst ` set (obj_index k ms)"
  by (induction k ms rule: obj_index.induct) auto

lemma map_of_update:
  "k \<in> fst ` set ms \<Longrightarrow> map_of (map (\<lambda>(k', u). (k', if k' = k then v else u)) ms) k = Some v"
  by (induction ms) auto

lemma obj_put_lookup [simp]: "map_of (obj_put k v ms) k = Some v"
  unfolding obj_put_def by (rule map_of_update [OF obj_index_key])

lemma obj_put_update [simp]:
  "map (\<lambda>(k', u). (k', if k' = k then f u else u)) (obj_put k v ms) = obj_put k (f v) ms"
  by (auto simp: obj_put_def)

lemma at_frame: "at_path [frame_step f] (fill_frame f v) = Some v"
  by (cases f) (simp_all add: nth_append)

lemma update_frame: "update_at [frame_step f] g (fill_frame f v) = fill_frame f (g v)"
  by (cases f) (simp_all add: nth_append)

lemma at_path_fill [simp]: "at_path (path_of fs) (fill fs v) = Some v"
  using at_frame by (induction fs arbitrary: v) (simp_all add: at_path_append)

lemma update_at_fill [simp]: "update_at (path_of fs) g (fill fs v) = fill fs (g v)"
  using update_frame by (induction fs arbitrary: g v) (simp_all add: update_at_append)

text \<open>The container \<open>c\<close> is open inside \<open>fs\<close>.\<close>

definition holds :: "sax_dom \<Rightarrow> frame list \<Rightarrow> json \<Rightarrow> bool" where
  "holds d fs c \<longleftrightarrow> root d = fill fs c \<and> ref_stack d = stack_of fs \<and> \<not> errored d"

text \<open>Where the next value goes, and the state after it went there.\<close>

datatype spot = Top | Elements "frame list" "json list" | Value_of "frame list" "(string \<times> json) list" string

fun at_spot :: "sax_dom \<Rightarrow> spot \<Rightarrow> bool" where
  "at_spot d Top \<longleftrightarrow> ref_stack d = [] \<and> \<not> errored d"
| "at_spot d (Elements fs vs) \<longleftrightarrow> holds d fs (J_array vs)"
| "at_spot d (Value_of fs ms k) \<longleftrightarrow>
     holds d fs (J_object (obj_index k ms)) \<and> object_element d = Some (path_of fs @ [Member k])"

fun after_spot :: "sax_dom \<Rightarrow> spot \<Rightarrow> json \<Rightarrow> bool" where
  "after_spot d Top v \<longleftrightarrow> ref_stack d = [] \<and> \<not> errored d \<and> root d = v"
| "after_spot d (Elements fs vs) v \<longleftrightarrow> holds d fs (J_array (vs @ [v]))"
| "after_spot d (Value_of fs ms k) v \<longleftrightarrow> holds d fs (J_object (obj_put k v ms))"

fun inner :: "spot \<Rightarrow> frame list" where
  "inner Top = []"
| "inner (Elements fs vs) = In_array vs # fs"
| "inner (Value_of fs ms k) = In_object ms k # fs"

lemma handle_value_spot:
  assumes "at_spot d sp"
  shows "\<exists>d'. handle_value v d = Inr (path_of (inner sp), d') \<and> after_spot d' sp v \<and> ref_stack d' = ref_stack d"
proof (cases sp)
  case (Value_of fs ms k)
  with assms show ?thesis
    by (auto simp: handle_value_def holds_def update_at_append obj_put_def Let_def cong: if_cong)
qed (use assms in \<open>auto simp: handle_value_def holds_def Let_def\<close>)

lemma sax_value_spot:
  assumes "at_spot d sp"
  shows "\<exists>d'. sax_value v d = Inr d' \<and> after_spot d' sp v"
  using handle_value_spot [OF assms, of v] by (auto simp: sax_value_def)

lemma start_spot:
  assumes "at_spot d sp" and "handle_value c d = Inr (p, d')"
  shows "holds (d'\<lparr>ref_stack := ref_stack d @ [p]\<rparr>) (inner sp) c"
  using handle_value_spot [OF assms(1), of c] assms by (cases sp) (auto simp: holds_def)

lemma start_array_spot:
  assumes "at_spot d sp"
  shows "\<exists>d'. start_array d = Inr d' \<and> holds d' (inner sp) (J_array [])"
  using handle_value_spot [OF assms, of "J_array []"] start_spot [OF assms] by (auto simp: start_array_def)

lemma start_object_spot:
  assumes "at_spot d sp"
  shows "\<exists>d'. start_object d = Inr d' \<and> holds d' (inner sp) (J_object [])"
  using handle_value_spot [OF assms, of "J_object []"] start_spot [OF assms] by (auto simp: start_object_def)

lemma sax_key_holds:
  "holds d fs (J_object ms) \<Longrightarrow> \<exists>d'. sax_key k d = Inr d' \<and> at_spot d' (Value_of fs ms k)"
  by (simp add: sax_key_def holds_def Let_def)

lemma close_spot:
  "holds d (inner sp) c \<Longrightarrow> after_spot (d\<lparr>ref_stack := butlast (ref_stack d)\<rparr>) sp c"
  by (cases sp) (simp_all add: holds_def)

lemma end_array_spot:
  "holds d (inner sp) (J_array vs) \<Longrightarrow> \<exists>d'. end_array d = Inr d' \<and> after_spot d' sp (J_array vs)"
  using close_spot [of d sp "J_array vs"] by (simp add: end_array_def holds_def)

lemma end_object_spot:
  "holds d (inner sp) (J_object ms) \<Longrightarrow> \<exists>d'. end_object d = Inr d' \<and> after_spot d' sp (J_object ms)"
  using close_spot [of d sp "J_object ms"] by (simp add: end_object_def holds_def)

text \<open>Members that arrive in ascending order are appended.\<close>

lemma obj_put_snoc:
  "(\<And>k'. k' \<in> fst ` set ms \<Longrightarrow> k' < k) \<Longrightarrow> obj_put k v ms = ms @ [(k, v)]"
proof (induction ms)
  case (Cons m ms)
  then have "k \<noteq> fst m" "\<not> k < fst m" by force+
  with Cons show ?case by (cases m) (auto simp: obj_put_def)
qed (simp add: obj_put_def)

section \<open>The parser reads back what was printed\<close>

text \<open>The last token was read from \<open>s\<close>.\<close>

definition fetched :: "parser \<Rightarrow> string \<Rightarrow> bool" where
  "fetched p s \<longleftrightarrow> \<not> skip_to_state_evaluation p \<and>
     (\<exists>l. reads l s \<and> scan l = (last_token p, m_lexer p))"

lemma fetched_get_token:
  "\<not> skip_to_state_evaluation p \<Longrightarrow> reads (m_lexer p) s \<Longrightarrow> fetched (get_token p) s"
  by (auto simp: fetched_def get_token_def split: prod.split)

lemma fetched_states [simp]: "fetched (p\<lparr>states := st\<rparr>) s = fetched p s"
  "fetched (p\<lparr>sax := d\<rparr>) s = fetched p s"
  by (simp_all add: fetched_def)

lemma fetched_token:
  assumes "fetched p s" and "\<And>l. reads l s \<Longrightarrow> \<exists>l'. scan l = (t, l') \<and> P l'"
  shows "last_token p = t" "P (m_lexer p)"
proof -
  from assms(1) obtain l where "reads l s" "scan l = (last_token p, m_lexer p)" by (auto simp: fetched_def)
  with assms(2) [of l] show "last_token p = t" "P (m_lexer p)" by auto
qed

text \<open>The value at the head of \<open>s\<close> has been handled: the state is evaluated next, reading \<open>r\<close>.\<close>

definition handled :: "parser \<Rightarrow> string \<Rightarrow> bool list \<Rightarrow> bool" where
  "handled q r st \<longleftrightarrow> skip_to_state_evaluation q \<and> reads (m_lexer q) r \<and> states q = st"

definition reaches :: "parser \<Rightarrow> (parser \<Rightarrow> bool) \<Rightarrow> bool" where
  "reaches p Q \<longleftrightarrow> (\<exists>q. sax_parse_internal p = sax_parse_internal q \<and> Q q)"

lemma reaches_refl: "Q p \<Longrightarrow> reaches p Q"
  by (auto simp: reaches_def)

lemma reaches_trans: "reaches p Q \<Longrightarrow> (\<And>q. Q q \<Longrightarrow> reaches q R) \<Longrightarrow> reaches p R"
  unfolding reaches_def by metis

lemma reaches_continue: "parse_round p = Continue q \<Longrightarrow> reaches q Q \<Longrightarrow> reaches p Q"
  unfolding reaches_def by (subst sax_parse_internal.simps) simp

lemma reaches_break:
  assumes "\<not> skip_to_state_evaluation p" and "value_step p = Break q" and "\<not> skip_to_state_evaluation q"
    and "Q (q\<lparr>skip_to_state_evaluation := True\<rparr>)"
  shows "reaches p Q"
proof -
  have "q\<lparr>skip_to_state_evaluation := False\<rparr> = q" using assms(3) by simp
  then have "parse_round p = parse_round (q\<lparr>skip_to_state_evaluation := True\<rparr>)"
    using assms(1,2) by (simp add: parse_round_def)
  then have "sax_parse_internal p = sax_parse_internal (q\<lparr>skip_to_state_evaluation := True\<rparr>)"
    by (subst (1 2) sax_parse_internal.simps) simp
  with assms(4) show ?thesis by (auto simp: reaches_def)
qed

text \<open>A state evaluation, as a round of its own.\<close>

lemma handled_round:
  assumes "handled q r st"
  obtains p where "parse_round q = state_step p" "\<not> skip_to_state_evaluation p" "reads (m_lexer p) r"
    "states p = st" "sax p = sax q"
  using assms that [of "q\<lparr>skip_to_state_evaluation := False\<rparr>"] by (auto simp: handled_def parse_round_def)

text \<open>The statement for one value.\<close>

definition parses :: "string \<Rightarrow> json \<Rightarrow> bool" where
  "parses t v \<longleftrightarrow> (\<forall>p s sp. fetched p (t @ s) \<longrightarrow> ends_number s \<longrightarrow> at_spot (sax p) sp \<longrightarrow>
     last_token p \<noteq> End_array \<and> reaches p (\<lambda>q. handled q s (states p) \<and> after_spot (sax q) sp v))"

lemma parsesD:
  assumes "parses t v" "fetched p (t @ s)" "ends_number s" "at_spot (sax p) sp"
  shows "reaches p (\<lambda>q. handled q s (states p) \<and> after_spot (sax q) sp v)" "last_token p \<noteq> End_array"
  using assms by (simp_all add: parses_def)

text \<open>Values of one token.\<close>

lemma parses_token:
  assumes "\<And>p s. fetched p (t @ s) \<Longrightarrow> ends_number s \<Longrightarrow>
    value_step p = event (sax_value v) Break p \<and> reads (m_lexer p) s \<and> last_token p \<noteq> End_array"
  shows "parses t v"
  unfolding parses_def
proof (intro allI impI)
  fix p s sp
  assume f: "fetched p (t @ s)" and e: "ends_number s" and sp: "at_spot (sax p) sp"
  from f have sk: "\<not> skip_to_state_evaluation p" by (simp add: fetched_def)
  from assms [OF f e] have v: "value_step p = event (sax_value v) Break p" "reads (m_lexer p) s"
    "last_token p \<noteq> End_array" by simp_all
  from sax_value_spot [OF sp, of v] obtain d where d: "sax_value v (sax p) = Inr d" "after_spot d sp v" by blast
  show "last_token p \<noteq> End_array \<and> reaches p (\<lambda>q. handled q s (states p) \<and> after_spot (sax q) sp v)"
    by (rule conjI [OF v(3)], rule reaches_break [OF sk, of "p\<lparr>sax := d\<rparr>"]) (use v d sk in \<open>simp_all add: event_def handled_def\<close>)
qed

lemma parses_null: "parses ''null'' J_null"
proof (rule parses_token)
  fix p s
  assume f: "fetched p (''null'' @ s)"
  from fetched_token [OF f scan_literals(3)]
  show "value_step p = event (sax_value J_null) Break p \<and> reads (m_lexer p) s \<and> last_token p \<noteq> End_array"
    by (simp add: value_step_def sax_null_def event_def)
qed

lemma parses_bool: "parses (if b then ''true'' else ''false'') (J_bool b)"
proof (rule parses_token)
  fix p s
  assume f: "fetched p ((if b then ''true'' else ''false'') @ s)"
  show "value_step p = event (sax_value (J_bool b)) Break p \<and> reads (m_lexer p) s \<and> last_token p \<noteq> End_array"
  proof (cases b)
    case True
    with f have "fetched p (''true'' @ s)" by simp
    from fetched_token [OF this scan_literals(1)] True show ?thesis
      by (simp add: value_step_def sax_boolean_def event_def)
  next
    case False
    with f have "fetched p (''false'' @ s)" by simp
    from fetched_token [OF this scan_literals(2)] False show ?thesis
      by (simp add: value_step_def sax_boolean_def event_def)
  qed
qed

lemma parses_string:
  assumes "valid_utf8 (bytes_of x)"
  shows "parses (quoted x) (J_string x)"
proof (rule parses_token)
  fix p s
  assume f: "fetched p (quoted x @ s)"
  from fetched_token [OF f scan_quoted [OF assms]]
  show "value_step p = event (sax_value (J_string x)) Break p \<and> reads (m_lexer p) s \<and> last_token p \<noteq> End_array"
    by (simp add: value_step_def sax_string_def event_def)
qed

lemma parses_unsigned:
  assumes "n < 2 ^ 64"
  shows "parses (digits n) (J_uint (of_nat n))"
proof (rule parses_token)
  fix p s
  assume f: "fetched p (digits n @ s)" and e: "ends_number s"
  from fetched_token [OF f scan_unsigned [OF _ e assms]]
  show "value_step p = event (sax_value (J_uint (of_nat n))) Break p \<and> reads (m_lexer p) s \<and> last_token p \<noteq> End_array"
    by (simp add: value_step_def sax_number_unsigned_def event_def)
qed

lemma parses_negative:
  assumes "0 < n" "n \<le> 2 ^ 63"
  shows "parses (CHR ''-'' # digits n) (J_int (word_of_int (- int n)))"
proof (rule parses_token)
  fix p s
  assume "fetched p ((CHR ''-'' # digits n) @ s)" and e: "ends_number s"
  then have f: "fetched p (CHR ''-'' # digits n @ s)" by simp
  from fetched_token [OF f scan_negative [OF _ e assms]]
  show "value_step p = event (sax_value (J_int (word_of_int (- int n)))) Break p \<and> reads (m_lexer p) s \<and> last_token p \<noteq> End_array"
    by (simp add: value_step_def sax_number_integer_def event_def)
qed

section \<open>Arrays\<close>

lemma token_of:
  assumes "(c, t) \<in> set punctuation" and "fetched p (c # s)"
  shows "last_token p = t" "reads (m_lexer p) s"
  using fetched_token [OF assms(2) scan_punctuation [OF assms(1)]] by simp_all

lemma ends_punctuation: "c \<in> {CHR '','', CHR '']'', CHR ''}''} \<Longrightarrow> ends_number (c # s)"
  by (auto simp: ends_number_def is_digit_def)

text \<open>After an element: the comma, or the bracket.\<close>

lemma array_comma:
  assumes "handled q (CHR '','' # s) (True # st)"
  obtains p where "parse_round q = Continue p" "fetched p s" "states p = True # st" "sax p = sax q"
proof -
  from assms obtain p1 where p1: "parse_round q = state_step p1" "\<not> skip_to_state_evaluation p1"
    "reads (m_lexer p1) (CHR '','' # s)" "states p1 = True # st" "sax p1 = sax q" by (rule handled_round)
  have f: "fetched (get_token p1) (CHR '','' # s)" by (rule fetched_get_token [OF p1(2,3)])
  have t: "last_token (get_token p1) = Value_separator" "reads (m_lexer (get_token p1)) s"
    by (rule token_of [OF _ f]; simp add: punctuation_def)+
  show ?thesis
    by (rule that [of "get_token (get_token p1)"])
       (use p1 t in \<open>simp_all add: state_step_def array_state_def Let_def fetched_get_token\<close>)
qed

lemma array_bracket:
  assumes "handled q (CHR '']'' # s) (True # st)" and "holds (sax q) (inner sp) (J_array vs)"
  shows "reaches q (\<lambda>q'. handled q' s st \<and> after_spot (sax q') sp (J_array vs))"
proof -
  from assms(1) obtain p1 where p1: "parse_round q = state_step p1" "\<not> skip_to_state_evaluation p1"
    "reads (m_lexer p1) (CHR '']'' # s)" "states p1 = True # st" "sax p1 = sax q" by (rule handled_round)
  have f: "fetched (get_token p1) (CHR '']'' # s)" by (rule fetched_get_token [OF p1(2,3)])
  have t: "last_token (get_token p1) = End_array" "reads (m_lexer (get_token p1)) s"
    by (rule token_of [OF _ f]; simp add: punctuation_def)+
  from end_array_spot [OF assms(2)] obtain d where d: "end_array (sax q) = Inr d" "after_spot d sp (J_array vs)"
    by blast
  let ?q = "(get_token p1)\<lparr>sax := d, states := st, skip_to_state_evaluation := True\<rparr>"
  have "parse_round q = Continue ?q"
    using p1 t d by (simp add: state_step_def array_state_def Let_def event_def leave_def)
  then show ?thesis by (rule reaches_continue) (use t d in \<open>auto intro: reaches_refl simp: handled_def\<close>)
qed

lemma parses_elements:
  assumes "list_all2 parses ts vs" and "ts \<noteq> []"
    and "fetched p (separated '','' ts @ CHR '']'' # s)" and "states p = True # st"
    and "holds (sax p) (inner sp) (J_array us)"
  shows "reaches p (\<lambda>q. handled q s st \<and> after_spot (sax q) sp (J_array (us @ vs)))"
  using assms
proof (induction ts vs arbitrary: p us rule: list_all2_induct)
  case (Cons t ts v vs)
  let ?r = "if ts = [] then CHR '']'' # s else CHR '','' # separated '','' ts @ CHR '']'' # s"
  have f: "fetched p (t @ ?r)" using Cons.prems(2) by (cases ts) auto
  have "reaches p (\<lambda>q. handled q ?r (states p) \<and> after_spot (sax q) (Elements (inner sp) us) v)"
    by (rule parsesD(1) [OF Cons.hyps(1) f]) (use Cons.prems in \<open>auto intro: ends_punctuation\<close>)
  then show ?case
  proof (rule reaches_trans)
    fix q
    assume q: "handled q ?r (states p) \<and> after_spot (sax q) (Elements (inner sp) us) v"
    then have h: "holds (sax q) (inner sp) (J_array (us @ [v]))" by simp
    show "reaches q (\<lambda>q. handled q s st \<and> after_spot (sax q) sp (J_array (us @ v # vs)))"
    proof (cases "ts = []")
      case True
      with Cons.hyps(2) have "vs = []" by simp
      with True q Cons.prems(3) array_bracket [OF _ h, of s st] show ?thesis by simp
    next
      case False
      with q Cons.prems(3) have "handled q (CHR '','' # separated '','' ts @ CHR '']'' # s) (True # st)" by simp
      then obtain p' where p': "parse_round q = Continue p'" "fetched p' (separated '','' ts @ CHR '']'' # s)"
        "states p' = True # st" "sax p' = sax q" by (rule array_comma)
      from Cons.IH [OF False p'(2,3), of "us @ [v]"] h p'(4) reaches_continue [OF p'(1)] show ?thesis by simp
    qed
  qed
qed simp

lemma parses_array:
  assumes "list_all2 parses ts vs"
  shows "parses (''['' @ separated '','' ts @ '']'') (J_array vs)"
  unfolding parses_def
proof (intro allI impI)
  fix p s sp
  assume f: "fetched p ((''['' @ separated '','' ts @ '']'') @ s)" and sp: "at_spot (sax p) sp"
  then have f: "fetched p (CHR ''['' # separated '','' ts @ CHR '']'' # s)" by simp
  then have sk: "\<not> skip_to_state_evaluation p" by (simp add: fetched_def)
  have t: "last_token p = Begin_array" "reads (m_lexer p) (separated '','' ts @ CHR '']'' # s)"
    by (rule token_of [OF _ f]; simp add: punctuation_def)+
  from start_array_spot [OF sp] obtain d where d: "start_array (sax p) = Inr d" "holds d (inner sp) (J_array [])"
    by blast
  let ?p = "get_token (p\<lparr>sax := d\<rparr>)"
  have f2: "fetched ?p (separated '','' ts @ CHR '']'' # s)" by (rule fetched_get_token) (use sk t in simp_all)
  have v: "value_step p = (if last_token ?p = End_array then event end_array Break ?p
      else Continue (?p\<lparr>states := True # states p\<rparr>))"
    using t d by (simp add: value_step_def value_begin_array_def event_def Let_def)
  have "reaches p (\<lambda>q. handled q s (states p) \<and> after_spot (sax q) sp (J_array vs))"
  proof (cases "ts = []")
    case True
    with assms have "vs = []" by simp
    from f2 True have f3: "fetched ?p (CHR '']'' # s)" by simp
    have e: "last_token ?p = End_array" "reads (m_lexer ?p) s"
      by (rule token_of [OF _ f3]; simp add: punctuation_def)+
    from end_array_spot [OF d(2)] obtain d' where "end_array d = Inr d'" "after_spot d' sp (J_array [])" by blast
    then show ?thesis
      by (intro reaches_break [OF sk, of "?p\<lparr>sax := d'\<rparr>"])
         (use v e sk \<open>vs = []\<close> in \<open>simp_all add: event_def handled_def\<close>)
  next
    case False
    then obtain t1 ts' where ts: "ts = t1 # ts'" by (cases ts) auto
    with assms obtain v1 where "parses t1 v1" by (auto simp: list_all2_Cons1)
    then have "last_token ?p \<noteq> End_array"
      by (rule parsesD(2) [of t1 v1 ?p "if ts' = [] then CHR '']'' # s else CHR '','' # separated '','' ts' @ CHR '']'' # s"
            "Elements (inner sp) []"])
         (use f2 d(2) ts in \<open>auto simp: separated_Cons intro: ends_punctuation split: if_splits\<close>)
    with v sk have "parse_round p = Continue (?p\<lparr>states := True # states p\<rparr>)" by (simp add: parse_round_def)
    then show ?thesis
      by (rule reaches_continue)
         (use parses_elements [OF assms False, of "?p\<lparr>states := True # states p\<rparr>" s "states p" sp "[]"] f2 d(2)
          in simp)
  qed
  with t(1) show "last_token p \<noteq> End_array \<and>
      reaches p (\<lambda>q. handled q s (states p) \<and> after_spot (sax q) sp (J_array vs))" by simp
qed

section \<open>Objects\<close>

text \<open>A key and its colon.\<close>

lemma parse_key_reads:
  assumes "fetched p (quoted k @ CHR '':'' # s)" and "valid_utf8 (bytes_of k)" and "holds (sax p) fs (J_object ms)"
  obtains p1 where "parse_key f p = f p1" "reads (m_lexer p1) s" "\<not> skip_to_state_evaluation p1"
    "states p1 = states p" "at_spot (sax p1) (Value_of fs ms k)"
proof -
  have t: "last_token p = Value_string" "reads (m_lexer p) (CHR '':'' # s)" "token_buffer (m_lexer p) = k"
    using fetched_token [OF assms(1) scan_quoted [OF assms(2)]] by simp_all
  from assms(1) have sk: "\<not> skip_to_state_evaluation p" by (simp add: fetched_def)
  from sax_key_holds [OF assms(3), of k] obtain d where d: "sax_key k (sax p) = Inr d"
    "at_spot d (Value_of fs ms k)" by blast
  let ?p = "get_token (p\<lparr>sax := d\<rparr>)"
  have f: "fetched ?p (CHR '':'' # s)" by (rule fetched_get_token) (use sk t in simp_all)
  have "last_token ?p = Name_separator" "reads (m_lexer ?p) s"
    by (rule token_of [OF _ f]; simp add: punctuation_def)+
  with t d sk show ?thesis by (intro that [of ?p]) (simp_all add: parse_key_def event_def Let_def)
qed

definition member_text :: "string \<Rightarrow> string \<Rightarrow> string" where
  "member_text k t = quoted k @ '':'' @ t"

text \<open>After a member: the comma with the next key, or the brace.\<close>

lemma object_comma:
  assumes "handled q (CHR '','' # quoted k @ CHR '':'' # s) (False # st)" and "valid_utf8 (bytes_of k)"
    and "holds (sax q) fs (J_object ms)"
  obtains p where "parse_round q = Continue p" "fetched p s" "states p = False # st"
    "at_spot (sax p) (Value_of fs ms k)"
proof -
  from assms(1) obtain p1 where p1: "parse_round q = state_step p1" "\<not> skip_to_state_evaluation p1"
    "reads (m_lexer p1) (CHR '','' # quoted k @ CHR '':'' # s)" "states p1 = False # st" "sax p1 = sax q"
    by (rule handled_round)
  have f: "fetched (get_token p1) (CHR '','' # quoted k @ CHR '':'' # s)" by (rule fetched_get_token [OF p1(2,3)])
  have t: "last_token (get_token p1) = Value_separator" "reads (m_lexer (get_token p1)) (quoted k @ CHR '':'' # s)"
    by (rule token_of [OF _ f]; simp add: punctuation_def)+
  have f2: "fetched (get_token (get_token p1)) (quoted k @ CHR '':'' # s)"
    by (rule fetched_get_token) (use p1 t in simp_all)
  have h: "holds (sax (get_token (get_token p1))) fs (J_object ms)" using assms(3) p1(5) by simp
  obtain p2 where "parse_key (\<lambda>p. Continue (get_token p)) (get_token (get_token p1)) = Continue (get_token p2)"
    "reads (m_lexer p2) s" "\<not> skip_to_state_evaluation p2" "states p2 = states p1"
    "at_spot (sax p2) (Value_of fs ms k)"
    by (rule parse_key_reads [OF f2 assms(2) h, of "\<lambda>p. Continue (get_token p)"]) simp
  then show ?thesis
    by (intro that [of "get_token p2"])
       (use p1 t in \<open>simp_all add: state_step_def object_state_def Let_def fetched_get_token del: at_spot.simps\<close>)
qed

lemma object_brace:
  assumes "handled q (CHR ''}'' # s) (False # st)" and "holds (sax q) (inner sp) (J_object ms)"
  shows "reaches q (\<lambda>q'. handled q' s st \<and> after_spot (sax q') sp (J_object ms))"
proof -
  from assms(1) obtain p1 where p1: "parse_round q = state_step p1" "\<not> skip_to_state_evaluation p1"
    "reads (m_lexer p1) (CHR ''}'' # s)" "states p1 = False # st" "sax p1 = sax q" by (rule handled_round)
  have f: "fetched (get_token p1) (CHR ''}'' # s)" by (rule fetched_get_token [OF p1(2,3)])
  have t: "last_token (get_token p1) = End_object" "reads (m_lexer (get_token p1)) s"
    by (rule token_of [OF _ f]; simp add: punctuation_def)+
  from end_object_spot [OF assms(2)] obtain d where d: "end_object (sax q) = Inr d" "after_spot d sp (J_object ms)"
    by blast
  let ?q = "(get_token p1)\<lparr>sax := d, states := st, skip_to_state_evaluation := True\<rparr>"
  have "parse_round q = Continue ?q"
    using p1 t d by (simp add: state_step_def object_state_def Let_def event_def leave_def)
  then show ?thesis by (rule reaches_continue) (use t d in \<open>auto intro: reaches_refl simp: handled_def\<close>)
qed


text \<open>Keys in ascending order, after those already there.\<close>

definition ascending :: "(string \<times> json) list \<Rightarrow> bool" where
  "ascending ms \<longleftrightarrow> sorted_wrt (<) (map fst ms)"

lemma obj_put_ascending: "ascending (ms @ (k, v) # ns) \<Longrightarrow> obj_put k u ms = ms @ [(k, u)]"
  by (rule obj_put_snoc) (auto simp: ascending_def sorted_wrt_append)

lemma parses_members:
  assumes "list_all2 (\<lambda>(k, t) (k', v). k = k' \<and> valid_utf8 (bytes_of k) \<and> parses t v) ts ms"
    and "fetched p (t1 @ (if ts = [] then [] else '','' @ separated '','' (map (\<lambda>(k, t). member_text k t) ts)) @ CHR ''}'' # s)"
    and "parses t1 v1" and "states p = False # st" and "at_spot (sax p) (Value_of (inner sp) us k1)"
    and "ascending (us @ (k1, v1) # ms)"
  shows "reaches p (\<lambda>q. handled q s st \<and> after_spot (sax q) sp (J_object (us @ (k1, v1) # ms)))"
  using assms
proof (induction ts ms arbitrary: p us t1 k1 v1 rule: list_all2_induct)
  case Nil
  have "reaches p (\<lambda>q. handled q (CHR ''}'' # s) (states p) \<and> after_spot (sax q) (Value_of (inner sp) us k1) v1)"
    by (rule parsesD(1) [OF Nil.prems(2)]) (use Nil.prems in \<open>auto intro: ends_punctuation\<close>)
  then show ?case
  proof (rule reaches_trans)
    fix q
    assume q: "handled q (CHR ''}'' # s) (states p) \<and> after_spot (sax q) (Value_of (inner sp) us k1) v1"
    with obj_put_ascending [OF Nil.prems(5)] have "holds (sax q) (inner sp) (J_object (us @ [(k1, v1)]))" by simp
    with q Nil.prems(3) object_brace [of q s st sp]
    show "reaches q (\<lambda>q. handled q s st \<and> after_spot (sax q) sp (J_object (us @ [(k1, v1)])))" by simp
  qed
next
  case (Cons kt ts kv ms)
  obtain k t v where kt: "kt = (k, t)" "kv = (k, v)" "valid_utf8 (bytes_of k)" "parses t v"
    using Cons.hyps(1) by (cases kt; cases kv) auto
  let ?r = "t @ (if ts = [] then [] else '','' @ separated '','' (map (\<lambda>(k, t). member_text k t) ts)) @ CHR ''}'' # s"
  have f: "fetched p (t1 @ CHR '','' # quoted k @ CHR '':'' # ?r)"
    using Cons.prems(1) kt by (simp add: separated_Cons member_text_def)
  have "reaches p (\<lambda>q. handled q (CHR '','' # quoted k @ CHR '':'' # ?r) (states p) \<and>
      after_spot (sax q) (Value_of (inner sp) us k1) v1)"
    by (rule parsesD(1) [OF Cons.prems(2) f]) (use Cons.prems in \<open>auto intro: ends_punctuation\<close>)
  then show ?case
  proof (rule reaches_trans)
    fix q
    assume q: "handled q (CHR '','' # quoted k @ CHR '':'' # ?r) (states p) \<and>
      after_spot (sax q) (Value_of (inner sp) us k1) v1"
    with obj_put_ascending [OF Cons.prems(5)] have h: "holds (sax q) (inner sp) (J_object (us @ [(k1, v1)]))" by simp
    from q Cons.prems(3) have "handled q (CHR '','' # quoted k @ CHR '':'' # ?r) (False # st)" by simp
    from object_comma [OF this kt(3) h] obtain p' where p': "parse_round q = Continue p'" "fetched p' ?r"
      "states p' = False # st" "at_spot (sax p') (Value_of (inner sp) (us @ [(k1, v1)]) k)" by blast
    from Cons.IH [OF p'(2) kt(4) p'(3,4)] Cons.prems(5) kt(2)
    have "reaches p' (\<lambda>q. handled q s st \<and> after_spot (sax q) sp (J_object (us @ (k1, v1) # kv # ms)))" by simp
    with p'(1) show "reaches q (\<lambda>q. handled q s st \<and> after_spot (sax q) sp (J_object (us @ (k1, v1) # kv # ms)))"
      by (rule reaches_continue)
  qed
qed

lemma parses_object:
  assumes "list_all2 (\<lambda>(k, t) (k', v). k = k' \<and> valid_utf8 (bytes_of k) \<and> parses t v) ts ms" and "ascending ms"
  shows "parses (''{'' @ separated '','' (map (\<lambda>(k, t). member_text k t) ts) @ ''}'') (J_object ms)"
  unfolding parses_def
proof (intro allI impI)
  fix p s sp
  let ?body = "separated '','' (map (\<lambda>(k, t). member_text k t) ts) @ CHR ''}'' # s"
  assume "fetched p ((''{'' @ separated '','' (map (\<lambda>(k, t). member_text k t) ts) @ ''}'') @ s)"
    and sp: "at_spot (sax p) sp"
  then have f: "fetched p (CHR ''{'' # ?body)" by simp
  then have sk: "\<not> skip_to_state_evaluation p" by (simp add: fetched_def)
  have t: "last_token p = Begin_object" "reads (m_lexer p) ?body"
    by (rule token_of [OF _ f]; simp add: punctuation_def)+
  from start_object_spot [OF sp] obtain d where d: "start_object (sax p) = Inr d" "holds d (inner sp) (J_object [])"
    by blast
  let ?p = "get_token (p\<lparr>sax := d\<rparr>)"
  let ?k = "\<lambda>p3. Continue (get_token (p3\<lparr>states := False # states p3\<rparr>))"
  have f2: "fetched ?p ?body" by (rule fetched_get_token) (use sk t in simp_all)
  have v: "value_step p = (if last_token ?p = End_object then event end_object Break ?p else parse_key ?k ?p)"
    using t d by (simp add: value_step_def value_begin_object_def event_def Let_def)
  have "reaches p (\<lambda>q. handled q s (states p) \<and> after_spot (sax q) sp (J_object ms))"
  proof (cases ts)
    case Nil
    with assms have "ms = []" by simp
    from f2 Nil have f3: "fetched ?p (CHR ''}'' # s)" by simp
    have e: "last_token ?p = End_object" "reads (m_lexer ?p) s"
      by (rule token_of [OF _ f3]; simp add: punctuation_def)+
    from end_object_spot [OF d(2)] obtain d' where "end_object d = Inr d'" "after_spot d' sp (J_object [])" by blast
    then show ?thesis
      by (intro reaches_break [OF sk, of "?p\<lparr>sax := d'\<rparr>"])
         (use v e sk \<open>ms = []\<close> in \<open>simp_all add: event_def handled_def\<close>)
  next
    case (Cons kt ts')
    with assms obtain k t1 v1 ms' where m: "kt = (k, t1)" "ms = (k, v1) # ms'" "valid_utf8 (bytes_of k)" "parses t1 v1"
      "list_all2 (\<lambda>(k, t) (k', v). k = k' \<and> valid_utf8 (bytes_of k) \<and> parses t v) ts' ms'"
      by (cases kt) (auto simp: list_all2_Cons1)
    let ?r = "t1 @ (if ts' = [] then [] else '','' @ separated '','' (map (\<lambda>(k, t). member_text k t) ts')) @ CHR ''}'' # s"
    have f3: "fetched ?p (quoted k @ CHR '':'' # ?r)"
      using f2 Cons m(1) by (cases "ts' = []") (simp_all add: separated_Cons member_text_def [of k t1])
    have n: "last_token ?p = Value_string"
      by (rule fetched_token [OF f3 scan_quoted [OF m(3)]])
    have h: "holds (sax ?p) (inner sp) (J_object [])" using d(2) by simp
    obtain p1 where p1: "parse_key ?k ?p = ?k p1" "reads (m_lexer p1) ?r" "\<not> skip_to_state_evaluation p1"
      "states p1 = states ?p" "at_spot (sax p1) (Value_of (inner sp) [] k)"
      by (rule parse_key_reads [OF f3 m(3) h, of ?k])
    let ?q = "get_token (p1\<lparr>states := False # states p1\<rparr>)"
    have "parse_round p = Continue ?q" using v n p1(1) sk by (simp add: parse_round_def)
    then show ?thesis
      by (rule reaches_continue)
         (rule parses_members [OF m(5), of ?q t1 s v1 "states p" sp "[]" k, unfolded append_Nil m(2) [symmetric]],
          use p1 m(4) assms(2) in \<open>simp_all add: fetched_get_token del: at_spot.simps\<close>)
  qed
  with t(1) show "last_token p \<noteq> End_array \<and>
      reaches p (\<lambda>q. handled q s (states p) \<and> after_spot (sax q) sp (J_object ms))" by simp
qed

section \<open>Round trip\<close>

text \<open>
  Values that text can carry: text in UTF-8, keys in ascending order, no binary or discarded value.
\<close>

fun storable :: "json \<Rightarrow> bool" where
  "storable J_null \<longleftrightarrow> True"
| "storable (J_bool b) \<longleftrightarrow> True"
| "storable (J_int i) \<longleftrightarrow> True"
| "storable (J_uint i) \<longleftrightarrow> True"
| "storable (J_float x) \<longleftrightarrow> True"
| "storable (J_string x) \<longleftrightarrow> valid_utf8 (bytes_of x)"
| "storable (J_array vs) \<longleftrightarrow> list_all storable vs"
| "storable (J_object ms) \<longleftrightarrow> ascending ms \<and> list_all (\<lambda>(k, v). valid_utf8 (bytes_of k) \<and> storable v) ms"
| "storable _ \<longleftrightarrow> False"

text \<open>Integers that are not negative are read as unsigned numbers; infinities and NaN are written as null.\<close>

fun normal :: "json \<Rightarrow> json" where
  "normal (J_int i) = (if sint i < 0 then J_int i else J_uint i)"
| "normal (J_float x) = (if isfinite x then J_float x else J_null)"
| "normal (J_array vs) = J_array (map normal vs)"
| "normal (J_object ms) = J_object (map (\<lambda>(k, v). (k, normal v)) ms)"
| "normal v = v"

lemma storable_utf8: "storable v \<Longrightarrow> utf8_json v"
  by (induction v rule: storable.induct) (auto simp: list_all_iff)

lemma parses_integer: "parses (show_int (sint i)) (normal (J_int i))"
proof (cases "sint i < 0")
  case True
  have r: "- (2 ^ 63) \<le> sint i" using sint_range_size [of i] by (simp add: size_word.rep_eq)
  have "parses (CHR ''-'' # digits (nat (- sint i))) (J_int (word_of_int (- int (nat (- sint i)))))"
    using True r by (intro parses_negative) auto
  with True show ?thesis by (simp add: show_int_def)
next
  case False
  have "uint i = take_bit 64 (sint i)" by (simp add: uint_sint)
  also have "\<dots> = sint i"
    using False sint_range_size [of i] by (intro take_bit_int_eq_self) (simp_all add: size_word.rep_eq)
  finally have "nat (sint i) = unat i" by (simp flip: nat_uint_eq)
  with False parses_unsigned [OF unat64_less, of i] show ?thesis by (simp add: show_int_def)
qed

lemma parses_finite:
  assumes "isfinite x"
  shows "parses (float_text x) (J_float x)"
proof (rule parses_token)
  fix p s
  assume f: "fetched p (float_text x @ s)" and e: "ends_number s"
  from fetched_token [OF f scan_float [OF assms _ e]]
  show "value_step p = event (sax_value (J_float x)) Break p \<and> reads (m_lexer p) s \<and> last_token p \<noteq> End_array"
    using assms by (simp add: value_step_def value_number_float_def sax_number_float_def event_def)
qed

lemma parses_float: "parses (float_text x) (normal (J_float x))"
proof (cases "isfinite x")
  case True
  then show ?thesis using parses_finite by simp
next
  case False
  then have "float_text x = ''null''" by (simp add: float_text_def dump_float_def)
  with False parses_null show ?thesis by simp
qed

lemma storable_parses: "storable v \<Longrightarrow> parses (print_json v) (normal v)"
proof (induction v)
  case (J_bool b)
  then show ?case using parses_bool [of b] by simp
next
  case (J_uint i)
  then show ?case using parses_unsigned [OF unat64_less, of i] by simp
next
  case (J_array vs)
  then have "list_all2 parses (map print_json vs) (map normal vs)"
    by (auto simp: list_all2_conv_all_nth list_all_iff)
  then show ?case using parses_array by simp
next
  case (J_object ms)
  let ?ts = "map (\<lambda>(k, v). (k, print_json v)) ms"
  have m: "valid_utf8 (bytes_of k)" "parses (print_json v) (normal v)" if "(k, v) \<in> set ms" for k v
    using that J_object.IH [OF that, of v] J_object.prems by (auto simp: list_all_iff)
  have "list_all2 (\<lambda>(k, t) (k', v). k = k' \<and> valid_utf8 (bytes_of k) \<and> parses t v) ?ts
      (map (\<lambda>(k, v). (k, normal v)) ms)"
    using m by (auto simp: list_all2_map1 list_all2_map2 list_all2_same)
  moreover have "ascending (map (\<lambda>(k, v). (k, normal v)) ms)"
    using J_object.prems by (simp add: ascending_def comp_def case_prod_beta)
  moreover have "map (\<lambda>(k, t). member_text k t) ?ts = map (\<lambda>(k, v). quoted k @ '':'' @ print_json v) ms"
    by (auto simp: member_text_def)
  ultimately show ?case
    using parses_object [of ?ts "map (\<lambda>(k, v). (k, normal v)) ms"] by (simp only: print_json.simps normal.simps)
qed (simp_all add: parses_null parses_string parses_integer [simplified] parses_float [simplified])

lemma parse_printed:
  assumes "parses t v"
  shows "parse_json t = Inr v"
proof -
  let ?p = "new_parser t True False"
  have "fetched ?p t"
    unfolding new_parser_def by (rule fetched_get_token) (simp_all add: new_lexer_def reads_def)
  moreover have "at_spot (sax ?p) Top" "states ?p = []" by (simp_all add: new_parser_def new_sax_dom_def)
  ultimately have "reaches ?p (\<lambda>q. handled q [] [] \<and> after_spot (sax q) Top v)"
    using parsesD(1) [OF assms, of ?p "[]" Top] by (simp add: ends_number_def)
  then obtain q where q: "sax_parse_internal ?p = sax_parse_internal q" "handled q [] []" "after_spot (sax q) Top v"
    by (auto simp: reaches_def)
  from q(2) obtain p1 where p1: "parse_round q = state_step p1" "reads (m_lexer p1) []" "states p1 = []"
    "sax p1 = sax q" by (rule handled_round) simp
  then have "sax_parse_internal ?p = Inr (True, p1)"
    using q(1) by (subst (asm) (2) sax_parse_internal.simps) (simp add: state_step_def)
  moreover have "last_token (get_token p1) = End_of_input"
    using scan_end [OF p1(2)] by (cases "scan (m_lexer p1)") (simp add: get_token_def)
  ultimately show ?thesis using q(3) p1(4) by (simp add: parse_json_def basic_parse_def parser_parse_def)
qed

text \<open>
  C3: a storable value written by \<open>dump()\<close> and read by \<open>parse()\<close> comes back as it was, every finite
  double bit for bit, except that integers which are not negative come back as unsigned numbers and
  infinities and NaN as null.
\<close>

theorem dump_parse_roundtrip:
  assumes "storable v"
  shows "\<exists>t. dump_json v = Inr t \<and> parse_json t = Inr (normal v)"
  using dump_json_print(1) [OF storable_utf8 [OF assms]] parse_printed [OF storable_parses [OF assms]] by blast

theorem dump_parse_roundtrip_witness:
  "\<exists>t. dump_json (J_object [(''args'', J_array [J_string ''-l'', J_float 0x3FB999999999999A]), (''exit'', J_int 0)]) = Inr t \<and>
     parse_json t = Inr (J_object [(''args'', J_array [J_string ''-l'', J_float 0x3FB999999999999A]), (''exit'', J_uint 0)])"
proof -
  have "valid_utf8 (bytes_of ''args'')" "valid_utf8 (bytes_of ''-l'')" "valid_utf8 (bytes_of ''exit'')"
    by (simp_all add: valid_iff_dfa bytes_of_def next_state_def)
  then have "storable (J_object [(''args'', J_array [J_string ''-l'', J_float 0x3FB999999999999A]), (''exit'', J_int 0)])"
    by (simp add: ascending_def)
  moreover have "isfinite 0x3FB999999999999A" by code_simp
  ultimately show ?thesis using dump_parse_roundtrip by fastforce
qed

end
