(* ===== verification/Json_Soundness.thy ===== *)
theory Json_Soundness
  imports Json_Roundtrip
begin

text \<open>
  Parsing arbitrary bytes. String tokens are UTF-8 whatever was scanned, the builder stays in step
  with the parser's stack of states, and so the result is a value of a known shape or one of two
  exceptions.
\<close>

section \<open>String tokens are UTF-8\<close>

text \<open>Scanning appends the encodings of scalar values.\<close>

definition utf8_buffer :: "lexer \<Rightarrow> bool" where
  "utf8_buffer l \<longleftrightarrow> valid_utf8 (bytes_of (token_buffer l))"

lemma valid_utf8_append: "valid_utf8 a \<Longrightarrow> valid_utf8 b \<Longrightarrow> valid_utf8 (a @ b)"
  by (simp add: valid_iff_dfa)

lemma valid_utf8_encode: "scalar c \<Longrightarrow> valid_utf8 (utf8_encode c)"
  unfolding valid_utf8_def by (intro exI [of _ "[c]"]) simp

lemma utf8_buffer_extend:
  assumes "utf8_buffer l" and "token_buffer l' = token_buffer l @ map char_of (utf8_encode c)" and "scalar c"
  shows "utf8_buffer l'"
proof -
  have "map (of_char \<circ> char_of) (utf8_encode c) = utf8_encode c"
    by (rule map_idI) (use utf8_encode_bytes [OF assms(3)] in \<open>auto simp: list_all_iff\<close>)
  then have "bytes_of (token_buffer l') = bytes_of (token_buffer l) @ utf8_encode c"
    by (simp add: assms(2) bytes_of_def comp_def)
  with assms valid_utf8_encode show ?thesis by (simp add: utf8_buffer_def valid_utf8_append)
qed

lemma utf8_buffer_ascii:
  assumes "utf8_buffer l" and "token_buffer l' = token_buffer l @ [c]" and "of_char c < (0x80 :: nat)"
  shows "utf8_buffer l'"
  using utf8_buffer_extend [OF assms(1), of l' "of_char c"] assms(2,3)
  by (simp add: utf8_encode_def scalar_def)

lemma buffers [simp]:
  "utf8_buffer (get l) = utf8_buffer l" "utf8_buffer (scan_error m l) = utf8_buffer l"
  by (simp_all add: utf8_buffer_def scan_error_def)

text \<open>Code points of escapes.\<close>

lemma hex_value_bound: "hex_value c = Some d \<Longrightarrow> d < 16"
  by (auto simp: hex_value_def Let_def split: option.splits if_splits)

lemma codepoint_digits_bound:
  "codepoint_digits fs cp l = (Some n, l') \<Longrightarrow> n \<le> cp + 15 * sum_list (map (\<lambda>f. 2 ^ f) fs)"
proof (induction fs cp l rule: codepoint_digits.induct)
  case (2 f fs cp l)
  then obtain d where d: "hex_value (current (get l)) = Some d"
    "codepoint_digits fs (cp + push_bit f d) (get l) = (Some n, l')"
    by (auto simp: Let_def split: option.splits)
  from hex_value_bound [OF d(1)] have "push_bit f d \<le> 15 * 2 ^ f" by (simp add: push_bit_eq_mult)
  with "2.IH" [OF refl d(1) d(2)] show ?case by simp
qed simp

lemma codepoint_digits_buffer: "token_buffer (snd (codepoint_digits fs cp l)) = token_buffer l"
proof (induction fs cp l rule: codepoint_digits.induct)
  case (2 f fs cp l)
  then show ?case by (auto simp: Let_def split: option.split)
qed simp

lemma get_codepoint_facts:
  "get_codepoint l = (r, l') \<Longrightarrow> token_buffer l' = token_buffer l"
  "get_codepoint l = (Some n, l') \<Longrightarrow> n < 65536"
  using codepoint_digits_buffer [of "[12, 8, 4, 0]" 0 l] codepoint_digits_bound [of "[12, 8, 4, 0]" 0 l n l']
  by (simp_all add: get_codepoint_def)

lemma or_prefix: "(x :: nat) < 2 ^ n \<Longrightarrow> 2 ^ n * k OR x = 2 ^ n * k + x"
proof -
  assume x: "x < 2 ^ n"
  then have "take_bit n x = x" by (simp add: take_bit_nat_eq_self)
  moreover have "push_bit n k AND take_bit n x = 0" by (rule bit_eqI) (auto simp: bit_simps)
  ultimately have "push_bit n k OR x = push_bit n k + x" by (simp add: disjunctive_add_eq_or)
  then show ?thesis by (simp add: push_bit_eq_mult mult.commute)
qed

lemma and_3F: "(x :: nat) AND 0x3F = x mod 64"
proof -
  have "x AND 0x3F = take_bit 6 x" by (simp add: take_bit_eq_mask mask_eq_exp_minus_1)
  then show ?thesis by (simp add: take_bit_eq_mod)
qed

lemma continuation_or: "(x :: nat) < 64 \<Longrightarrow> 0x80 OR x = 0x80 + x"
  using or_prefix [of x 6 2] by simp

lemma lead_or: "(x :: nat) < 32 \<Longrightarrow> 0xC0 OR x = 0xC0 + x" "(x :: nat) < 16 \<Longrightarrow> 0xE0 OR x = 0xE0 + x"
  "(x :: nat) < 8 \<Longrightarrow> 0xF0 OR x = 0xF0 + x"
  using or_prefix [of x 5 6] or_prefix [of x 4 14] or_prefix [of x 3 30] by simp_all

lemma add_codepoint_encode:
  assumes "scalar c"
  shows "token_buffer (add_codepoint c l) = token_buffer l @ map char_of (utf8_encode c)"
proof -
  have c: "c < 0x110000" using assms by (simp add: scalar_def)
  have "c div 64 < 32" if "c < 0x800" using that by (simp add: div_less_iff_less_mult)
  moreover have "c div 4096 < 16" if "c < 0x10000" using that by (simp add: div_less_iff_less_mult)
  moreover have "c div 262144 < 8" using c by (simp add: div_less_iff_less_mult)
  ultimately show ?thesis
    by (simp add: add_codepoint_def utf8_encode_def drop_bit_eq_div and_3F continuation_or lead_or less_Suc_eq_le [symmetric])
qed

lemma surrogates_scalar:
  assumes "0xD800 \<le> (a :: nat)" "a \<le> 0xDBFF" "0xDC00 \<le> b" "b \<le> 0xDFFF"
  shows "scalar (push_bit 10 a + b - 0x35FDC00)"
  using assms by (auto simp: scalar_def push_bit_eq_mult)

lemma scan_unicode_utf8:
  assumes "scan_unicode l = (True, l')" and "utf8_buffer l"
  shows "utf8_buffer l'"
proof -
  obtain r1 l1 where g1: "get_codepoint l = (r1, l1)" by fastforce
  obtain r2 l2 where g2: "get_codepoint (get (get l1)) = (r2, l2)" by fastforce
  note b = get_codepoint_facts(1) [OF g1] get_codepoint_facts(1) [OF g2]
  from assms(1) obtain cp where cp: "r1 = Some cp" by (cases r1) (simp_all add: scan_unicode_def g1)
  with get_codepoint_facts(2) [of l cp l1] g1 have n: "cp < 65536" by simp
  show ?thesis
  proof (cases "0xD800 \<le> cp \<and> cp \<le> 0xDBFF")
    case True
    with assms(1) g1 g2 cp obtain cp2 where c2: "r2 = Some cp2" "0xDC00 \<le> cp2" "cp2 \<le> 0xDFFF"
      "l' = add_codepoint (push_bit 10 cp + cp2 - 0x35FDC00) l2"
      by (auto simp: scan_unicode_def Let_def split: if_splits option.splits)
    have s: "scalar (push_bit 10 cp + cp2 - 0x35FDC00)" using True c2 by (intro surrogates_scalar) auto
    from add_codepoint_encode [OF s, of l2] c2(4) b
    have "token_buffer l' = token_buffer l @ map char_of (utf8_encode (push_bit 10 cp + cp2 - 0x35FDC00))" by simp
    from utf8_buffer_extend [OF assms(2) this s] show ?thesis .
  next
    case False
    with assms(1) g1 cp have c: "\<not> (0xDC00 \<le> cp \<and> cp \<le> 0xDFFF)" "l' = add_codepoint cp l1"
      by (auto simp: scan_unicode_def split: if_splits)
    then have s: "scalar cp" using False n by (auto simp: scalar_def)
    from add_codepoint_encode [OF s, of l1] c(2) b(1)
    have "token_buffer l' = token_buffer l @ map char_of (utf8_encode cp)" by simp
    from utf8_buffer_extend [OF assms(2) this s] show ?thesis .
  qed
qed

lemma scan_escape_utf8:
  assumes "scan_escape l = (True, l')" and "utf8_buffer l"
  shows "utf8_buffer l'"
proof (cases "current (get l) = Some (CHR ''u'')")
  case True
  with assms scan_unicode_utf8 [of "get l" l'] show ?thesis by (simp add: scan_escape_def Let_def)
next
  case False
  with assms(1) obtain c where "l' = add c (get l)" "of_char c < (0x80 :: nat)"
    by (auto simp: scan_escape_def Let_def split: if_splits)
  with assms(2) utf8_buffer_ascii [of "get l" l' c] show ?thesis by simp
qed

text \<open>Bytes from 80.\<close>

lemma bytes_in_range_bytes:
  "bytes_in_range rs l = (True, l') \<Longrightarrow>
   \<exists>bs. list_all2 (\<lambda>(lo, hi) b. lo \<le> b \<and> b \<le> hi) rs bs \<and> token_buffer l' = token_buffer l @ map char_of bs"
proof (induction rs l rule: bytes_in_range.induct)
  case (1 l)
  then show ?case by (intro exI [of _ "[]"]) simp
next
  case (2 lo hi rs l)
  from "2.prems" obtain c where c: "current (get l) = Some c" "lo \<le> of_char c \<and> of_char c \<le> hi"
    "bytes_in_range rs (add c (get l)) = (True, l')"
    by (auto simp: Let_def split: option.splits if_splits)
  from "2.IH" [OF refl c] obtain bs where "list_all2 (\<lambda>(lo, hi) b. lo \<le> b \<and> b \<le> hi) rs bs"
    "token_buffer l' = token_buffer l @ c # map char_of bs" by auto
  with c(2) show ?case by (intro exI [of _ "of_char c # bs"]) simp
qed

lemma byte_offset: "(a :: nat) \<le> b \<Longrightarrow> b < a + n \<Longrightarrow> \<exists>x < n. b = a + x"
  by (intro exI [of _ "b - a"]) simp

text \<open>The ranges of \<open>scan_multibyte\<close> are those of the encodings of two, three and four bytes.\<close>

lemma two_bytes:
  assumes "0xC2 \<le> b" "b \<le> 0xDF" "0x80 \<le> z" "z \<le> (0xBF :: nat)"
  shows "\<exists>n. scalar n \<and> utf8_encode n = [b, z]"
proof -
  from assms obtain x z' where "b = 192 + x" "x < 32" "z = 128 + z'" "z' < 64"
    using byte_offset [of 192 b 32] byte_offset [of 128 z 64] by auto
  with assms encode_two [of x z'] show ?thesis by (intro exI [of _ "64 * x + z'"]) simp
qed

lemma three_bytes:
  assumes "0xE0 \<le> b" "b \<le> 0xEF" "0x80 \<le> y" "y \<le> 0xBF" "0x80 \<le> z" "z \<le> (0xBF :: nat)"
    and "b = 0xE0 \<longrightarrow> 0xA0 \<le> y" "b = 0xED \<longrightarrow> y \<le> 0x9F"
  shows "\<exists>n. scalar n \<and> utf8_encode n = [b, y, z]"
proof -
  from assms obtain x y' z' where "b = 224 + x" "x < 16" "y = 128 + y'" "y' < 64" "z = 128 + z'" "z' < 64"
    using byte_offset [of 224 b 16] byte_offset [of 128 y 64] byte_offset [of 128 z 64] by auto
  with assms encode_three [of x y' z'] show ?thesis by (intro exI [of _ "64 * (64 * x + y') + z'"]) auto
qed

lemma four_bytes:
  assumes "0xF0 \<le> b" "b \<le> 0xF4" "0x80 \<le> x" "x \<le> 0xBF" "0x80 \<le> y" "y \<le> 0xBF" "0x80 \<le> z" "z \<le> (0xBF :: nat)"
    and "b = 0xF0 \<longrightarrow> 0x90 \<le> x" "b = 0xF4 \<longrightarrow> x \<le> 0x8F"
  shows "\<exists>n. scalar n \<and> utf8_encode n = [b, x, y, z]"
proof -
  from assms obtain w x' y' z' where "b = 240 + w" "w < 5" "x = 128 + x'" "x' < 64" "y = 128 + y'" "y' < 64"
    "z = 128 + z'" "z' < 64"
    using byte_offset [of 240 b 5] byte_offset [of 128 x 64] byte_offset [of 128 y 64] byte_offset [of 128 z 64]
    by auto
  with assms encode_four [of w x' y' z'] show ?thesis
    by (intro exI [of _ "64 * (64 * (64 * w + x') + y') + z'"]) auto
qed

lemma next_byte_cases:
  assumes "next_byte_in_range c rs l = (True, l')"
  obtains bs where "list_all2 (\<lambda>(lo, hi) b. lo \<le> b \<and> b \<le> hi) rs bs"
    "token_buffer l' = token_buffer l @ c # map char_of bs"
  using bytes_in_range_bytes [of rs "add c l" l'] assms by (auto simp: next_byte_in_range_def add_def)

lemma scan_multibyte_utf8:
  assumes "scan_multibyte c l = (True, l')" and "utf8_buffer l"
  shows "utf8_buffer l'"
proof -
  let ?b = "of_char c :: nat"
  have c: "char_of ?b = c" by simp
  have k: "utf8_buffer l'" if "next_byte_in_range c rs l = (True, l')"
    "\<And>bs. list_all2 (\<lambda>(lo, hi) b. lo \<le> b \<and> b \<le> hi) rs bs \<Longrightarrow> \<exists>n. scalar n \<and> utf8_encode n = ?b # bs" for rs
  proof -
    from that(1) obtain bs where "list_all2 (\<lambda>(lo, hi) b. lo \<le> b \<and> b \<le> hi) rs bs"
      "token_buffer l' = token_buffer l @ c # map char_of bs" by (rule next_byte_cases)
    with that(2) obtain n where "scalar n" "token_buffer l' = token_buffer l @ map char_of (utf8_encode n)"
      using c by fastforce
    with assms(2) show ?thesis by (blast intro: utf8_buffer_extend)
  qed
  note m = assms(1) [unfolded scan_multibyte_def Let_def]
  consider "0xC2 \<le> ?b \<and> ?b \<le> 0xDF" | "?b = 0xE0" | "0xE1 \<le> ?b \<and> ?b \<le> 0xEC \<or> ?b = 0xEE \<or> ?b = 0xEF"
    | "?b = 0xED" | "?b = 0xF0" | "0xF1 \<le> ?b \<and> ?b \<le> 0xF3" | "?b = 0xF4"
    using m by (auto split: if_splits)
  then show ?thesis
  proof cases
    case 1
    with m have "next_byte_in_range c [(0x80, 0xBF)] l = (True, l')" by simp
    then show ?thesis by (rule k) (use 1 two_bytes [of ?b] in \<open>auto simp: list_all2_Cons1\<close>)
  next
    case 2
    with m have "next_byte_in_range c [(0xA0, 0xBF), (0x80, 0xBF)] l = (True, l')" by simp
    then show ?thesis by (rule k) (use 2 three_bytes [of ?b] in \<open>auto simp: list_all2_Cons1\<close>)
  next
    case 3
    with m have "next_byte_in_range c [(0x80, 0xBF), (0x80, 0xBF)] l = (True, l')" by (auto split: if_splits)
    then show ?thesis by (rule k) (use 3 three_bytes [of ?b] in \<open>auto simp: list_all2_Cons1\<close>)
  next
    case 4
    with m have "next_byte_in_range c [(0x80, 0x9F), (0x80, 0xBF)] l = (True, l')" by simp
    then show ?thesis by (rule k) (use 4 three_bytes [of ?b] in \<open>auto simp: list_all2_Cons1\<close>)
  next
    case 5
    with m have "next_byte_in_range c [(0x90, 0xBF), (0x80, 0xBF), (0x80, 0xBF)] l = (True, l')" by simp
    then show ?thesis by (rule k) (use 5 four_bytes [of ?b] in \<open>auto simp: list_all2_Cons1\<close>)
  next
    case 6
    with m have "next_byte_in_range c [(0x80, 0xBF), (0x80, 0xBF), (0x80, 0xBF)] l = (True, l')"
      by (auto split: if_splits)
    then show ?thesis by (rule k) (use 6 four_bytes [of ?b] in \<open>auto simp: list_all2_Cons1\<close>)
  next
    case 7
    with m have "next_byte_in_range c [(0x80, 0x8F), (0x80, 0xBF), (0x80, 0xBF)] l = (True, l')" by simp
    then show ?thesis by (rule k) (use 7 four_bytes [of ?b] in \<open>auto simp: list_all2_Cons1\<close>)
  qed
qed

lemma scan_character_utf8:
  assumes "scan_character c l = (True, l')" and "utf8_buffer l"
  shows "utf8_buffer l'"
proof -
  consider "c = CHR 0x5C" | "c \<noteq> CHR 0x5C" "of_char c < (0x80 :: nat)" | "c \<noteq> CHR 0x5C" "(0x80 :: nat) \<le> of_char c"
    by linarith
  then show ?thesis
  proof cases
    case 1
    with assms scan_escape_utf8 [of l l'] show ?thesis by (simp add: scan_character_def Let_def)
  next
    case 2
    with assms(1) have "l' = add c l" by (auto simp: scan_character_def Let_def split: if_splits)
    with 2 assms(2) utf8_buffer_ascii [of l l' c] show ?thesis by (simp add: add_def)
  next
    case 3
    with assms scan_multibyte_utf8 [of c l l'] show ?thesis by (simp add: scan_character_def Let_def)
  qed
qed

lemma scan_string_loop_utf8:
  "scan_string_loop l = (Value_string, l') \<Longrightarrow> utf8_buffer l \<Longrightarrow> utf8_buffer l'"
proof (induction l rule: scan_string_loop.induct)
  case (1 l)
  show ?case
  proof (cases "current (get l)")
    case None
    with "1.prems" show ?thesis by (subst (asm) scan_string_loop.simps) (simp add: Let_def)
  next
    case (Some c)
    obtain ok l2 where s: "scan_character c (get l) = (ok, l2)" by fastforce
    show ?thesis
    proof (cases "c = CHR 0x22")
      case True
      with "1.prems" Some show ?thesis by (subst (asm) scan_string_loop.simps) (auto simp: Let_def)
    next
      case False
      with "1.prems" Some s have "ok" "scan_string_loop l2 = (Value_string, l')"
        by (subst (asm) scan_string_loop.simps, cases ok, simp_all add: Let_def)+
      with False Some s 1(1) [OF refl Some False s [symmetric]] "1.prems"(2) scan_character_utf8 [of c "get l" l2]
      show ?thesis by simp
    qed
  qed
qed

lemma scan_number_not_string: "fst (scan_number_loop st t l) \<noteq> Value_string"
proof (induction st t l rule: scan_number_loop.induct)
  case (1 st t l)
  show ?case
  proof (cases "number_step (decimal_point_char (get l)) st (current (get l))")
    case (Goto st' c)
    from 1 [OF refl refl Goto] Goto show ?thesis by (subst scan_number_loop.simps) (simp add: Let_def)
  qed (simp_all add: scan_number_loop.simps [of st] Let_def number_done_def number_float_def split: option.split)
qed

lemma scan_literal_not_string: "t \<noteq> Value_string \<Longrightarrow> fst (scan_literal cs t l) \<noteq> Value_string"
  by (induction cs t l rule: scan_literal.induct) (simp_all add: Let_def)

lemma scan_token_utf8:
  assumes "scan_token l = (Value_string, l')"
  shows "utf8_buffer l'"
proof -
  have n: "scan_number l \<noteq> (Value_string, l')"
    using scan_number_not_string by (auto simp: scan_number_def Let_def split: option.split)
      (metis fst_conv)+
  have lit: "scan_literal cs t l \<noteq> (Value_string, l')" if "t \<noteq> Value_string" for cs t
    using scan_literal_not_string [OF that, of cs l] by (metis fst_conv)
  from assms n lit have "scan_string l = (Value_string, l')"
    by (auto simp: scan_token_def simp del: scan_literal.simps split: option.splits if_splits)
  moreover have "utf8_buffer (reset l)" by (simp add: utf8_buffer_def reset_def bytes_of_def valid_iff_dfa)
  ultimately show ?thesis by (simp add: scan_string_def scan_string_loop_utf8)
qed

lemma scan_utf8: "scan l = (Value_string, l') \<Longrightarrow> utf8_buffer l'"
  by (auto simp: scan_def Let_def split: if_splits prod.splits bool.splits dest: scan_token_utf8)

section \<open>What the builder holds\<close>

text \<open>Values the parser can build: text in UTF-8, keys in ascending order, finite numbers.\<close>

fun sound :: "json \<Rightarrow> bool" where
  "sound J_null \<longleftrightarrow> True"
| "sound (J_bool b) \<longleftrightarrow> True"
| "sound (J_int i) \<longleftrightarrow> True"
| "sound (J_uint i) \<longleftrightarrow> True"
| "sound (J_float x) \<longleftrightarrow> isfinite x"
| "sound (J_string x) \<longleftrightarrow> valid_utf8 (bytes_of x)"
| "sound (J_array vs) \<longleftrightarrow> list_all sound vs"
| "sound (J_object ms) \<longleftrightarrow> ascending ms \<and> list_all (\<lambda>(k, v). valid_utf8 (bytes_of k) \<and> sound v) ms"
| "sound _ \<longleftrightarrow> False"

lemma obj_index_set: "set (obj_index k ms) \<subseteq> insert (k, J_null) (set ms)"
  by (induction k ms rule: obj_index.induct) auto

lemma obj_index_keys: "fst ` set (obj_index k ms) = insert k (fst ` set ms)"
  by (induction k ms rule: obj_index.induct) auto

lemma ascending_Cons: "ascending ((k, v) # ms) \<longleftrightarrow> (\<forall>k' \<in> fst ` set ms. k < k') \<and> ascending ms"
  by (simp add: ascending_def)

lemma obj_index_ascending: "ascending ms \<Longrightarrow> ascending (obj_index k ms)"
proof (induction k ms rule: obj_index.induct)
  case (2 k k' v ms)
  then have IH: "k \<noteq> k' \<Longrightarrow> \<not> k < k' \<Longrightarrow> ascending (obj_index k ms)" and m: "ascending ms"
    "\<And>x. x \<in> fst ` set ms \<Longrightarrow> k' < x"
    by (auto simp: ascending_Cons)
  consider "k = k'" | "k < k'" | "k' < k" by (rule linorder_cases)
  then show ?case
  proof cases
    case 2
    with m show ?thesis by (auto simp: ascending_Cons intro: less_trans)
  next
    case 3
    then have "ascending (obj_index k ms)" "k \<noteq> k'" "\<not> k < k'" using IH by auto
    with 3 m show ?thesis by (simp add: ascending_Cons obj_index_keys del: image_iff)
  qed (use m in \<open>auto simp: ascending_Cons\<close>)
qed (simp add: ascending_def)

lemma obj_put_sound:
  assumes "sound (J_object ms)" and "valid_utf8 (bytes_of k)" and "sound v"
  shows "sound (J_object (obj_put k v ms))"
proof -
  have "map fst (obj_put k v ms) = map fst (obj_index k ms)" by (auto simp: obj_put_def)
  with assms(1) obj_index_ascending [of ms k] have "ascending (obj_put k v ms)" by (simp add: ascending_def)
  moreover have "valid_utf8 (bytes_of k') \<and> sound u" if "(k', u) \<in> set (obj_put k v ms)" for k' u
    using that assms obj_index_set [of k ms] by (auto simp: obj_put_def list_all_iff split: if_splits)
  ultimately show ?thesis by (auto simp: list_all_iff)
qed

fun frame_ok :: "frame \<Rightarrow> bool" where
  "frame_ok (In_array vs) \<longleftrightarrow> sound (J_array vs)"
| "frame_ok (In_object ms k) \<longleftrightarrow> sound (J_object ms) \<and> valid_utf8 (bytes_of k)"

fun is_array_frame :: "frame \<Rightarrow> bool" where
  "is_array_frame (In_array vs) \<longleftrightarrow> True"
| "is_array_frame (In_object ms k) \<longleftrightarrow> False"

text \<open>The frames around where the builder stands, and the parser's stack of states.\<close>

definition nested :: "parser \<Rightarrow> frame list \<Rightarrow> bool" where
  "nested p fs \<longleftrightarrow> list_all frame_ok fs \<and> states p = map is_array_frame fs \<and> allow_exceptions (sax p)"

definition awaits :: "parser \<Rightarrow> bool" where
  "awaits p \<longleftrightarrow> \<not> skip_to_state_evaluation p \<and> (last_token p = Value_string \<longrightarrow> utf8_buffer (m_lexer p)) \<and>
     (\<exists>sp. at_spot (sax p) sp \<and> nested p (inner sp))"

definition built :: "parser \<Rightarrow> bool" where
  "built p \<longleftrightarrow> (\<exists>sp v. after_spot (sax p) sp v \<and> sound v \<and> nested p (inner sp))"

definition returned :: "parser \<Rightarrow> bool" where
  "returned p \<longleftrightarrow> sound (root (sax p)) \<and> \<not> errored (sax p) \<and> allow_exceptions (sax p)"

definition refused :: "json_error \<Rightarrow> bool" where
  "refused e \<longleftrightarrow> (\<exists>m. e = Parse_error 101 m \<or> e = Out_of_range 406 m)"

fun flow_ok :: "flow \<Rightarrow> bool" where
  "flow_ok (Break p) \<longleftrightarrow> built p \<and> \<not> skip_to_state_evaluation p"
| "flow_ok (Continue p) \<longleftrightarrow> (if skip_to_state_evaluation p then built p else awaits p)"
| "flow_ok (Return b p) \<longleftrightarrow> returned p"
| "flow_ok (Throw e) \<longleftrightarrow> refused e"

lemma nested_simps [simp]:
  "nested (get_token p) fs = nested p fs" "nested (p\<lparr>skip_to_state_evaluation := b\<rparr>) fs = nested p fs"
  by (simp_all add: nested_def)

lemma built_skip [simp]: "built (p\<lparr>skip_to_state_evaluation := b\<rparr>) = built p"
  by (simp add: built_def)

lemma spot_of: "\<exists>sp. inner sp = fs"
proof (cases fs)
  case Nil
  then show ?thesis by (intro exI [of _ Top]) simp
next
  case (Cons f fs')
  then show ?thesis
    by (cases f) (auto intro: exI [of _ "Elements fs' _"] exI [of _ "Value_of fs' _ _"])
qed

lemma unexpected_ok: "allow_exceptions (sax p) \<Longrightarrow> flow_ok (unexpected t c p)"
  by (simp add: unexpected_def sax_report_def sax_parse_error_def parse_error_create_def refused_def)

lemma get_token_utf8: "last_token (get_token p) = Value_string \<Longrightarrow> utf8_buffer (m_lexer (get_token p))"
  using scan_utf8 by (auto simp: get_token_def split: prod.splits)

lemma awaits_get_token:
  "\<not> skip_to_state_evaluation p \<Longrightarrow> at_spot (sax p) sp \<Longrightarrow> nested p (inner sp) \<Longrightarrow> awaits (get_token p)"
  using get_token_utf8 [of p] by (auto simp: awaits_def)

section \<open>The steps of the parser\<close>

lemma handle_value_allow: "handle_value v d = Inr (p, d') \<Longrightarrow> allow_exceptions d' = allow_exceptions d"
  by (auto simp: handle_value_def Let_def split: if_splits option.splits json.splits)

lemma event_value_ok:
  assumes "awaits p" and "sound v"
  shows "flow_ok (event (sax_value v) Break p)"
proof -
  from assms(1) obtain sp where sp: "at_spot (sax p) sp" "nested p (inner sp)" by (auto simp: awaits_def)
  from handle_value_spot [OF sp(1), of v] obtain d where d: "handle_value v (sax p) = Inr (path_of (inner sp), d)"
    "after_spot d sp v" by blast
  have "nested (p\<lparr>sax := d\<rparr>) (inner sp)" using sp(2) handle_value_allow [OF d(1)] by (simp add: nested_def)
  with d assms show ?thesis by (auto simp: event_def sax_value_def built_def awaits_def)
qed

text \<open>A container that is open.\<close>

definition opened :: "parser \<Rightarrow> frame list \<Rightarrow> json \<Rightarrow> bool" where
  "opened p fs c \<longleftrightarrow> \<not> skip_to_state_evaluation p \<and> holds (sax p) fs c \<and> sound c \<and> list_all frame_ok fs \<and>
     allow_exceptions (sax p)"

lemma opened_get_token [simp]: "opened (get_token p) fs c = opened p fs c"
  by (simp add: opened_def)

lemma close_ok:
  assumes "opened p fs c" and "states p = map is_array_frame fs"
    and "f (sax p) = Inr ((sax p)\<lparr>ref_stack := butlast (ref_stack (sax p))\<rparr>)"
  shows "flow_ok (event f Break p)"
proof -
  obtain sp where sp: "inner sp = fs" using spot_of by blast
  with assms(1) close_spot [of "sax p" sp c]
  have "after_spot ((sax p)\<lparr>ref_stack := butlast (ref_stack (sax p))\<rparr>) sp c" by (simp add: opened_def)
  moreover from assms(1,2) sp
  have "nested (p\<lparr>sax := (sax p)\<lparr>ref_stack := butlast (ref_stack (sax p))\<rparr>\<rparr>) (inner sp)"
    by (simp add: nested_def opened_def)
  ultimately show ?thesis using assms(1,3) by (auto simp: event_def built_def opened_def)
qed

lemma leave_ok:
  assumes "opened p fs c" and "states p = b # map is_array_frame fs"
    and "f (sax p) = Inr ((sax p)\<lparr>ref_stack := butlast (ref_stack (sax p))\<rparr>)"
  shows "flow_ok (event f leave p)"
proof -
  obtain sp where sp: "inner sp = fs" using spot_of by blast
  let ?d = "(sax p)\<lparr>ref_stack := butlast (ref_stack (sax p))\<rparr>"
  from sp assms(1) close_spot [of "sax p" sp c] have "after_spot ?d sp c" by (simp add: opened_def)
  moreover from assms(1,2) sp
  have "nested (p\<lparr>sax := ?d, states := tl (states p), skip_to_state_evaluation := True\<rparr>) (inner sp)"
    by (simp add: nested_def opened_def)
  ultimately show ?thesis using assms(1,3) by (auto simp: event_def built_def opened_def leave_def)
qed

lemma end_array_holds:
  "holds d fs (J_array vs) \<Longrightarrow> end_array d = Inr (d\<lparr>ref_stack := butlast (ref_stack d)\<rparr>)"
  by (simp add: end_array_def holds_def)

lemma end_object_holds:
  "holds d fs (J_object ms) \<Longrightarrow> end_object d = Inr (d\<lparr>ref_stack := butlast (ref_stack d)\<rparr>)"
  by (simp add: end_object_def holds_def)

text \<open>A key: what follows begins where its value goes.\<close>

lemma parse_key_ok:
  assumes "opened p fs (J_object ms)" and "last_token p = Value_string \<Longrightarrow> utf8_buffer (m_lexer p)"
    and "\<And>q k. at_spot (sax q) (Value_of fs ms k) \<Longrightarrow> list_all frame_ok (In_object ms k # fs) \<Longrightarrow>
      allow_exceptions (sax q) \<Longrightarrow> states q = states p \<Longrightarrow> \<not> skip_to_state_evaluation q \<Longrightarrow> flow_ok (f q)"
  shows "flow_ok (parse_key f p)"
proof (cases "last_token p = Value_string")
  case False
  with assms(1) show ?thesis by (simp add: parse_key_def unexpected_ok opened_def)
next
  case True
  let ?k = "token_buffer (m_lexer p)"
  from assms(1) have h: "holds (sax p) fs (J_object ms)" by (simp add: opened_def)
  from sax_key_holds [OF h, of ?k] obtain d where d: "sax_key ?k (sax p) = Inr d" "at_spot d (Value_of fs ms ?k)"
    by blast
  have a: "allow_exceptions d = allow_exceptions (sax p)"
    using d(1) by (auto simp: sax_key_def Let_def split: if_splits option.splits json.splits)
  let ?p = "get_token (p\<lparr>sax := d\<rparr>)"
  have "flow_ok (f ?p)"
    by (rule assms(3) [of _ ?k])
       (use d(2) a assms(1,2) True in \<open>simp_all add: opened_def utf8_buffer_def\<close>)
  moreover have "flow_ok (unexpected Name_separator ''object separator'' ?p)"
    by (rule unexpected_ok) (use a assms(1) in \<open>simp add: opened_def\<close>)
  ultimately show ?thesis using True d(1) by (simp add: parse_key_def event_def Let_def)
qed

lemma begin_opened:
  assumes "awaits p" and "handle_value c (sax p) = Inr (q, d)" and "sound c"
    and "e = d\<lparr>ref_stack := ref_stack d @ [q]\<rparr>"
  shows "\<exists>fs. opened (p\<lparr>sax := e\<rparr>) fs c \<and> states p = map is_array_frame fs"
proof -
  from assms(1) obtain sp where sp: "at_spot (sax p) sp" "nested p (inner sp)" "\<not> skip_to_state_evaluation p"
    by (auto simp: awaits_def)
  from handle_value_spot [OF sp(1), of c] assms(2) have "ref_stack d = ref_stack (sax p)" by auto
  with start_spot [OF sp(1) assms(2)] assms(3,4) sp handle_value_allow [OF assms(2)]
  have "opened (p\<lparr>sax := e\<rparr>) (inner sp) c" by (simp add: opened_def nested_def)
  with sp(2) show ?thesis by (auto simp: nested_def)
qed

lemma awaits_handle: "awaits p \<Longrightarrow> \<exists>q d. handle_value c (sax p) = Inr (q, d)"
  using handle_value_spot by (fastforce simp: awaits_def)

lemma value_begin_object_ok:
  assumes "awaits p"
  shows "flow_ok (value_begin_object p)"
proof -
  obtain q d where h: "handle_value (J_object []) (sax p) = Inr (q, d)" using awaits_handle [OF assms] by blast
  define e where "e = d\<lparr>ref_stack := ref_stack d @ [q]\<rparr>"
  from begin_opened [OF assms h _ e_def] obtain fs where
    o: "opened (p\<lparr>sax := e\<rparr>) fs (J_object [])" "states p = map is_array_frame fs" by (auto simp: ascending_def)
  let ?p = "get_token (p\<lparr>sax := e\<rparr>)"
  have "flow_ok (event end_object Break ?p)"
    by (rule close_ok [of _ fs "J_object []"]) (use o in \<open>simp_all add: opened_def end_object_holds [of _ fs "[]"]\<close>)
  moreover have "flow_ok (parse_key (\<lambda>p3. Continue (get_token (p3\<lparr>states := False # states p3\<rparr>))) ?p)"
  proof (rule parse_key_ok [of _ fs "[]"])
    fix q :: parser and k
    assume "at_spot (sax q) (Value_of fs [] k)" "list_all frame_ok (In_object [] k # fs)" "allow_exceptions (sax q)"
      "states q = states ?p" "\<not> skip_to_state_evaluation q"
    then have "awaits (get_token (q\<lparr>states := False # states q\<rparr>))"
      by (intro awaits_get_token [of _ "Value_of fs [] k"]) (use o in \<open>simp_all add: nested_def\<close>)
    with \<open>\<not> skip_to_state_evaluation q\<close> show "flow_ok (Continue (get_token (q\<lparr>states := False # states q\<rparr>)))" by simp
  qed (use o get_token_utf8 in auto)
  ultimately show ?thesis
    using h by (simp add: value_begin_object_def event_def start_object_def e_def Let_def)
qed

lemma value_begin_array_ok:
  assumes "awaits p"
  shows "flow_ok (value_begin_array p)"
proof -
  obtain q d where h: "handle_value (J_array []) (sax p) = Inr (q, d)" using awaits_handle [OF assms] by blast
  define e where "e = d\<lparr>ref_stack := ref_stack d @ [q]\<rparr>"
  from begin_opened [OF assms h _ e_def] obtain fs where
    o: "opened (p\<lparr>sax := e\<rparr>) fs (J_array [])" "states p = map is_array_frame fs" by auto
  let ?p = "get_token (p\<lparr>sax := e\<rparr>)"
  have "flow_ok (event end_array Break ?p)"
    by (rule close_ok [of _ fs "J_array []"]) (use o in \<open>simp_all add: opened_def end_array_holds [of _ fs "[]"]\<close>)
  moreover have "awaits (?p\<lparr>states := True # states ?p\<rparr>)"
    unfolding awaits_def
    using o get_token_utf8 [of "p\<lparr>sax := e\<rparr>"] by (auto simp: opened_def nested_def intro!: exI [of _ "Elements fs []"])
  moreover have "\<not> skip_to_state_evaluation p" using assms by (simp add: awaits_def)
  ultimately show ?thesis
    using h by (simp add: value_begin_array_def event_def start_array_def e_def Let_def)
qed

lemma value_step_ok:
  assumes "awaits p"
  shows "flow_ok (value_step p)"
proof -
  have a: "allow_exceptions (sax p)" using assms by (auto simp: awaits_def nested_def)
  have s: "last_token p = Value_string \<Longrightarrow> sound (J_string (token_buffer (m_lexer p)))"
    using assms by (simp add: awaits_def utf8_buffer_def)
  have e: "flow_ok (sax_report (parse_error_create 101 x y) p)" "flow_ok (sax_report (Out_of_range 406 y) p)" for x y
    using a by (simp_all add: sax_report_def sax_parse_error_def parse_error_create_def refused_def)
  note v = event_value_ok [OF assms]
  show ?thesis
    using value_begin_object_ok [OF assms] value_begin_array_ok [OF assms] unexpected_ok [OF a] s e
      v [of J_null] v [of "J_bool True"] v [of "J_bool False"] v [of "J_int (value_integer (m_lexer p))"]
      v [of "J_uint (value_unsigned (m_lexer p))"] v [of "J_string (token_buffer (m_lexer p))"]
      v [of "J_float (value_float (m_lexer p))"]
    by (simp add: value_step_def value_number_float_def value_end_of_input_def sax_null_def [abs_def]
        sax_boolean_def [abs_def] sax_number_integer_def [abs_def] sax_number_unsigned_def [abs_def]
        sax_number_float_def [abs_def] sax_string_def [abs_def] del: flow_ok.simps split: token_type.split)
qed

lemma array_state_ok:
  assumes "opened p fs (J_array vs)" and "states p = True # map is_array_frame fs"
  shows "flow_ok (array_state p)"
proof -
  let ?p = "get_token p"
  have "awaits (get_token ?p)"
    by (rule awaits_get_token [of _ "Elements fs vs"]) (use assms in \<open>simp_all add: opened_def nested_def\<close>)
  moreover have "flow_ok (event end_array leave ?p)"
    by (rule leave_ok [of _ fs "J_array vs"])
       (use assms in \<open>simp_all add: opened_def end_array_holds [of _ fs vs]\<close>)
  moreover have "flow_ok (unexpected End_array ''array'' ?p)"
    by (rule unexpected_ok) (use assms in \<open>simp add: opened_def\<close>)
  ultimately show ?thesis using assms(1) by (simp add: array_state_def Let_def opened_def)
qed

lemma object_state_ok:
  assumes "opened p fs (J_object ms)" and "states p = False # map is_array_frame fs"
  shows "flow_ok (object_state p)"
proof -
  let ?p = "get_token p"
  have "flow_ok (parse_key (\<lambda>p2. Continue (get_token p2)) (get_token ?p))"
  proof (rule parse_key_ok [of _ fs ms])
    fix q :: parser and k
    assume q: "at_spot (sax q) (Value_of fs ms k)" "list_all frame_ok (In_object ms k # fs)" "allow_exceptions (sax q)"
      "states q = states (get_token ?p)" "\<not> skip_to_state_evaluation q"
    then have "awaits (get_token q)"
      by (intro awaits_get_token [of _ "Value_of fs ms k"]) (use assms in \<open>simp_all add: nested_def\<close>)
    with q(5) show "flow_ok (Continue (get_token q))" by simp
  qed (use assms get_token_utf8 in auto)
  moreover have "flow_ok (event end_object leave ?p)"
    by (rule leave_ok [of _ fs "J_object ms" False])
       (use assms in \<open>simp_all add: opened_def end_object_holds [of _ fs ms]\<close>)
  moreover have "flow_ok (unexpected End_object ''object'' ?p)"
    by (rule unexpected_ok) (use assms in \<open>simp add: opened_def\<close>)
  ultimately show ?thesis by (simp add: object_state_def Let_def)
qed

lemma state_step_ok:
  assumes "built p" and "\<not> skip_to_state_evaluation p"
  shows "flow_ok (state_step p)"
proof -
  from assms(1) obtain sp v where b: "after_spot (sax p) sp v" "sound v" "nested p (inner sp)"
    by (auto simp: built_def)
  show ?thesis
  proof (cases sp)
    case Top
    with b show ?thesis by (simp add: state_step_def nested_def returned_def)
  next
    case (Elements fs vs)
    with b assms(2) have "opened p fs (J_array (vs @ [v]))" "states p = True # map is_array_frame fs"
      by (simp_all add: opened_def nested_def)
    then show ?thesis by (simp add: state_step_def array_state_ok)
  next
    case (Value_of fs ms k)
    with b have "sound (J_object (obj_put k v ms))" by (intro obj_put_sound) (simp_all add: nested_def)
    with Value_of b assms(2) have "opened p fs (J_object (obj_put k v ms))" "states p = False # map is_array_frame fs"
      by (simp_all add: opened_def nested_def del: sound.simps)
    then show ?thesis by (simp add: state_step_def object_state_ok)
  qed
qed

lemma parse_round_ok:
  assumes "flow_ok (Continue p)"
  shows "flow_ok (parse_round p)"
proof (cases "skip_to_state_evaluation p")
  case True
  with assms state_step_ok [of "p\<lparr>skip_to_state_evaluation := False\<rparr>"] show ?thesis by (simp add: parse_round_def)
next
  case False
  with assms have v: "flow_ok (value_step p)" by (simp add: value_step_ok)
  show ?thesis
  proof (cases "value_step p")
    case (Break q)
    with v state_step_ok [of q] False show ?thesis by (simp add: parse_round_def)
  qed (use v False in \<open>simp_all add: parse_round_def\<close>)
qed

text \<open>A round never ends in a \<open>Break\<close>.\<close>

lemma state_step_not_break: "state_step p \<noteq> Break q"
  by (auto simp: state_step_def array_state_def object_state_def parse_key_def Let_def event_def leave_def
      unexpected_def sax_report_def split: list.splits bool.splits sum.splits if_splits)

lemma parse_round_not_break: "parse_round p \<noteq> Break q"
  using state_step_not_break by (auto simp: parse_round_def split: flow.splits)

lemma sax_parse_internal_sound:
  "flow_ok (Continue p) \<Longrightarrow>
   (case sax_parse_internal p of Inr (b, q) \<Rightarrow> returned q | Inl e \<Rightarrow> refused e)"
proof (induction p rule: sax_parse_internal.induct)
  case (1 p)
  note r = parse_round_ok [OF "1.prems"]
  show ?case
  proof (cases "parse_round p")
    case (Continue q)
    with 1(1) [OF Continue] r show ?thesis by (subst sax_parse_internal.simps) simp
  next
    case (Break q)
    with parse_round_not_break show ?thesis by blast
  qed (use r in \<open>simp_all add: sax_parse_internal.simps [of p]\<close>)
qed

text \<open>Such values can be printed and read back.\<close>

lemma sound_storable: "sound v \<Longrightarrow> storable v"
  by (induction v rule: sound.induct) (auto simp: list_all_iff)

text \<open>
  C5: parsing any bytes at all ends in one of two ways. Either there is a value whose text and keys
  are UTF-8, whose objects have their keys in ascending order without repetition and whose numbers
  are finite, and \<open>dump()\<close> writes it without an exception as a text that is read as the same value
  again, an integer that is not negative as an unsigned number; or an exception is thrown, which is
  the syntax error 101 or the overflow 406. The assertions of the builder hold throughout.
\<close>

theorem parse_json_sound:
  "case parse_json i of
     Inr v \<Rightarrow> sound v \<and> dump_json v = Inr (print_json v) \<and> parse_json (print_json v) = Inr (normal v)
   | Inl e \<Rightarrow> \<exists>m. e = Parse_error 101 m \<or> e = Out_of_range 406 m"
proof -
  let ?p = "new_parser i True False"
  have "awaits ?p"
    unfolding new_parser_def
    by (rule awaits_get_token [of _ Top]) (simp_all add: new_sax_dom_def nested_def)
  then have "flow_ok (Continue ?p)" by (simp add: awaits_def)
  from sax_parse_internal_sound [OF this]
  have "case parse_json i of Inr v \<Rightarrow> sound v | Inl e \<Rightarrow> refused e"
    by (auto simp: parse_json_def basic_parse_def parser_parse_def sax_parse_error_def parse_error_create_def
        refused_def returned_def Let_def split: sum.splits if_splits)
  then show ?thesis
    using dump_json_print(1) [OF storable_utf8 [OF sound_storable]] parse_printed [OF storable_parses [OF sound_storable]] by (auto simp: refused_def split: sum.splits)
qed

end
