(* ===== verification/Json_Builder.thy ===== *)
theory Json_Builder
  imports Json_Memory Json_Soundness
begin

text \<open>
  The builder of values (\<open>json_sax_dom_parser\<close> of \<open>include/json.hpp\<close>) with its real pointers, on the
  heap of \<open>Json_Memory\<close>: a vector that grows past its capacity moves its elements, and every pointer to
  one of them is invalid from then on. None of those is ever used: the pointers on the builder's stack
  are to the last element of each open vector, which nothing is appended to until the inner container
  is closed. The document's events come in the order in which the parser finds them.
\<close>

section \<open>Pointers to values\<close>

text \<open>
  The address of a value: the root, an element of a vector as it was allocated by its \<open>g\<close>-th
  reallocation, or the value of a key in a map, whose nodes do not move.
\<close>

datatype slot = Root | Element nat nat nat | Member_of nat string

record builder =
  cells :: heap
  generation :: "nat \<Rightarrow> nat"
  capacity :: "nat \<Rightarrow> nat"
  root_value :: data
  refs :: "slot list"
  element_ref :: "slot option"

definition new_builder :: builder where
  "new_builder = \<lparr>cells = [], generation = (\<lambda>a. 0), capacity = (\<lambda>a. 0), root_value = D_value J_null, refs = [], element_ref = None\<rparr>"

definition deref :: "slot \<Rightarrow> builder \<Rightarrow> data memory" where
  "deref p b =
     (case p of
        Root \<Rightarrow> Inr (root_value b)
      | Element a g i \<Rightarrow> bindm (cell_at a (cells b)) (\<lambda>c. case c of
          Vector vs \<Rightarrow> if generation b a = g \<and> i < length vs then Inr (vs ! i) else Inl Invalid_pointer
        | _ \<Rightarrow> Inl Invalid_pointer)
      | Member_of a k \<Rightarrow> bindm (cell_at a (cells b)) (\<lambda>c. case c of
          Members ms \<Rightarrow> (case map_of ms k of Some v \<Rightarrow> Inr v | None \<Rightarrow> Inl Invalid_pointer)
        | _ \<Rightarrow> Inl Invalid_pointer))"

text \<open>What the pointer refers to is replaced.\<close>

definition put_value :: "slot \<Rightarrow> data \<Rightarrow> builder \<Rightarrow> builder" where
  "put_value p v b =
     (case p of
        Root \<Rightarrow> b\<lparr>root_value := v\<rparr>
      | Element a g i \<Rightarrow> (case cells b ! a of Some (Vector vs) \<Rightarrow> b\<lparr>cells := (cells b)[a := Some (Vector (vs[i := v]))]\<rparr> | _ \<Rightarrow> b)
      | Member_of a k \<Rightarrow> (case cells b ! a of
          Some (Members ms) \<Rightarrow> b\<lparr>cells := (cells b)[a := Some (Members (map (\<lambda>(k', u). (k', if k' = k then v else u)) ms))]\<rparr> | _ \<Rightarrow> b))"

text \<open>\<open>*p = BasicJsonType(v)\<close>: the old value is swapped out and destroyed.\<close>

definition assign :: "nat \<Rightarrow> slot \<Rightarrow> data \<Rightarrow> builder \<Rightarrow> builder memory" where
  "assign fuel p v b =
     (if assert_invariant v
      then bindm (deref p b) (\<lambda>old. let b = put_value p v b in bindm (destruct 2 fuel old (cells b)) (\<lambda>h. Inr (b\<lparr>cells := h\<rparr>)))
      else Inl Violated_assertion)"

text \<open>\<open>BasicJsonType(v)\<close>: a new vector has no capacity.\<close>

definition make_value :: "json \<Rightarrow> builder \<Rightarrow> data \<times> builder" where
  "make_value v b =
     (let (d, h) = store_json v (cells b) in (d, b\<lparr>cells := h, capacity := (capacity b)(length (cells b) := 0)\<rparr>))"

text \<open>\<open>emplace_back\<close>, with the capacity that the library gives a full vector; the address of the new last element.\<close>

definition emplace_back :: "(nat \<Rightarrow> nat) \<Rightarrow> nat \<Rightarrow> data \<Rightarrow> builder \<Rightarrow> (slot \<times> builder) memory" where
  "emplace_back grow a v b =
     bindm (cell_at a (cells b)) (\<lambda>c. case c of
       Vector vs \<Rightarrow>
         (let b1 = b\<lparr>cells := (cells b)[a := Some (Vector (vs @ [v]))]\<rparr>;
              b2 = (if length vs < capacity b a then b1
                    else b1\<lparr>generation := (generation b)(a := Suc (generation b a)), capacity := (capacity b)(a := grow (length vs))\<rparr>)
          in Inr (Element a (generation b2 a) (length vs), b2))
     | _ \<Rightarrow> Inl Invalid_pointer)"

section \<open>The events\<close>

definition ptr_handle_value :: "nat \<Rightarrow> (nat \<Rightarrow> nat) \<Rightarrow> json \<Rightarrow> builder \<Rightarrow> (slot \<times> builder) memory" where
  "ptr_handle_value fuel grow v b =
     (if refs b = [] then (let (d, b) = make_value v b in bindm (assign fuel Root d b) (\<lambda>b. Inr (Root, b)))
      else bindm (deref (last (refs b)) b) (\<lambda>back. case back of
        D_array (Some a) \<Rightarrow> (let (d, b) = make_value v b in emplace_back grow a d b)
      | D_object (Some a) \<Rightarrow>
          (case element_ref b of
             None \<Rightarrow> Inl Violated_assertion
           | Some q \<Rightarrow> (let (d, b) = make_value v b in bindm (assign fuel q d b) (\<lambda>b. Inr (q, b))))
      | _ \<Rightarrow> Inl Violated_assertion))"

definition ptr_start :: "nat \<Rightarrow> (nat \<Rightarrow> nat) \<Rightarrow> json \<Rightarrow> builder \<Rightarrow> builder memory" where
  "ptr_start fuel grow v b = bindm (ptr_handle_value fuel grow v b) (\<lambda>(p, b). Inr (b\<lparr>refs := refs b @ [p]\<rparr>))"

definition ptr_start_object :: "nat \<Rightarrow> (nat \<Rightarrow> nat) \<Rightarrow> builder \<Rightarrow> builder memory" where
  "ptr_start_object fuel grow b = ptr_start fuel grow (J_object []) b"

definition ptr_start_array :: "nat \<Rightarrow> (nat \<Rightarrow> nat) \<Rightarrow> builder \<Rightarrow> builder memory" where
  "ptr_start_array fuel grow b = ptr_start fuel grow (J_array []) b"

text \<open>\<open>std::map::operator[]\<close>.\<close>

fun data_index :: "string \<Rightarrow> (string \<times> data) list \<Rightarrow> (string \<times> data) list" where
  "data_index k [] = [(k, D_value J_null)]"
| "data_index k ((k', v) # ms) =
     (if k = k' then (k', v) # ms
      else if k < k' then (k, D_value J_null) # (k', v) # ms
      else (k', v) # data_index k ms)"

definition ptr_key :: "string \<Rightarrow> builder \<Rightarrow> builder memory" where
  "ptr_key k b =
     (if refs b = [] then Inl Violated_assertion
      else bindm (deref (last (refs b)) b) (\<lambda>back. case back of
        D_object (Some a) \<Rightarrow> bindm (cell_at a (cells b)) (\<lambda>c. case c of
          Members ms \<Rightarrow> Inr (b\<lparr>cells := (cells b)[a := Some (Members (data_index k ms))], element_ref := Some (Member_of a k)\<rparr>)
        | _ \<Rightarrow> Inl Invalid_pointer)
      | _ \<Rightarrow> Inl Violated_assertion))"

definition ptr_end_object :: "builder \<Rightarrow> builder memory" where
  "ptr_end_object b =
     (if refs b = [] then Inl Violated_assertion
      else bindm (deref (last (refs b)) b) (\<lambda>back. case back of
        D_object p \<Rightarrow> Inr (b\<lparr>refs := butlast (refs b)\<rparr>) | _ \<Rightarrow> Inl Violated_assertion))"

definition ptr_end_array :: "builder \<Rightarrow> builder memory" where
  "ptr_end_array b =
     (if refs b = [] then Inl Violated_assertion
      else bindm (deref (last (refs b)) b) (\<lambda>back. case back of
        D_array p \<Rightarrow> Inr (b\<lparr>refs := butlast (refs b)\<rparr>) | _ \<Rightarrow> Inl Violated_assertion))"

text \<open>The events of a document, in the order the parser finds them; keys may be repeated.\<close>

fun feed :: "nat \<Rightarrow> (nat \<Rightarrow> nat) \<Rightarrow> json \<Rightarrow> builder \<Rightarrow> builder memory"
  and feed_elements :: "nat \<Rightarrow> (nat \<Rightarrow> nat) \<Rightarrow> json list \<Rightarrow> builder \<Rightarrow> builder memory"
  and feed_members :: "nat \<Rightarrow> (nat \<Rightarrow> nat) \<Rightarrow> (string \<times> json) list \<Rightarrow> builder \<Rightarrow> builder memory" where
  "feed fuel grow (J_array js) b =
     bindm (ptr_start_array fuel grow b) (\<lambda>b. bindm (feed_elements fuel grow js b) ptr_end_array)"
| "feed fuel grow (J_object ms) b =
     bindm (ptr_start_object fuel grow b) (\<lambda>b. bindm (feed_members fuel grow ms b) ptr_end_object)"
| "feed fuel grow v b = bindm (ptr_handle_value fuel grow v b) (\<lambda>(p, b). Inr b)"
| "feed_elements fuel grow [] b = Inr b"
| "feed_elements fuel grow (j # js) b = bindm (feed fuel grow j b) (feed_elements fuel grow js)"
| "feed_members fuel grow [] b = Inr b"
| "feed_members fuel grow ((k, j) # ms) b =
     bindm (ptr_key k b) (\<lambda>b. bindm (feed fuel grow j b) (feed_members fuel grow ms))"

text \<open>The value a document stands for: the last value of a key counts.\<close>

fun built_value :: "json \<Rightarrow> json" where
  "built_value (J_array js) = J_array (map built_value js)"
| "built_value (J_object ms) = J_object (foldl (\<lambda>acc (k, v). obj_put k v acc) [] (map (\<lambda>(k, v). (k, built_value v)) ms))"
| "built_value v = v"

section \<open>What a step leaves alone\<close>

text \<open>All old cells outside \<open>A\<close> are as they were, with their storage.\<close>

definition keeps :: "nat set \<Rightarrow> builder \<Rightarrow> builder \<Rightarrow> bool" where
  "keeps A b b' \<longleftrightarrow> length (cells b) \<le> length (cells b')
     \<and> (\<forall>c < length (cells b). c \<notin> A \<longrightarrow> cells b' ! c = cells b ! c \<and> generation b' c = generation b c)"

text \<open>Of the cells \<open>us\<close> and the new ones, \<open>cs\<close> are in use and the others are freed.\<close>

definition tidy :: "nat list \<Rightarrow> nat list \<Rightarrow> builder \<Rightarrow> builder \<Rightarrow> bool" where
  "tidy us cs b b' \<longleftrightarrow> distinct cs \<and> set cs \<subseteq> set us \<union> {length (cells b)..<length (cells b')}
     \<and> (\<forall>c \<in> set us \<union> {length (cells b)..<length (cells b')} - set cs. cells b' ! c = None)"

definition slot_cell :: "slot \<Rightarrow> nat option" where
  "slot_cell p = (case p of Root \<Rightarrow> None | Element a g i \<Rightarrow> Some a | Member_of a k \<Rightarrow> Some a)"

lemma keeps_trans:
  assumes "keeps A b b1" "keeps B b1 b2" "\<And>c. c \<in> B \<Longrightarrow> c < length (cells b) \<Longrightarrow> c \<in> A"
  shows "keeps A b b2"
  unfolding keeps_def
proof (intro conjI allI impI)
  show "length (cells b) \<le> length (cells b2)" using assms(1,2) by (simp add: keeps_def)
  fix c assume "c < length (cells b)" "c \<notin> A"
  moreover from this have "c < length (cells b1)" "c \<notin> B" using assms(1,3) by (auto simp: keeps_def)
  ultimately show "cells b2 ! c = cells b ! c" "generation b2 c = generation b c" using assms(1,2) by (simp_all add: keeps_def)
qed

lemma keeps_refl: "keeps A b b"
  by (simp add: keeps_def)

lemma keeps_mono: "keeps A b b' \<Longrightarrow> A \<subseteq> B \<Longrightarrow> keeps B b b'"
  by (auto simp: keeps_def)

lemma bindm_Inr: "bindm r f = Inr y \<longleftrightarrow> (\<exists>x. r = Inr x \<and> f x = Inr y)"
  by (cases r) simp_all

lemma cell_at_Inr: "cell_at a h = Inr c \<longleftrightarrow> a < length h \<and> h ! a = Some c"
  by (auto simp: cell_at_def split: option.split)

lemma deref_keeps:
  assumes "deref p b = Inr d" "keeps A b b'" "root_value b' = root_value b" "\<And>a. slot_cell p = Some a \<Longrightarrow> a \<notin> A"
  shows "deref p b' = Inr d"
proof (cases p)
  case (Element a g i)
  with assms(1) obtain c where c: "a < length (cells b)" "cells b ! a = Some c"
    "(case c of Vector vs \<Rightarrow> if generation b a = g \<and> i < length vs then Inr (vs ! i) else Inl Invalid_pointer | _ \<Rightarrow> Inl Invalid_pointer) = Inr d"
    by (simp add: deref_def bindm_Inr cell_at_Inr) blast
  then obtain vs where "c = Vector vs" "generation b a = g" "i < length vs" "d = vs ! i"
    by (cases c) (auto split: if_split_asm)
  note this c(1,2)
  moreover have "a \<notin> A" using assms(4) Element by (simp add: slot_cell_def)
  ultimately show ?thesis using assms(2) Element by (auto simp: deref_def cell_at_def keeps_def)
next
  case (Member_of a k)
  with assms(1) obtain c where c: "a < length (cells b)" "cells b ! a = Some c"
    "(case c of Members ms \<Rightarrow> (case map_of ms k of Some v \<Rightarrow> Inr v | None \<Rightarrow> Inl Invalid_pointer) | _ \<Rightarrow> Inl Invalid_pointer) = Inr d"
    by (simp add: deref_def bindm_Inr cell_at_Inr) blast
  then obtain ms where "c = Members ms" "map_of ms k = Some d"
    by (cases c) (auto split: option.split_asm)
  note this c(1,2)
  moreover have "a \<notin> A" using assms(4) Member_of by (simp add: slot_cell_def)
  ultimately show ?thesis using assms(2) Member_of by (auto simp: deref_def cell_at_def keeps_def)
qed (use assms in \<open>simp add: deref_def\<close>)

lemma deref_cell: "deref p b = Inr d \<Longrightarrow> slot_cell p = Some a \<Longrightarrow> a < length (cells b)"
  by (auto simp: deref_def slot_cell_def bindm_Inr cell_at_Inr split: slot.splits cell.splits)

lemma represents_mono:
  "represents h v j cs \<Longrightarrow> length h \<le> length h' \<Longrightarrow> (\<forall>a \<in> set cs. h' ! a = h ! a) \<Longrightarrow> represents h' v j cs"
  "represents_all h vs js ds \<Longrightarrow> length h \<le> length h' \<Longrightarrow> (\<forall>a \<in> set ds. h' ! a = h ! a) \<Longrightarrow> represents_all h' vs js ds"
proof (induction rule: represents_represents_all.inducts)
  case (vector_cell a vs js cs)
  then show ?case by (intro represents_represents_all.vector_cell) simp_all
next
  case (members_cell a ms js cs)
  then show ?case by (intro represents_represents_all.members_cell) simp_all
next
  case (more v j cs vs js ds)
  then show ?case by (intro represents_represents_all.more) simp_all
qed (intro represents_represents_all.intros; simp)+

lemma represents_keeps:
  "represents (cells b) v j cs \<Longrightarrow> keeps A b b' \<Longrightarrow> set cs \<inter> A = {} \<Longrightarrow> represents (cells b') v j cs"
  using represents_mono(1) [of "cells b" v j cs "cells b'"] represents_cells(1) [of "cells b" v j cs]
  by (auto simp: keeps_def)

lemma represents_all_keeps:
  "represents_all (cells b) vs js cs \<Longrightarrow> keeps A b b' \<Longrightarrow> set cs \<inter> A = {} \<Longrightarrow> represents_all (cells b') vs js cs"
  using represents_mono(2) [of "cells b" vs js cs "cells b'"] represents_cells(2) [of "cells b" vs js cs]
  by (auto simp: keeps_def)

section \<open>One event\<close>

lemma make_value_spec:
  assumes "make_value v b = (d, b')"
  obtains cs where "represents (cells b') d v cs" "distinct cs" "set cs = {length (cells b)..<length (cells b')}"
    "keeps {} b b'" "refs b' = refs b" "root_value b' = root_value b" "element_ref b' = element_ref b" "generation b' = generation b"
proof -
  obtain cs where "represents (snd (store_json v (cells b))) (fst (store_json v (cells b))) v cs"
    "fresh_cells (cells b) (snd (store_json v (cells b))) cs" using store_represents(1) by blast
  moreover have "store_json v (cells b) = (d, cells b')" "generation b' = generation b" "refs b' = refs b" "root_value b' = root_value b"
    "element_ref b' = element_ref b"
    using assms by (auto simp: make_value_def split: prod.splits)
  ultimately show thesis by (intro that [of cs]) (auto simp: fresh_cells_def keeps_def nth_append)
qed

text \<open>The value \<open>v\<close> has been put where \<open>p\<close> points, in new cells.\<close>

definition placed :: "builder \<Rightarrow> slot \<Rightarrow> builder \<Rightarrow> json \<Rightarrow> data \<Rightarrow> nat list \<Rightarrow> bool" where
  "placed b p b' v d cs \<longleftrightarrow> deref p b' = Inr d \<and> represents (cells b') d v cs \<and> distinct cs
     \<and> set cs = {length (cells b)..<length (cells b')} \<and> (\<forall>a. slot_cell p = Some a \<longrightarrow> a < length (cells b)) \<and> refs b' = refs b"

lemma handle_root:
  assumes "refs b = []" "root_value b = D_value J_null"
  shows "\<exists>b' d cs. ptr_handle_value fuel grow v b = Inr (Root, b') \<and> placed b Root b' v d cs \<and> keeps {} b b'"
proof -
  obtain d b1 where m: "make_value v b = (d, b1)" by fastforce
  then obtain cs where c: "represents (cells b1) d v cs" "distinct cs" "set cs = {length (cells b)..<length (cells b1)}" "keeps {} b b1"
    "refs b1 = refs b" "root_value b1 = root_value b" by (rule make_value_spec)
  have "assign fuel Root d b1 = Inr (b1\<lparr>root_value := d\<rparr>)"
    using c(6) assms(2) represents_invariant [OF c(1)] by (simp add: assign_def deref_def put_value_def numeral_2_eq_2 destruct_null del: destruct.simps)
  then have "ptr_handle_value fuel grow v b = Inr (Root, b1\<lparr>root_value := d\<rparr>)" using assms(1) m by (simp add: ptr_handle_value_def)
  moreover have "placed b Root (b1\<lparr>root_value := d\<rparr>) v d cs" using c by (simp add: placed_def deref_def slot_cell_def)
  moreover have "keeps {} b (b1\<lparr>root_value := d\<rparr>)" using c(4) by (simp add: keeps_def)
  ultimately show ?thesis by blast
qed

lemma handle_vector:
  assumes "refs b \<noteq> []" "deref (last (refs b)) b = Inr (D_array (Some n))" "n < length (cells b)" "cells b ! n = Some (Vector vs)"
  shows "\<exists>p b' d cs. ptr_handle_value fuel grow v b = Inr (p, b') \<and> placed b p b' v d cs \<and> keeps {n} b b'
    \<and> cells b' ! n = Some (Vector (vs @ [d])) \<and> root_value b' = root_value b"
proof -
  obtain d b1 where m: "make_value v b = (d, b1)" by fastforce
  then obtain cs where c: "represents (cells b1) d v cs" "distinct cs" "set cs = {length (cells b)..<length (cells b1)}" "keeps {} b b1"
    "refs b1 = refs b" "root_value b1 = root_value b" "generation b1 = generation b" by (rule make_value_spec)
  have n: "n < length (cells b1)" "cells b1 ! n = Some (Vector vs)" using c(4) assms(3,4) by (simp_all add: keeps_def)
  obtain p b' where e: "emplace_back grow n d b1 = Inr (p, b')" "p = Element n (generation b' n) (length vs)"
    "cells b' = (cells b1)[n := Some (Vector (vs @ [d]))]" "refs b' = refs b1" "root_value b' = root_value b1"
    "\<forall>c. c \<noteq> n \<longrightarrow> generation b' c = generation b1 c"
    using n by (simp add: emplace_back_def cell_at_def Let_def)
  have r: "represents (cells b') d v cs" unfolding e(3)
    by (rule represents_frame(1) [OF c(1)]) (use c(3) assms(3) in \<open>auto intro!: nth_list_update_neq\<close>)
  have "deref p b' = Inr d" using n e(2,3) by (simp add: deref_def cell_at_def)
  then have "placed b p b' v d cs" using r c(2,3,5) e(2,3,4) assms(3) by (simp add: placed_def slot_cell_def)
  moreover have "keeps {n} b b'" using c(4,7) e(3,6) by (simp add: keeps_def)
  moreover have "ptr_handle_value fuel grow v b = Inr (p, b')" using assms(1,2) m e(1) by (simp add: ptr_handle_value_def)
  moreover have "cells b' ! n = Some (Vector (vs @ [d]))" using n e(3) by simp
  ultimately show ?thesis using e(5) c(6) by auto
qed

lemma handle_member:
  assumes "refs b \<noteq> []" "deref (last (refs b)) b = Inr (D_object (Some n))" "n < length (cells b)"
    "cells b ! n = Some (Members (xs @ (k, u) # ys))" "k \<notin> fst ` set xs" "k \<notin> fst ` set ys" "element_ref b = Some (Member_of n k)"
    "represents (cells b) u ju us" "distinct us" "n \<notin> set us" "json_nodes ju \<le> fuel"
  shows "\<exists>p b' d cs. ptr_handle_value fuel grow v b = Inr (p, b') \<and> placed b p b' v d cs \<and> keeps (insert n (set us)) b b'
    \<and> cells b' ! n = Some (Members (xs @ (k, d) # ys)) \<and> root_value b' = root_value b \<and> (\<forall>c \<in> set us. cells b' ! c = None)"
proof -
  let ?q = "Member_of n k"
  obtain d b1 where m: "make_value v b = (d, b1)" by fastforce
  then obtain cs where c: "represents (cells b1) d v cs" "distinct cs" "set cs = {length (cells b)..<length (cells b1)}" "keeps {} b b1"
    "refs b1 = refs b" "root_value b1 = root_value b" "generation b1 = generation b" by (rule make_value_spec)
  have n: "n < length (cells b1)" "cells b1 ! n = Some (Members (xs @ (k, u) # ys))" using c(4) assms(3,4) by (simp_all add: keeps_def)
  have kx: "map_of xs k = None" using assms(5) by (simp add: map_of_eq_None_iff)
  have at: "map_of (xs @ (k, w) # ys) k = Some w" for w using kx by (simp add: map_add_def)
  have u: "deref ?q b1 = Inr u" using n at by (simp add: deref_def cell_at_def del: map_of_append)
  have upd: "map (\<lambda>(k', w). (k', if k' = k then d else w)) zs = zs" if "k \<notin> fst ` set zs" for zs
    using that by (induction zs) auto
  define h where "h = (cells b1)[n := Some (Members (xs @ (k, d) # ys))]"
  have put: "put_value ?q d b1 = b1\<lparr>cells := h\<rparr>" using n upd [OF assms(5)] upd [OF assms(6)] by (simp add: put_value_def h_def)
  have us: "set us \<subseteq> {..<length (cells b)}" using represents_cells(1) [OF assms(8)] by auto
  have "represents (cells b1) u ju us" by (rule represents_keeps [OF assms(8) c(4)]) simp
  then have "represents h u ju us" unfolding h_def by (rule represents_frame(1)) (use assms(10) in \<open>auto intro!: nth_list_update_neq\<close>)
  then have d: "destruct 2 fuel u h = Inr (freed us h)"
    using destruct_frees [OF _ assms(9,11), of h u 0] by (simp add: numeral_2_eq_2 del: destruct.simps)
  define b' where "b' = b1\<lparr>cells := freed us h\<rparr>"
  have "assign fuel ?q d b1 = Inr b'" using u put d represents_invariant [OF c(1)] by (simp add: assign_def b'_def)
  then have "ptr_handle_value fuel grow v b = Inr (?q, b')" using assms(1,2,7) m by (simp add: ptr_handle_value_def)
  moreover have len: "length (cells b') = length (cells b1)" by (simp add: b'_def h_def freed_nth)
  have nth: "cells b' ! c = (if c \<in> set us then None else if c = n then Some (Members (xs @ (k, d) # ys)) else cells b1 ! c)"
    if "c < length (cells b1)" for c using that n(1) by (simp add: b'_def h_def freed_nth)
  have r: "represents (cells b') d v cs"
    by (rule represents_frame(1) [OF c(1) len]) (use c(3) us assms(3) in \<open>auto simp: nth\<close>)
  have "deref ?q b' = Inr d" using nth [OF n(1)] n(1) len assms(10) at by (simp add: deref_def cell_at_def del: map_of_append)
  then have "placed b ?q b' v d cs" using r c(2,3,5) len assms(3) by (simp add: placed_def slot_cell_def b'_def)
  moreover have "keeps (insert n (set us)) b b'" using c(4,7) len nth by (simp add: keeps_def b'_def)
  moreover have "cells b' ! n = Some (Members (xs @ (k, d) # ys))" using nth [OF n(1)] assms(10) by simp
  moreover have "\<forall>c \<in> set us. cells b' ! c = None" using us nth c(4) by (auto simp: keeps_def)
  ultimately show ?thesis using c(6) by (auto simp: b'_def)
qed

section \<open>Where the next value goes\<close>

text \<open>
  The root, the end of the vector \<open>n\<close>, or the value \<open>u\<close>, in the cells \<open>us\<close>, of the key \<open>k\<close> in the map \<open>n\<close>.
\<close>

datatype place =
    At_root
  | At_end nat "data list"
  | At_key nat "(string \<times> data) list" string data "(string \<times> data) list" "nat list"

fun old_cells :: "place \<Rightarrow> nat list" where
  "old_cells (At_key n xs k u ys us) = us"
| "old_cells _ = []"

fun touched :: "place \<Rightarrow> nat set" where
  "touched At_root = {}"
| "touched (At_end n vs) = {n}"
| "touched (At_key n xs k u ys us) = insert n (set us)"

fun prepared :: "nat \<Rightarrow> builder \<Rightarrow> place \<Rightarrow> bool" where
  "prepared fuel b At_root \<longleftrightarrow> refs b = [] \<and> root_value b = D_value J_null"
| "prepared fuel b (At_end n vs) \<longleftrightarrow>
     refs b \<noteq> [] \<and> deref (last (refs b)) b = Inr (D_array (Some n)) \<and> n < length (cells b) \<and> cells b ! n = Some (Vector vs)"
| "prepared fuel b (At_key n xs k u ys us) \<longleftrightarrow>
     refs b \<noteq> [] \<and> deref (last (refs b)) b = Inr (D_object (Some n)) \<and> n < length (cells b)
     \<and> cells b ! n = Some (Members (xs @ (k, u) # ys)) \<and> k \<notin> fst ` set xs \<and> k \<notin> fst ` set ys \<and> element_ref b = Some (Member_of n k)
     \<and> (\<exists>ju. represents (cells b) u ju us \<and> json_nodes ju \<le> fuel) \<and> distinct us \<and> n \<notin> set us"

fun contains :: "builder \<Rightarrow> place \<Rightarrow> data \<Rightarrow> bool" where
  "contains b At_root d \<longleftrightarrow> root_value b = d"
| "contains b (At_end n vs) d \<longleftrightarrow> cells b ! n = Some (Vector (vs @ [d]))"
| "contains b (At_key n xs k u ys us) d \<longleftrightarrow> cells b ! n = Some (Members (xs @ (k, d) # ys))"

lemma prepared_cells: "prepared fuel b pl \<Longrightarrow> c \<in> touched pl \<union> set (old_cells pl) \<Longrightarrow> c < length (cells b)"
  by (cases pl) (auto dest: represents_cells(1))

text \<open>\<open>handle_value\<close>, wherever the value goes.\<close>

lemma handle_value_at:
  assumes "prepared fuel b pl"
  shows "\<exists>p b' d cs. ptr_handle_value fuel grow v b = Inr (p, b') \<and> placed b p b' v d cs \<and> keeps (touched pl) b b'
    \<and> contains b' pl d \<and> (pl \<noteq> At_root \<longrightarrow> root_value b' = root_value b) \<and> (\<forall>c \<in> set (old_cells pl). cells b' ! c = None)"
proof (cases pl)
  case At_root
  then show ?thesis using assms handle_root [of b fuel grow v] by (fastforce simp: placed_def deref_def)
next
  case (At_end n vs)
  then show ?thesis using assms handle_vector [of b n vs fuel grow v] by auto
next
  case (At_key n xs k u ys us)
  then obtain ju where "represents (cells b) u ju us" "json_nodes ju \<le> fuel" using assms by auto
  then show ?thesis using At_key assms handle_member [of b n xs k u ys ju us fuel grow v] by auto
qed

text \<open>\<open>v\<close> has been put there, in new cells, and nothing else has changed.\<close>

definition arrived :: "place \<Rightarrow> builder \<Rightarrow> json \<Rightarrow> builder \<Rightarrow> bool" where
  "arrived pl b v b' \<longleftrightarrow> (\<exists>d cs. represents (cells b') d v cs \<and> contains b' pl d \<and> tidy (old_cells pl) cs b b'
     \<and> set cs \<inter> set (old_cells pl) = {}) \<and> keeps (touched pl) b b' \<and> refs b' = refs b \<and> (pl \<noteq> At_root \<longrightarrow> root_value b' = root_value b)"

lemma arrivedI:
  "represents (cells b') d v cs \<Longrightarrow> contains b' pl d \<Longrightarrow> tidy (old_cells pl) cs b b' \<Longrightarrow> set cs \<inter> set (old_cells pl) = {} \<Longrightarrow>
   keeps (touched pl) b b' \<Longrightarrow> refs b' = refs b \<Longrightarrow> (pl \<noteq> At_root \<Longrightarrow> root_value b' = root_value b) \<Longrightarrow> arrived pl b v b'"
  unfolding arrived_def by blast

lemma refs_update [simp]:
  "contains (b\<lparr>refs := r\<rparr>) pl d = contains b pl d" "tidy us cs b (b'\<lparr>refs := r\<rparr>) = tidy us cs b b'"
  "keeps A b (b'\<lparr>refs := r\<rparr>) = keeps A b b'" "deref p (b\<lparr>refs := r\<rparr>) = deref p b"
  by (cases pl) (simp_all add: tidy_def keeps_def deref_def split: slot.split)

lemma feed_scalar:
  assumes "prepared fuel b pl"
  shows "\<exists>b'. bindm (ptr_handle_value fuel grow v b) (\<lambda>(p, b). Inr b) = Inr b' \<and> arrived pl b v b'"
proof -
  obtain p b' d cs where h: "ptr_handle_value fuel grow v b = Inr (p, b')" "placed b p b' v d cs" "keeps (touched pl) b b'"
    "contains b' pl d" "pl \<noteq> At_root \<longrightarrow> root_value b' = root_value b" "\<forall>c \<in> set (old_cells pl). cells b' ! c = None"
    using handle_value_at [OF assms] by blast
  have "tidy (old_cells pl) cs b b'" using h(2,6) by (auto simp: tidy_def placed_def)
  moreover have "set cs \<inter> set (old_cells pl) = {}" using h(2) prepared_cells [OF assms] by (fastforce simp: placed_def)
  ultimately have "arrived pl b v b'" using h by (intro arrivedI [of b' d v cs]) (auto simp: placed_def)
  then show ?thesis using h(1) by simp
qed

text \<open>
  A container is opened where the value goes: its pointer is on the stack, its only cell is new.
\<close>

definition container_open :: "place \<Rightarrow> builder \<Rightarrow> data \<Rightarrow> nat \<Rightarrow> builder \<Rightarrow> bool" where
  "container_open pl b d a b' \<longleftrightarrow> (\<exists>p. refs b' = refs b @ [p] \<and> (\<forall>c. slot_cell p = Some c \<longrightarrow> c < length (cells b)) \<and> deref p b' = Inr d)
     \<and> a = length (cells b) \<and> length (cells b') = Suc a \<and> contains b' pl d \<and> keeps (touched pl) b b'
     \<and> (pl \<noteq> At_root \<longrightarrow> root_value b' = root_value b) \<and> (\<forall>c \<in> set (old_cells pl). cells b' ! c = None)"

text \<open>Its elements have been fed, in new cells.\<close>

lemma container_closed:
  assumes "prepared fuel b pl" "container_open pl b d a b1" "keeps {a} b1 b2" "root_value b2 = root_value b1" "refs b2 = refs b1"
    "represents (cells b2) d v (a # cs)" "tidy [] cs b1 b2"
  shows "deref (last (refs b2)) b2 = Inr d" "refs b2 \<noteq> []" "arrived pl b v (b2\<lparr>refs := butlast (refs b2)\<rparr>)"
proof -
  obtain p where p: "refs b1 = refs b @ [p]" "\<forall>c. slot_cell p = Some c \<longrightarrow> c < length (cells b)" "deref p b1 = Inr d"
    and o: "a = length (cells b)" "length (cells b1) = Suc a" "contains b1 pl d" "keeps (touched pl) b b1"
     "pl \<noteq> At_root \<longrightarrow> root_value b1 = root_value b" "\<forall>c \<in> set (old_cells pl). cells b1 ! c = None"
    using assms(2) by (auto simp: container_open_def)
  show "deref (last (refs b2)) b2 = Inr d"
    using deref_keeps [OF p(3) assms(3,4)] p(2) o(1) assms(5) p(1) by auto
  show "refs b2 \<noteq> []" using assms(5) p(1) by simp
  have old: "cells b2 ! c = cells b1 ! c" if "c < length (cells b)" for c using assms(3) that o(1,2) by (auto simp: keeps_def)
  have len: "Suc a \<le> length (cells b2)" using assms(3) o(2) by (simp add: keeps_def)
  have "contains b2 pl d"
    using o(3) old prepared_cells [OF assms(1)] assms(4) by (cases pl) auto
  moreover have "tidy (old_cells pl) (a # cs) b b2"
    unfolding tidy_def
  proof (intro conjI ballI)
    show "distinct (a # cs)" "set (a # cs) \<subseteq> set (old_cells pl) \<union> {length (cells b)..<length (cells b2)}"
      using assms(7) o(1,2) len by (auto simp: tidy_def)
    fix c assume c: "c \<in> set (old_cells pl) \<union> {length (cells b)..<length (cells b2)} - set (a # cs)"
    show "cells b2 ! c = None"
    proof (cases "c < length (cells b)")
      case True
      then show ?thesis using c old [OF True] o(6) by auto
    next
      case False
      then show ?thesis using c assms(7) prepared_cells [OF assms(1)] o(1,2) by (fastforce simp: tidy_def)
    qed
  qed
  moreover have "set (a # cs) \<inter> set (old_cells pl) = {}"
    using prepared_cells [OF assms(1)] assms(7) o(1,2) by (fastforce simp: tidy_def)
  moreover have "keeps (touched pl) b b2" by (rule keeps_trans [OF o(4) assms(3)]) (use o(1) in simp)
  ultimately show "arrived pl b v (b2\<lparr>refs := butlast (refs b2)\<rparr>)"
    using assms(4,5,6) p(1) o(5) by (intro arrivedI [of _ d v "a # cs"]) simp_all
qed

lemma one_cell: "{m..<n} = {a} \<Longrightarrow> a = m \<and> n = Suc m" for m n a :: nat
proof -
  assume i: "{m..<n} = {a}"
  then have "card {m..<n} = 1" by simp
  then have "n = Suc m" by simp
  with i show ?thesis by simp
qed

lemma opened_by_start:
  assumes "prepared fuel b pl" "v = J_array [] \<or> v = J_object []"
  shows "\<exists>b' a. ptr_start fuel grow v b = Inr b' \<and> container_open pl b (if v = J_array [] then D_array (Some a) else D_object (Some a)) a b'
    \<and> cells b' ! a = Some (if v = J_array [] then Vector [] else Members [])"
proof -
  obtain p b' d cs where h: "ptr_handle_value fuel grow v b = Inr (p, b')" "placed b p b' v d cs" "keeps (touched pl) b b'"
    "contains b' pl d" "pl \<noteq> At_root \<longrightarrow> root_value b' = root_value b" "\<forall>c \<in> set (old_cells pl). cells b' ! c = None"
    using handle_value_at [OF assms(1)] by blast
  from h(2) have "represents (cells b') d v cs" by (simp add: placed_def)
  then obtain a where a: "d = (if v = J_array [] then D_array (Some a) else D_object (Some a))" "cs = [a]"
    "cells b' ! a = Some (if v = J_array [] then Vector [] else Members [])"
    using assms(2) by (cases rule: represents.cases) (auto elim: represents_all.cases)
  with h(2) have "{length (cells b)..<length (cells b')} = {a}" by (simp add: placed_def)
  from one_cell [OF this] have "a = length (cells b)" "length (cells b') = Suc a" by simp_all
  moreover have "ptr_start fuel grow v b = Inr (b'\<lparr>refs := refs b @ [p]\<rparr>)" using h(1,2) by (simp add: ptr_start_def placed_def)
  ultimately show ?thesis using h(2-6) a by (intro exI [of _ "b'\<lparr>refs := refs b @ [p]\<rparr>"] exI [of _ a]) (simp add: container_open_def placed_def)
qed

section \<open>Elements and members\<close>

text \<open>The last container on the stack is the cell \<open>a\<close>, and its elements are in the cells \<open>cs\<close>.\<close>

definition in_array :: "builder \<Rightarrow> nat \<Rightarrow> json list \<Rightarrow> nat list \<Rightarrow> bool" where
  "in_array b a acc cs \<longleftrightarrow> refs b \<noteq> [] \<and> deref (last (refs b)) b = Inr (D_array (Some a)) \<and> a < length (cells b) \<and> distinct (a # cs)
     \<and> (\<forall>c. slot_cell (last (refs b)) = Some c \<longrightarrow> c \<notin> insert a (set cs))
     \<and> (\<exists>vs. cells b ! a = Some (Vector vs) \<and> represents_all (cells b) vs acc cs)"

definition in_object :: "nat \<Rightarrow> builder \<Rightarrow> nat \<Rightarrow> (string \<times> json) list \<Rightarrow> nat list \<Rightarrow> bool" where
  "in_object fuel b a acc cs \<longleftrightarrow> refs b \<noteq> [] \<and> deref (last (refs b)) b = Inr (D_object (Some a)) \<and> a < length (cells b) \<and> distinct (a # cs)
     \<and> (\<forall>c. slot_cell (last (refs b)) = Some c \<longrightarrow> c \<notin> insert a (set cs))
     \<and> (\<exists>ms. cells b ! a = Some (Members ms) \<and> represents_all (cells b) (map snd ms) (map snd acc) cs \<and> map fst ms = map fst acc)
     \<and> ascending acc \<and> list_all (\<lambda>(k, v). json_nodes v \<le> fuel) acc"

text \<open>More elements: the cells \<open>cs\<close> of the old ones have become \<open>cs'\<close>.\<close>

definition refilled :: "nat \<Rightarrow> nat list \<Rightarrow> nat list \<Rightarrow> builder \<Rightarrow> builder \<Rightarrow> bool" where
  "refilled a cs cs' b b' \<longleftrightarrow> keeps (insert a (set cs)) b b' \<and> tidy cs cs' b b' \<and> refs b' = refs b \<and> root_value b' = root_value b"

lemma refilled_trans:
  assumes "refilled a cs cs1 b b1" "refilled a cs1 cs2 b1 b2" "a < length (cells b)" "\<forall>c \<in> set cs. c < length (cells b)" "a \<notin> set cs"
  shows "refilled a cs cs2 b b2"
proof -
  have k: "keeps (insert a (set cs)) b b1" "keeps (insert a (set cs1)) b1 b2" and t: "tidy cs cs1 b b1" "tidy cs1 cs2 b1 b2"
    using assms(1,2) by (simp_all add: refilled_def)
  have len: "length (cells b) \<le> length (cells b1)" "length (cells b1) \<le> length (cells b2)" using k by (simp_all add: keeps_def)
  have "keeps (insert a (set cs)) b b2" by (rule keeps_trans [OF k]) (use t(1) in \<open>auto simp: tidy_def\<close>)
  moreover have "tidy cs cs2 b b2"
    unfolding tidy_def
  proof (intro conjI ballI)
    show "distinct cs2" using t(2) by (simp add: tidy_def)
    show "set cs2 \<subseteq> set cs \<union> {length (cells b)..<length (cells b2)}"
    proof
      fix x assume "x \<in> set cs2"
      then have "x \<in> set cs1 \<or> x \<in> {length (cells b1)..<length (cells b2)}" using t(2) by (auto simp: tidy_def)
      then show "x \<in> set cs \<union> {length (cells b)..<length (cells b2)}" using t(1) len by (auto simp: tidy_def)
    qed
    fix c assume c: "c \<in> set cs \<union> {length (cells b)..<length (cells b2)} - set cs2"
    show "cells b2 ! c = None"
    proof (cases "c < length (cells b1) \<and> c \<notin> set cs1")
      case True
      then have "cells b1 ! c = None" "c \<noteq> a" using c t(1) assms(3,5) by (auto simp: tidy_def)
      then show ?thesis using True k(2) by (simp add: keeps_def)
    next
      case False
      have "c < length (cells b2)" using c assms(4) len by force
      then have "c \<in> set cs1 \<union> {length (cells b1)..<length (cells b2)} - set cs2" using False c by force
      then show ?thesis using t(2) unfolding tidy_def by blast
    qed
  qed
  ultimately show ?thesis using assms(1,2) by (simp add: refilled_def)
qed

lemma refilled_refl: "distinct cs \<Longrightarrow> refilled a cs cs b b"
  by (simp add: refilled_def keeps_refl tidy_def)

text \<open>A container grows where it is; its pointer stays valid.\<close>

lemma refilled_deref:
  assumes "refilled a cs cs' b b'" "deref (last (refs b)) b = Inr d" "\<forall>c. slot_cell (last (refs b)) = Some c \<longrightarrow> c \<notin> insert a (set cs)"
  shows "deref (last (refs b')) b' = Inr d" "\<forall>c. slot_cell (last (refs b')) = Some c \<longrightarrow> c \<notin> insert a (set cs')"
proof -
  show "deref (last (refs b')) b' = Inr d"
    using deref_keeps [OF assms(2), of "insert a (set cs)" b'] assms(1,3) by (simp add: refilled_def)
  show "\<forall>c. slot_cell (last (refs b')) = Some c \<longrightarrow> c \<notin> insert a (set cs')"
    using assms(1,3) deref_cell [OF assms(2)] by (fastforce simp: refilled_def tidy_def)
qed

lemma new_old: "set ds \<subseteq> {m..<n} \<Longrightarrow> \<forall>c \<in> set es. c < m \<Longrightarrow> set ds \<inter> set es = {}" for m :: nat
  by (meson atLeastLessThan_iff disjoint_iff not_le subsetD)

lemma tidy_replace:
  assumes "tidy us ds b b'" "set ds \<inter> set us = {}" "distinct (cs1 @ us @ cs2)" "\<forall>c \<in> set (cs1 @ us @ cs2). c < length (cells b)"
    "length (cells b) \<le> length (cells b')"
  shows "set ds \<subseteq> {length (cells b)..<length (cells b')}" "distinct (cs1 @ ds @ cs2)" "tidy (cs1 @ us @ cs2) (cs1 @ ds @ cs2) b b'"
proof -
  show ds: "set ds \<subseteq> {length (cells b)..<length (cells b')}"
  proof
    fix c assume "c \<in> set ds"
    then show "c \<in> {length (cells b)..<length (cells b')}" using assms(1,2) unfolding tidy_def by blast
  qed
  have "set ds \<inter> set (cs1 @ cs2) = {}" by (rule new_old [OF ds]) (use assms(4) in auto)
  then show d: "distinct (cs1 @ ds @ cs2)" using assms(1,3) by (auto simp: tidy_def)
  show "tidy (cs1 @ us @ cs2) (cs1 @ ds @ cs2) b b'"
    unfolding tidy_def
  proof (intro conjI ballI)
    show "set (cs1 @ ds @ cs2) \<subseteq> set (cs1 @ us @ cs2) \<union> {length (cells b)..<length (cells b')}" using ds by auto
    fix c assume "c \<in> set (cs1 @ us @ cs2) \<union> {length (cells b)..<length (cells b')} - set (cs1 @ ds @ cs2)"
    then have "c \<in> set us \<union> {length (cells b)..<length (cells b')} - set ds" by auto
    then show "cells b' ! c = None" using assms(1) unfolding tidy_def by blast
  qed (rule d)
qed

lemma element_arrived:
  assumes s: "in_array b a acc cs" "cells b ! a = Some (Vector vs)" and r: "arrived (At_end a vs) b v b'"
  shows "\<exists>cs'. in_array b' a (acc @ [v]) cs' \<and> refilled a cs cs' b b'"
proof -
  obtain d ds where d: "represents (cells b') d v ds" "cells b' ! a = Some (Vector (vs @ [d]))" "tidy [] ds b b'" "keeps {a} b b'"
    "refs b' = refs b" "root_value b' = root_value b" using r by (auto simp: arrived_def)
  have vs: "represents_all (cells b) vs acc cs" using s by (auto simp: in_array_def)
  have i: "deref (last (refs b)) b = Inr (D_array (Some a))" "\<forall>c. slot_cell (last (refs b)) = Some c \<longrightarrow> c \<notin> insert a (set cs)"
    using s(1) unfolding in_array_def by blast+
  have old: "\<forall>c \<in> set cs. c < length (cells b)" by (rule represents_cells(2) [OF vs])
  have a: "a < length (cells b)" "a \<notin> set cs" "distinct cs" using s(1) by (simp_all add: in_array_def)
  have len: "length (cells b) \<le> length (cells b')" using d(4) by (simp add: keeps_def)
  have ds: "set ds \<subseteq> {length (cells b)..<length (cells b')}" "distinct (cs @ ds)" "tidy cs (cs @ ds) b b'"
    using tidy_replace [OF d(3) _ _ _ len, of cs "[]"] a(3) old by simp_all
  from ds(3) have g: "refilled a cs (cs @ ds) b b'" using d(4-6) keeps_mono [OF d(4), of "insert a (set cs)"] by (simp add: refilled_def)
  have "represents_all (cells b') vs acc cs" by (rule represents_all_keeps [OF vs d(4)]) (use a(2) in simp)
  then have "represents_all (cells b') (vs @ [d]) (acc @ [v]) (cs @ (ds @ []))" by (rule represents_all_append [OF _ more [OF d(1) none]])
  moreover have "deref (last (refs b')) b' = Inr (D_array (Some a))" "\<forall>c. slot_cell (last (refs b')) = Some c \<longrightarrow> c \<notin> insert a (set (cs @ ds))"
    by (rule refilled_deref [OF g i])+
  moreover have "distinct (a # cs @ ds)" using a(1,2) ds(2) new_old [OF ds(1), of "[a]"] by simp
  ultimately have "in_array b' a (acc @ [v]) (cs @ ds)"
    using s(1) d(2,5) len unfolding in_array_def by simp
  with g show ?thesis by blast
qed

definition feeds :: "nat \<Rightarrow> (nat \<Rightarrow> nat) \<Rightarrow> json \<Rightarrow> bool" where
  "feeds fuel grow j \<longleftrightarrow> (\<forall>b pl. prepared fuel b pl \<longrightarrow> (\<exists>b'. feed fuel grow j b = Inr b' \<and> arrived pl b (built_value j) b'))"

lemma feedsD:
  "feeds fuel grow j \<Longrightarrow> prepared fuel b pl \<Longrightarrow> \<exists>b'. feed fuel grow j b = Inr b' \<and> arrived pl b (built_value j) b'"
  by (simp add: feeds_def)

lemma elements_fed:
  "(\<forall>j \<in> set js. feeds fuel grow j) \<Longrightarrow> in_array b a acc cs \<Longrightarrow>
   \<exists>b' cs'. feed_elements fuel grow js b = Inr b' \<and> in_array b' a (acc @ map built_value js) cs' \<and> refilled a cs cs' b b'"
proof (induction js arbitrary: b acc cs)
  case Nil
  then show ?case using refilled_refl by (auto simp: in_array_def)
next
  case (Cons j js)
  then obtain vs where vs: "cells b ! a = Some (Vector vs)" "represents_all (cells b) vs acc cs" "a < length (cells b)" "a \<notin> set cs"
    by (auto simp: in_array_def)
  with Cons.prems(2) have "prepared fuel b (At_end a vs)" by (auto simp: in_array_def)
  moreover have "feeds fuel grow j" using Cons.prems(1) by simp
  ultimately obtain b1 where b1: "feed fuel grow j b = Inr b1" "arrived (At_end a vs) b (built_value j) b1"
    using feedsD by blast
  from element_arrived [OF Cons.prems(2) vs(1) b1(2)] obtain cs1 where c1: "in_array b1 a (acc @ [built_value j]) cs1" "refilled a cs cs1 b b1" by blast
  from Cons.IH [OF _ c1(1)] Cons.prems(1) obtain b2 cs2 where c2: "feed_elements fuel grow js b1 = Inr b2"
    "in_array b2 a ((acc @ [built_value j]) @ map built_value js) cs2" "refilled a cs1 cs2 b1 b2" by auto
  from refilled_trans [OF c1(2) c2(3) vs(3) represents_cells(2) [OF vs(2)] vs(4)] b1(1) c2(1,2) show ?case by auto
qed

text \<open>A key splits the members, new ones and old ones.\<close>

definition key_split :: "heap \<Rightarrow> string \<Rightarrow> (string \<times> data) list \<Rightarrow> (string \<times> json) list \<Rightarrow> nat list \<Rightarrow> bool" where
  "key_split h k ms acc cs \<longleftrightarrow> (\<exists>xs u ys axs ju ays cs1 us cs2. ms = xs @ (k, u) # ys \<and> acc = axs @ (k, ju) # ays
     \<and> map fst xs = map fst axs \<and> map fst ys = map fst ays \<and> k \<notin> fst ` set axs \<and> k \<notin> fst ` set ays
     \<and> represents_all h (map snd xs) (map snd axs) cs1 \<and> represents h u ju us \<and> represents_all h (map snd ys) (map snd ays) cs2
     \<and> cs = cs1 @ us @ cs2)"

lemma key_split_here:
  assumes "represents h u ju us" "represents_all h (map snd ys) (map snd ays) cs" "map fst ys = map fst ays" "k \<notin> fst ` set ays"
  shows "key_split h k ((k, u) # ys) ((k, ju) # ays) (us @ cs)"
proof -
  have "represents_all h (map snd []) (map snd ([] :: (string \<times> json) list)) []" by (simp add: none)
  with assms show ?thesis unfolding key_split_def by fastforce
qed

lemma key_split_later:
  assumes "key_split h k ms acc cs" "represents h m w cm" "k \<noteq> k'"
  shows "key_split h k ((k', m) # ms) ((k', w) # acc) (cm @ cs)"
proof -
  obtain xs u ys axs ju ays cs1 us cs2 where s: "ms = xs @ (k, u) # ys" "acc = axs @ (k, ju) # ays"
    "map fst xs = map fst axs" "map fst ys = map fst ays" "k \<notin> fst ` set axs" "k \<notin> fst ` set ays"
    "represents_all h (map snd xs) (map snd axs) cs1" "represents h u ju us" "represents_all h (map snd ys) (map snd ays) cs2"
    "cs = cs1 @ us @ cs2" using assms(1) unfolding key_split_def by blast
  have "(k', m) # ms = ((k', m) # xs) @ (k, u) # ys" "(k', w) # acc = ((k', w) # axs) @ (k, ju) # ays"
    "map fst ((k', m) # xs) = map fst ((k', w) # axs)" "k \<notin> fst ` set ((k', w) # axs)" "cm @ cs = (cm @ cs1) @ us @ cs2"
    "represents_all h (map snd ((k', m) # xs)) (map snd ((k', w) # axs)) (cm @ cs1)"
    using s assms(3) more [OF assms(2) s(7)] by simp_all
  with s(4,6,8,9) show ?thesis unfolding key_split_def by blast
qed

lemma data_index_split:
  "represents_all h (map snd ms) (map snd acc) cs \<Longrightarrow> map fst ms = map fst acc \<Longrightarrow> ascending acc \<Longrightarrow>
   key_split h k (data_index k ms) (obj_index k acc) cs"
proof (induction acc arbitrary: ms cs)
  case Nil
  then have "ms = []" "cs = []" by (auto elim: represents_all_Nil)
  moreover have "represents h (D_value J_null) J_null []" by (rule scalar) simp
  ultimately show ?case using key_split_here [of h "D_value J_null" J_null "[]" "[]" "[]" "[]" k] by (simp add: none)
next
  case (Cons p acc)
  obtain k' w where p: "p = (k', w)" by fastforce
  from Cons.prems(2) p obtain m ms' where ms: "ms = (k', m) # ms'" "map fst ms' = map fst acc" by (cases ms) auto
  with Cons.prems(1) p obtain cm cs' where c: "cs = cm @ cs'" "represents h m w cm" "represents_all h (map snd ms') (map snd acc) cs'"
    by (auto elim: represents_all_Cons)
  have asc: "\<forall>x \<in> fst ` set acc. k' < x" "ascending acc" using Cons.prems(3) p by (auto simp: ascending_Cons)
  consider "k = k'" | "k \<noteq> k'" "k < k'" | "k \<noteq> k'" "\<not> k < k'" by blast
  then show ?case
  proof cases
    case 1
    have "k \<notin> fst ` set acc" using asc(1) 1 by blast
    then show ?thesis using 1 p ms(1) c(1) key_split_here [OF c(2,3) ms(2)] by simp
  next
    case 2
    have "represents h (D_value J_null) J_null []" by (rule scalar) simp
    from key_split_here [OF this Cons.prems(1,2), of k] show ?thesis using 2 p ms(1) asc(1) by fastforce
  next
    case 3
    then show ?thesis using p ms(1) c(1) key_split_later [OF Cons.IH [OF c(3) ms(2) asc(2)] c(2)] by simp
  qed
qed

lemma obj_put_split:
  assumes "obj_index k acc = axs @ (k, ju) # ays" "k \<notin> fst ` set axs" "k \<notin> fst ` set ays"
  shows "obj_put k v acc = axs @ (k, v) # ays"
proof -
  have "map (\<lambda>(k', u). (k', if k' = k then v else u)) zs = zs" if "k \<notin> fst ` set zs" for zs
    using that by (induction zs) auto
  with assms show ?thesis by (simp add: obj_put_def)
qed

text \<open>A key and its value.\<close>

lemma key_prepared:
  assumes s: "in_object fuel b a acc cs" and "0 < fuel"
  shows "\<exists>b1 xs u ys axs ju ays cs1 us cs2. ptr_key k b = Inr b1 \<and> prepared fuel b1 (At_key a xs k u ys us) \<and> keeps {a} b b1
    \<and> length (cells b1) = length (cells b) \<and> refs b1 = refs b \<and> root_value b1 = root_value b \<and> cs = cs1 @ us @ cs2
    \<and> represents_all (cells b) (map snd xs) (map snd axs) cs1 \<and> represents_all (cells b) (map snd ys) (map snd ays) cs2
    \<and> map fst xs = map fst axs \<and> map fst ys = map fst ays \<and> (\<forall>v. obj_put k v acc = axs @ (k, v) # ays)
    \<and> ascending (axs @ (k, ju) # ays) \<and> list_all (\<lambda>(k, v). json_nodes v \<le> fuel) (axs @ (k, ju) # ays)"
proof -
  obtain ms where ms: "cells b ! a = Some (Members ms)" "represents_all (cells b) (map snd ms) (map snd acc) cs" "map fst ms = map fst acc"
    and i: "refs b \<noteq> []" "deref (last (refs b)) b = Inr (D_object (Some a))" "a < length (cells b)" "distinct (a # cs)"
      "\<forall>c. slot_cell (last (refs b)) = Some c \<longrightarrow> c \<notin> insert a (set cs)" "ascending acc" "list_all (\<lambda>(k, v). json_nodes v \<le> fuel) acc"
    using s by (auto simp: in_object_def)
  obtain xs u ys axs ju ays cs1 us cs2 where k: "data_index k ms = xs @ (k, u) # ys" "obj_index k acc = axs @ (k, ju) # ays"
    "map fst xs = map fst axs" "map fst ys = map fst ays" "k \<notin> fst ` set axs" "k \<notin> fst ` set ays"
    "represents_all (cells b) (map snd xs) (map snd axs) cs1" "represents (cells b) u ju us"
    "represents_all (cells b) (map snd ys) (map snd ays) cs2" "cs = cs1 @ us @ cs2"
    using data_index_split [OF ms(2,3) i(6), of k] unfolding key_split_def by blast
  define b1 where "b1 = b\<lparr>cells := (cells b)[a := Some (Members (xs @ (k, u) # ys))], element_ref := Some (Member_of a k)\<rparr>"
  have keep: "keeps {a} b b1" by (simp add: keeps_def b1_def)
  have asc: "ascending (axs @ (k, ju) # ays)" using obj_index_ascending [OF i(6), of k] k(2) by simp
  have nodes: "list_all (\<lambda>(k, v). json_nodes v \<le> fuel) (axs @ (k, ju) # ays)"
    using obj_index_set [of k acc] k(2) i(7) assms(2) unfolding list_all_iff by force
  have "k \<notin> fst ` set xs" "k \<notin> fst ` set ys" using k(3-6) by (metis list.set_map)+
  moreover have "represents (cells b1) u ju us" by (rule represents_keeps [OF k(8) keep]) (use i(4) k(10) in simp)
  moreover have "deref (last (refs b1)) b1 = Inr (D_object (Some a))"
    using deref_keeps [OF i(2) keep] i(5) by (simp add: b1_def)
  ultimately have "prepared fuel b1 (At_key a xs k u ys us)"
    using i(1,3,4) k(10) nodes by (auto simp: b1_def)
  moreover have "ptr_key k b = Inr b1" using i(1-3) ms(1) k(1) by (simp add: ptr_key_def cell_at_def b1_def)
  moreover have "\<forall>v. obj_put k v acc = axs @ (k, v) # ays" using obj_put_split [OF k(2,5,6)] by blast
  ultimately show ?thesis using k(3,4,7,9,10) keep asc nodes by (intro exI conjI) (assumption | simp add: b1_def)+
qed

lemma member_arrived:
  assumes s: "in_object fuel b a acc cs" and "0 < fuel" and "feeds fuel grow j" and "json_nodes (built_value j) \<le> fuel"
  shows "\<exists>b1 b2 cs'. ptr_key k b = Inr b1 \<and> feed fuel grow j b1 = Inr b2 \<and> in_object fuel b2 a (obj_put k (built_value j) acc) cs'
    \<and> refilled a cs cs' b b2"
proof -
  obtain b1 xs u ys axs ju ays cs1 us cs2 where k: "ptr_key k b = Inr b1" "prepared fuel b1 (At_key a xs k u ys us)" "keeps {a} b b1"
    "length (cells b1) = length (cells b)" "refs b1 = refs b" "root_value b1 = root_value b" "cs = cs1 @ us @ cs2"
    "represents_all (cells b) (map snd xs) (map snd axs) cs1" "represents_all (cells b) (map snd ys) (map snd ays) cs2"
    "map fst xs = map fst axs" "map fst ys = map fst ays" "\<forall>v. obj_put k v acc = axs @ (k, v) # ays"
    "ascending (axs @ (k, ju) # ays)" "list_all (\<lambda>(k, v). json_nodes v \<le> fuel) (axs @ (k, ju) # ays)"
    using key_prepared [OF assms(1,2), of k] by (elim exE conjE) (rule that; assumption)
  from feedsD [OF assms(3) k(2)] obtain b2 where b2: "feed fuel grow j b1 = Inr b2" "arrived (At_key a xs k u ys us) b1 (built_value j) b2"
    by blast
  then obtain d ds where d: "represents (cells b2) d (built_value j) ds" "cells b2 ! a = Some (Members (xs @ (k, d) # ys))"
    "tidy us ds b1 b2" "set ds \<inter> set us = {}" "keeps (insert a (set us)) b1 b2" "refs b2 = refs b1" "root_value b2 = root_value b1"
    by (auto simp: arrived_def)
  have i: "refs b \<noteq> []" "deref (last (refs b)) b = Inr (D_object (Some a))" "a < length (cells b)" "distinct cs" "a \<notin> set cs"
    "\<forall>c. slot_cell (last (refs b)) = Some c \<longrightarrow> c \<notin> insert a (set cs)"
    using s unfolding in_object_def by auto
  have old: "\<forall>c \<in> set cs. c < length (cells b)" using s represents_cells(2) unfolding in_object_def by blast
  have len: "length (cells b) \<le> length (cells b2)" using d(5) k(4) by (simp add: keeps_def)
  have t: "tidy us ds b b2" using d(3) k(4) by (simp add: tidy_def)
  have ds: "set ds \<subseteq> {length (cells b)..<length (cells b2)}" "distinct (cs1 @ ds @ cs2)" "tidy cs (cs1 @ ds @ cs2) b b2"
    using tidy_replace [OF t d(4) _ _ len, of cs1 cs2] i(4) old k(7) by simp_all
  have keep: "keeps (insert a (set us)) b b2" by (rule keeps_trans [OF keeps_mono [OF k(3)] d(5)]) simp_all
  have g: "refilled a cs (cs1 @ ds @ cs2) b b2"
    using keeps_mono [OF keep, of "insert a (set cs)"] ds(3) d(6,7) k(5,6,7) by (auto simp: refilled_def)
  have disj: "set cs1 \<inter> insert a (set us) = {}" "set cs2 \<inter> insert a (set us) = {}" using i(4,5) k(7) by auto
  note r1 = represents_all_keeps [OF k(8) keep disj(1)] and r2 = represents_all_keeps [OF k(9) keep disj(2)]
  have "represents_all (cells b2) (map snd (xs @ (k, d) # ys)) (map snd (axs @ (k, built_value j) # ays)) (cs1 @ ds @ cs2)"
    using represents_all_append [OF r1 more [OF d(1) r2]] by simp
  moreover have "deref (last (refs b2)) b2 = Inr (D_object (Some a))"
    "\<forall>c. slot_cell (last (refs b2)) = Some c \<longrightarrow> c \<notin> insert a (set (cs1 @ ds @ cs2))" by (rule refilled_deref [OF g i(2,6)])+
  moreover have "a \<notin> set (cs1 @ ds @ cs2)" using new_old [OF ds(1), of "[a]"] i(3,5) k(7) by simp
  moreover have "ascending (axs @ (k, built_value j) # ays)" "list_all (\<lambda>(k, v). json_nodes v \<le> fuel) (axs @ (k, built_value j) # ays)"
    using k(13,14) assms(4) by (simp_all add: ascending_def)
  ultimately have "in_object fuel b2 a (axs @ (k, built_value j) # ays) (cs1 @ ds @ cs2)"
    using i(1,3) d(2,6) len ds(2) k(5,10,11) unfolding in_object_def by auto
  with k(1,12) b2(1) g show ?thesis by auto
qed

lemma members_fed:
  "(\<forall>m \<in> set ms. feeds fuel grow (snd m) \<and> json_nodes (built_value (snd m)) \<le> fuel) \<Longrightarrow> 0 < fuel \<Longrightarrow> in_object fuel b a acc cs \<Longrightarrow>
   \<exists>b' cs'. feed_members fuel grow ms b = Inr b'
     \<and> in_object fuel b' a (foldl (\<lambda>acc (k, v). obj_put k v acc) acc (map (\<lambda>(k, v). (k, built_value v)) ms)) cs' \<and> refilled a cs cs' b b'"
proof (induction ms arbitrary: b acc cs)
  case Nil
  then show ?case using refilled_refl by (auto simp: in_object_def)
next
  case (Cons m ms)
  obtain k j where m: "m = (k, j)" by fastforce
  from Cons.prems(1) m have "feeds fuel grow j" "json_nodes (built_value j) \<le> fuel" by simp_all
  from member_arrived [OF Cons.prems(3,2) this] obtain b1 b2 cs1 where c1: "ptr_key k b = Inr b1" "feed fuel grow j b1 = Inr b2"
    "in_object fuel b2 a (obj_put k (built_value j) acc) cs1" "refilled a cs cs1 b b2" by blast
  from Cons.IH [OF _ Cons.prems(2) c1(3)] Cons.prems(1) obtain b3 cs2 where c2: "feed_members fuel grow ms b2 = Inr b3"
    "in_object fuel b3 a (foldl (\<lambda>acc (k, v). obj_put k v acc) (obj_put k (built_value j) acc) (map (\<lambda>(k, v). (k, built_value v)) ms)) cs2"
    "refilled a cs1 cs2 b2 b3" by auto
  have old: "a < length (cells b)" "\<forall>c \<in> set cs. c < length (cells b)" "a \<notin> set cs"
    using Cons.prems(3) represents_cells(2) unfolding in_object_def by auto
  from refilled_trans [OF c1(4) c2(3) old] m c1(1,2) c2(1,2) show ?case by auto
qed

section \<open>Any document\<close>

lemma obj_index_split:
  "ascending acc \<Longrightarrow> \<exists>xs u ys. obj_index k acc = xs @ (k, u) # ys \<and> k \<notin> fst ` set xs \<and> k \<notin> fst ` set ys
    \<and> (acc = xs @ ys \<or> acc = xs @ (k, u) # ys)"
proof (induction k acc rule: obj_index.induct)
  case (2 k k' v acc)
  then have asc: "\<forall>x \<in> fst ` set acc. k' < x" "ascending acc" by (auto simp: ascending_Cons)
  consider "k = k'" | "k \<noteq> k'" "k < k'" | "k \<noteq> k'" "\<not> k < k'" by blast
  then show ?case
  proof cases
    case 1
    then show ?thesis using asc(1) by (intro exI [of _ Nil]) auto
  next
    case 2
    then have "k \<notin> fst ` set ((k', v) # acc)" using asc(1) by auto
    with 2 show ?thesis by (intro exI [of _ Nil]) simp
  next
    case 3
    with 2(1) asc(2) obtain xs u ys where "obj_index k acc = xs @ (k, u) # ys" "k \<notin> fst ` set xs" "k \<notin> fst ` set ys"
      "acc = xs @ ys \<or> acc = xs @ (k, u) # ys" by blast
    with 3 show ?thesis by (intro exI [of _ "(k', v) # xs"] exI [of _ u] exI [of _ ys]) auto
  qed
qed simp

definition members_nodes :: "(string \<times> json) list \<Rightarrow> nat" where
  "members_nodes ms = sum_list (map (\<lambda>m. json_nodes (snd m)) ms)"

lemma obj_put_nodes:
  assumes "ascending acc"
  shows "ascending (obj_put k v acc)" "members_nodes (obj_put k v acc) \<le> members_nodes acc + json_nodes v"
proof -
  obtain xs u ys where s: "obj_index k acc = xs @ (k, u) # ys" "k \<notin> fst ` set xs" "k \<notin> fst ` set ys"
    "acc = xs @ ys \<or> acc = xs @ (k, u) # ys" using obj_index_split [OF assms] by blast
  have p: "obj_put k v acc = xs @ (k, v) # ys" by (rule obj_put_split [OF s(1-3)])
  show "ascending (obj_put k v acc)" using obj_index_ascending [OF assms, of k] by (simp add: p s(1) ascending_def)
  show "members_nodes (obj_put k v acc) \<le> members_nodes acc + json_nodes v" using s(4) by (auto simp: p members_nodes_def)
qed

lemma foldl_obj_put_nodes:
  "ascending acc \<Longrightarrow> members_nodes (foldl (\<lambda>acc (k, v). obj_put k v acc) acc ms) \<le> members_nodes acc + members_nodes ms"
proof (induction ms arbitrary: acc)
  case (Cons m ms)
  then show ?case using Cons.IH [OF obj_put_nodes(1) [OF Cons.prems, of "fst m" "snd m"]] obj_put_nodes(2) [OF Cons.prems, of "fst m" "snd m"]
    by (cases m) (simp add: members_nodes_def)
qed (simp add: members_nodes_def)

lemma json_nodes_object: "json_nodes (J_object ms) = Suc (members_nodes ms)"
  by (simp add: members_nodes_def comp_def)

text \<open>A repeated key only makes the value smaller.\<close>

lemma built_value_nodes: "json_nodes (built_value j) \<le> json_nodes j"
proof (induction j)
  case (J_array js)
  then show ?case by (auto simp: comp_def intro!: sum_list_mono)
next
  case (J_object ms)
  have "members_nodes (map (\<lambda>(k, v). (k, built_value v)) ms) \<le> members_nodes ms"
    unfolding members_nodes_def map_map
    by (rule sum_list_mono) (use J_object in \<open>auto simp: comp_def snds.simps\<close>)
  then show ?case using foldl_obj_put_nodes [of "[]" "map (\<lambda>(k, v). (k, built_value v)) ms"]
    unfolding built_value.simps json_nodes_object by (simp add: ascending_def members_nodes_def [of "[]"])
qed simp_all

lemma all_fed:
  "json_nodes j \<le> fuel \<Longrightarrow> feeds fuel grow j"
proof (induction j)
  case (J_array js)
  show ?case
    unfolding feeds_def
  proof (intro allI impI)
    fix b pl assume p: "prepared fuel b pl"
    obtain b1 a where b1: "ptr_start fuel grow (J_array []) b = Inr b1" "container_open pl b (D_array (Some a)) a b1" "cells b1 ! a = Some (Vector [])"
      using opened_by_start [OF p, of "J_array []" grow] by auto
    have "in_array b1 a [] []" using b1(2,3) none by (auto simp: in_array_def container_open_def)
    moreover have "feeds fuel grow j" if "j \<in> set js" for j
    proof -
      have "json_nodes j \<le> sum_list (map json_nodes js)" using that by (intro member_le_sum_list) simp_all
      then show ?thesis using J_array that by simp
    qed
    ultimately obtain b2 cs where b2: "feed_elements fuel grow js b1 = Inr b2" "in_array b2 a (map built_value js) cs" "refilled a [] cs b1 b2"
      using elements_fed [of js fuel grow b1 a "[]" "[]"] by auto
    have "represents (cells b2) (D_array (Some a)) (J_array (map built_value js)) (a # cs)"
      using b2(2) by (auto simp: in_array_def intro: vector_cell)
    note c = container_closed [OF p b1(2) _ _ _ this]
    have "arrived pl b (built_value (J_array js)) (b2\<lparr>refs := butlast (refs b2)\<rparr>)" using c(3) b2(3) by (simp add: refilled_def)
    moreover have "ptr_end_array b2 = Inr (b2\<lparr>refs := butlast (refs b2)\<rparr>)" using c(1,2) b2(3) by (simp add: refilled_def ptr_end_array_def)
    ultimately show "\<exists>b'. feed fuel grow (J_array js) b = Inr b' \<and> arrived pl b (built_value (J_array js)) b'"
      using b1(1) b2(1) by (simp add: ptr_start_array_def)
  qed
next
  case (J_object ms)
  show ?case
    unfolding feeds_def
  proof (intro allI impI)
    fix b pl assume p: "prepared fuel b pl"
    obtain b1 a where b1: "ptr_start fuel grow (J_object []) b = Inr b1" "container_open pl b (D_object (Some a)) a b1" "cells b1 ! a = Some (Members [])"
      using opened_by_start [OF p, of "J_object []" grow] by auto
    have "in_object fuel b1 a [] []" using b1(2,3) none by (auto simp: in_object_def container_open_def ascending_def)
    moreover have "feeds fuel grow (snd m) \<and> json_nodes (built_value (snd m)) \<le> fuel" if "m \<in> set ms" for m
    proof -
      have "json_nodes (snd m) \<le> members_nodes ms" using that unfolding members_nodes_def by (intro member_le_sum_list) simp_all
      then have "json_nodes (snd m) \<le> fuel" using J_object.prems unfolding json_nodes_object by simp
      then show ?thesis using J_object.IH [OF that, of "snd m"] built_value_nodes [of "snd m"] by (simp add: snds.simps prod_eq_iff)
    qed
    moreover have "0 < fuel" using J_object.prems by simp
    ultimately obtain b2 cs where b2: "feed_members fuel grow ms b1 = Inr b2"
      "in_object fuel b2 a (foldl (\<lambda>acc (k, v). obj_put k v acc) [] (map (\<lambda>(k, v). (k, built_value v)) ms)) cs" "refilled a [] cs b1 b2"
      using members_fed [of ms fuel grow b1 a "[]" "[]"] by auto
    have "represents (cells b2) (D_object (Some a)) (built_value (J_object ms)) (a # cs)"
      using b2(2) by (auto simp: in_object_def intro: members_cell)
    note c = container_closed [OF p b1(2) _ _ _ this]
    have "arrived pl b (built_value (J_object ms)) (b2\<lparr>refs := butlast (refs b2)\<rparr>)" using c(3) b2(3) by (simp add: refilled_def)
    moreover have "ptr_end_object b2 = Inr (b2\<lparr>refs := butlast (refs b2)\<rparr>)" using c(1,2) b2(3) by (simp add: refilled_def ptr_end_object_def)
    ultimately show "\<exists>b'. feed fuel grow (J_object ms) b = Inr b' \<and> arrived pl b (built_value (J_object ms)) b'"
      using b1(1) b2(1) by (simp add: ptr_start_object_def)
  qed
qed (simp_all add: feeds_def feed_scalar)

section \<open>The same events with paths\<close>

fun sax_feed :: "json \<Rightarrow> sax_dom \<Rightarrow> sax_dom result"
  and sax_feed_elements :: "json list \<Rightarrow> sax_dom \<Rightarrow> sax_dom result"
  and sax_feed_members :: "(string \<times> json) list \<Rightarrow> sax_dom \<Rightarrow> sax_dom result" where
  "sax_feed (J_array js) d = bindr (start_array d) (\<lambda>d. bindr (sax_feed_elements js d) end_array)"
| "sax_feed (J_object ms) d = bindr (start_object d) (\<lambda>d. bindr (sax_feed_members ms d) end_object)"
| "sax_feed v d = sax_value v d"
| "sax_feed_elements [] d = Inr d"
| "sax_feed_elements (j # js) d = bindr (sax_feed j d) (sax_feed_elements js)"
| "sax_feed_members [] d = Inr d"
| "sax_feed_members ((k, j) # ms) d = bindr (sax_key k d) (\<lambda>d. bindr (sax_feed j d) (sax_feed_members ms))"

definition sax_feeds :: "json \<Rightarrow> bool" where
  "sax_feeds j \<longleftrightarrow> (\<forall>d sp. at_spot d sp \<longrightarrow> (\<exists>d'. sax_feed j d = Inr d' \<and> after_spot d' sp (built_value j)))"

lemma sax_elements_fed:
  "\<forall>j \<in> set js. sax_feeds j \<Longrightarrow> holds d fs (J_array vs) \<Longrightarrow>
   \<exists>d'. sax_feed_elements js d = Inr d' \<and> holds d' fs (J_array (vs @ map built_value js))"
proof (induction js arbitrary: d vs)
  case (Cons j js)
  then have "at_spot d (Elements fs vs)" "sax_feeds j" by simp_all
  then obtain d1 where d1: "sax_feed j d = Inr d1" "after_spot d1 (Elements fs vs) (built_value j)" unfolding sax_feeds_def by blast
  with Cons.IH [of d1 "vs @ [built_value j]"] Cons.prems(1) show ?case by simp
qed simp

lemma sax_members_fed:
  "\<forall>m \<in> set ms. sax_feeds (snd m) \<Longrightarrow> holds d fs (J_object acc) \<Longrightarrow>
   \<exists>d'. sax_feed_members ms d = Inr d'
     \<and> holds d' fs (J_object (foldl (\<lambda>acc (k, v). obj_put k v acc) acc (map (\<lambda>(k, v). (k, built_value v)) ms)))"
proof (induction ms arbitrary: d acc)
  case (Cons m ms)
  obtain k j where m: "m = (k, j)" by fastforce
  obtain d1 where d1: "sax_key k d = Inr d1" "at_spot d1 (Value_of fs acc k)" using sax_key_holds [OF Cons.prems(2)] by blast
  moreover have "sax_feeds j" using Cons.prems(1) m by simp
  ultimately obtain d2 where d2: "sax_feed j d1 = Inr d2" "after_spot d2 (Value_of fs acc k) (built_value j)"
    unfolding sax_feeds_def by blast
  with Cons.IH [of d2 "obj_put k (built_value j) acc"] Cons.prems(1) d1(1) m show ?case by simp
qed simp

lemma all_sax_fed: "sax_feeds j"
proof (induction j)
  case (J_array js)
  show ?case
    unfolding sax_feeds_def
  proof (intro allI impI)
    fix d sp assume "at_spot d sp"
    then obtain d1 where d1: "start_array d = Inr d1" "holds d1 (inner sp) (J_array [])" using start_array_spot by blast
    then obtain d2 where d2: "sax_feed_elements js d1 = Inr d2" "holds d2 (inner sp) (J_array (map built_value js))"
      using sax_elements_fed [of js d1 "inner sp" "[]"] J_array by auto
    with end_array_spot [OF d2(2)] d1(1) show "\<exists>d'. sax_feed (J_array js) d = Inr d' \<and> after_spot d' sp (built_value (J_array js))" by simp
  qed
next
  case (J_object ms)
  show ?case
    unfolding sax_feeds_def
  proof (intro allI impI)
    fix d sp assume "at_spot d sp"
    then obtain d1 where d1: "start_object d = Inr d1" "holds d1 (inner sp) (J_object [])" using start_object_spot by blast
    have "\<forall>m \<in> set ms. sax_feeds (snd m)" using J_object by (auto simp: snds.simps)
    from sax_members_fed [OF this d1(2)] obtain d2 where d2: "sax_feed_members ms d1 = Inr d2"
      "holds d2 (inner sp) (built_value (J_object ms))" by auto
    with end_object_spot [of d2 sp] d1(1) show "\<exists>d'. sax_feed (J_object ms) d = Inr d' \<and> after_spot d' sp (built_value (J_object ms))" by simp
  qed
qed (simp_all add: sax_feeds_def sax_value_spot)

section \<open>No pointer of the builder dangles\<close>

lemma freed_all: "\<forall>c < length h. c \<notin> set cs \<longrightarrow> h ! c = None \<Longrightarrow> freed cs h = replicate (length h) None"
  by (rule nth_equalityI) (auto simp: freed_def)

text \<open>
  C18: the builder of JSON values never uses a pointer that is not valid, although a vector that grows
  moves its elements while pointers into vectors are on the builder's stack: for the events of any
  document, with any keys repeated, and for any growth of the vectors, it ends without a violated
  assertion; its root then holds, in distinct cells, exactly the value that the parser's model builds
  with paths; every other cell it took has been freed, the values replaced by a repeated key
  included; and destroying the root frees the rest.
\<close>

theorem builder_pointers_valid:
  assumes "json_nodes j \<le> fuel"
  shows "\<exists>b d cs. feed fuel grow j new_builder = Inr b \<and> sax_feed j (new_sax_dom allow) = Inr d
    \<and> represents (cells b) (root_value b) (root d) cs \<and> distinct cs \<and> (\<forall>c < length (cells b). c \<notin> set cs \<longrightarrow> cells b ! c = None)
    \<and> refs b = [] \<and> destruct 2 fuel (root_value b) (cells b) = Inr (replicate (length (cells b)) None)"
proof -
  have "prepared fuel new_builder At_root" by (simp add: new_builder_def)
  from feedsD [OF all_fed [OF assms] this] obtain b where b: "feed fuel grow j new_builder = Inr b"
    "arrived At_root new_builder (built_value j) b" by blast
  from b(2) obtain cs where cs: "represents (cells b) (root_value b) (built_value j) cs" "distinct cs"
    "\<forall>c < length (cells b). c \<notin> set cs \<longrightarrow> cells b ! c = None" "refs b = []"
    by (auto simp: arrived_def tidy_def new_builder_def)
  have "at_spot (new_sax_dom allow) Top" by (simp add: new_sax_dom_def)
  then obtain d where d: "sax_feed j (new_sax_dom allow) = Inr d" "root d = built_value j"
    using all_sax_fed [of j] unfolding sax_feeds_def by fastforce
  have "json_nodes (built_value j) \<le> fuel" using built_value_nodes [of j] assms by simp
  from destruct_frees [OF cs(1,2) this, of 0] have "destruct 2 fuel (root_value b) (cells b) = Inr (replicate (length (cells b)) None)"
    unfolding freed_all [OF cs(3)] by (simp only: numeral_2_eq_2)
  with b(1) cs d show ?thesis by metis
qed

theorem builder_pointers_valid_witness:
  "\<exists>b d cs. feed 7 (\<lambda>n. n + 1) (J_object [(''a'', J_array [J_array [], J_string ''x'']), (''a'', J_int 1)]) new_builder = Inr b
    \<and> sax_feed (J_object [(''a'', J_array [J_array [], J_string ''x'']), (''a'', J_int 1)]) (new_sax_dom True) = Inr d
    \<and> represents (cells b) (root_value b) (root d) cs \<and> distinct cs \<and> (\<forall>c < length (cells b). c \<notin> set cs \<longrightarrow> cells b ! c = None)
    \<and> refs b = [] \<and> destruct 2 7 (root_value b) (cells b) = Inr (replicate (length (cells b)) None)"
  by (rule builder_pointers_valid) simp

end
