(* ===== verification/Worker_Pool.thy ===== *)
theory Worker_Pool
  imports Os_Model
begin

text \<open>
  The worker pool of \<open>src/WorkerPool.cpp\<close> on top of the job queue: any number of worker threads,
  clients that submit jobs, and the thread that stops the pool, as a step relation. One step is
  one critical section or one access to shared state of the code; the condition variable of the
  queue is explicit (which workers sleep, which have been notified, spurious wake-ups). What an
  execution returns is not determined here: the theorems hold for every result.
\<close>

section \<open>Model\<close>

text \<open>
  Where a worker thread is in \<open>workerLoop\<close>: before testing \<open>running_\<close>; about to call
  \<open>dequeue\<close>; asleep in \<open>cv_.wait\<close>; woken but not yet holding the mutex; executing a job; between
  reporting its result and fulfilling its promise; returned.
\<close>

datatype worker =
    Loop_Head
  | Enter_Dequeue
  | Sleeping
  | Notified
  | Executing job
  | Reported job execution_result
  | Exited

text \<open>Where the thread calling \<open>WorkerPool::stop\<close> is.\<close>

datatype stop_phase = Not_Stopping | Running_Cleared | Queue_Stopped | Joining | Joined

text \<open>
  \<open>submitted\<close> and \<open>completed\<close> record the jobs handed to the queue by clients and the jobs whose
  worker has left the reporting phase; \<open>results\<close> is what the collector received; \<open>death\<close>
  records what ended the process: undefined behaviour of the scheduler or of the burst counter, a
  promise set twice, an exception that an observer let out for a result, or the execution of a
  job, with the calls it had made.
\<close>

datatype death_cause =
    Scheduler_undefined ub
  | Burst_overflow ub
  | Promise_already_set nat
  | Observer_threw job_result
  | Execution_ended job history

record pool =
  job_queue_ref :: job_queue
  running :: bool
  workers :: "worker list"
  stop_at :: stop_phase
  results :: "job_result list"
  promises :: "nat \<rightharpoonup> int32"
  submitted :: "job list"
  completed :: "(job \<times> execution_result) list"
  death :: "death_cause option"

definition new_pool :: "job_queue \<Rightarrow> pool" where
  "new_pool q = \<lparr>job_queue_ref = q, running = False, workers = [], stop_at = Not_Stopping,
     results = [], promises = Map.empty, submitted = [], completed = [], death = None\<rparr>"

abbreviation terminated :: "pool \<Rightarrow> bool" where
  "terminated p \<equiv> death p \<noteq> None"

definition start :: "nat \<Rightarrow> pool \<Rightarrow> pool" where
  "start num_threads p =
     (if running p then p
      else p\<lparr>running := True, workers := workers p @ replicate num_threads Loop_Head\<rparr>)"

text \<open>\<open>notify_one\<close> wakes one sleeping worker, any, if there is one.\<close>

inductive notify_one :: "worker list \<Rightarrow> worker list \<Rightarrow> bool" where
  nobody: "Sleeping \<notin> set ws \<Longrightarrow> notify_one ws ws"
| wake: "i < length ws \<Longrightarrow> ws ! i = Sleeping \<Longrightarrow> notify_one ws (ws[i := Notified])"

definition notify_all :: "worker list \<Rightarrow> worker list" where
  "notify_all ws = map (\<lambda>w. if w = Sleeping then Notified else w) ws"

text \<open>
  One attempt to take a job: the call of \<open>dequeue\<close> and every return of its \<open>wait\<close>, which
  tests the predicate under the mutex.
\<close>

definition try_dequeue :: "nat \<Rightarrow> pool \<Rightarrow> pool" where
  "try_dequeue i p =
     (case dequeue (job_queue_ref p) of
        (Blocked, q) \<Rightarrow> p\<lparr>workers := (workers p)[i := Sleeping]\<rparr>
      | (Nullopt, q) \<Rightarrow> p\<lparr>workers := (workers p)[i := Exited]\<rparr>
      | (Got j, q) \<Rightarrow> p\<lparr>job_queue_ref := q, workers := (workers p)[i := Executing j]\<rparr>
      | (Undefined e, q) \<Rightarrow> p\<lparr>death := Some (Scheduler_undefined e)\<rparr>)"

text \<open>The test of \<open>running_\<close> at the head of the loop.\<close>

definition loop_test :: "nat \<Rightarrow> pool \<Rightarrow> pool" where
  "loop_test i p =
     p\<lparr>workers := (workers p)[i := if running p then Enter_Dequeue else Exited]\<rparr>"

text \<open>A finished execution is reported to the collector.\<close>

definition report :: "nat \<Rightarrow> job \<Rightarrow> execution_result \<Rightarrow> pool \<Rightarrow> pool" where
  "report i j r p =
     p\<lparr>results := results p @ [make_result j r], workers := (workers p)[i := Reported j r]\<rparr>"

text \<open>\<open>set_value\<close> on the job's promise, if any; a second \<open>set_value\<close> would throw.\<close>

definition fulfil :: "nat \<Rightarrow> job \<Rightarrow> execution_result \<Rightarrow> pool \<Rightarrow> pool" where
  "fulfil i j r p =
     (case result_promise j of
        None \<Rightarrow> p\<lparr>workers := (workers p)[i := Loop_Head], completed := (j, r) # completed p\<rparr>
      | Some a \<Rightarrow>
          if promises p a = None
          then p\<lparr>promises := (promises p)(a \<mapsto> promise_value r),
                 workers := (workers p)[i := Loop_Head], completed := (j, r) # completed p\<rparr>
          else p\<lparr>death := Some (Promise_already_set a)\<rparr>)"

text \<open>
  Executing a job may set its process id and output file number, nothing else
  (\<open>isolateAndRun\<close> takes those two by reference).
\<close>

definition same_job :: "job \<Rightarrow> job \<Rightarrow> bool" where
  "same_job j j' \<longleftrightarrow> j' = j\<lparr>pid := pid j', unique_id := unique_id j'\<rparr>"

inductive pool_step :: "pool \<Rightarrow> pool \<Rightarrow> bool" where
  submit:
    "\<not> terminated p \<Longrightarrow> notify_one (workers p) ws \<Longrightarrow>
     pool_step p (p\<lparr>job_queue_ref := enqueue (job_queue_ref p) j, workers := ws,
       submitted := j # submitted p\<rparr>)"
| test:
    "\<not> terminated p \<Longrightarrow> i < length (workers p) \<Longrightarrow> workers p ! i = Loop_Head \<Longrightarrow>
     pool_step p (loop_test i p)"
| take:
    "\<not> terminated p \<Longrightarrow> i < length (workers p) \<Longrightarrow>
     workers p ! i \<in> {Enter_Dequeue, Sleeping, Notified} \<Longrightarrow>
     pool_step p (try_dequeue i p)"
| preempt:
    "\<not> terminated p \<Longrightarrow> i < length (workers p) \<Longrightarrow> workers p ! i = Executing j \<Longrightarrow>
     same_job j j' \<Longrightarrow> preempted (r :: execution_result) \<Longrightarrow> sadd32 (elapsed_bursts j') 1 = Inr b \<Longrightarrow>
     notify_one ((workers p)[i := Loop_Head]) ws \<Longrightarrow>
     pool_step p (p\<lparr>job_queue_ref := enqueue (job_queue_ref p) (j'\<lparr>elapsed_bursts := b\<rparr>),
       workers := ws\<rparr>)"
| preempt_overflow:
    "\<not> terminated p \<Longrightarrow> i < length (workers p) \<Longrightarrow> workers p ! i = Executing j \<Longrightarrow>
     same_job j j' \<Longrightarrow> preempted (r :: execution_result) \<Longrightarrow> sadd32 (elapsed_bursts j') 1 = Inl e \<Longrightarrow>
     pool_step p (p\<lparr>death := Some (Burst_overflow e)\<rparr>)"
| report_result:
    "\<not> terminated p \<Longrightarrow> i < length (workers p) \<Longrightarrow> workers p ! i = Executing j \<Longrightarrow>
     same_job j j' \<Longrightarrow> \<not> preempted r \<Longrightarrow>
     pool_step p (report i j' r p)"
| execution_fatal:
    "\<not> terminated p \<Longrightarrow> i < length (workers p) \<Longrightarrow> workers p ! i = Executing j \<Longrightarrow>
     pool_step p (p\<lparr>death := Some d\<rparr>)"
| fulfil_promise:
    "\<not> terminated p \<Longrightarrow> i < length (workers p) \<Longrightarrow> workers p ! i = Reported j r \<Longrightarrow>
     pool_step p (fulfil i j r p)"
| stop_clear:
    "\<not> terminated p \<Longrightarrow> stop_at p = Not_Stopping \<Longrightarrow> running p \<Longrightarrow>
     pool_step p (p\<lparr>running := False, stop_at := Running_Cleared\<rparr>)"
| stop_queue_flag:
    "\<not> terminated p \<Longrightarrow> stop_at p = Running_Cleared \<Longrightarrow>
     pool_step p (p\<lparr>job_queue_ref := stop_queue (job_queue_ref p), stop_at := Queue_Stopped\<rparr>)"
| stop_notify:
    "\<not> terminated p \<Longrightarrow> stop_at p = Queue_Stopped \<Longrightarrow>
     pool_step p (p\<lparr>workers := notify_all (workers p), stop_at := Joining\<rparr>)"
| stop_join:
    "\<not> terminated p \<Longrightarrow> stop_at p = Joining \<Longrightarrow> set (workers p) \<subseteq> {Exited} \<Longrightarrow>
     pool_step p (p\<lparr>stop_at := Joined\<rparr>)"

inductive reachable :: "nat \<Rightarrow> scheduler_kind \<Rightarrow> pool \<Rightarrow> bool" for n k where
  init: "reachable n k (start n (new_pool (new_queue k)))"
| step: "reachable n k p \<Longrightarrow> pool_step p p' \<Longrightarrow> reachable n k p'"

inductive_cases notify_oneE: "notify_one ws ws'"

section \<open>Sums over the workers\<close>

definition wsum :: "(worker \<Rightarrow> 'a::comm_monoid_add) \<Rightarrow> worker list \<Rightarrow> 'a" where
  "wsum f ws = sum_list (map f ws)"

lemma wsum_update:
  "i < length ws \<Longrightarrow> wsum f (ws[i := w]) + f (ws ! i) = wsum f ws + f w"
proof (induction ws arbitrary: i)
  case (Cons v ws)
  then show ?case
    by (cases i) (simp_all add: wsum_def ac_simps)
qed simp

lemma wsum_update_same [simp]:
  fixes f :: "worker \<Rightarrow> 'a::cancel_comm_monoid_add"
  shows "f w = f (ws ! i) \<Longrightarrow> wsum f (ws[i := w]) = wsum f ws"
  using wsum_update [of i ws f w] by (cases "i < length ws") (auto simp: list_update_beyond)

lemma wsum_notify_one:
  fixes f :: "worker \<Rightarrow> 'a::cancel_comm_monoid_add"
  shows "notify_one ws ws' \<Longrightarrow> f Sleeping = f Notified \<Longrightarrow> wsum f ws' = wsum f ws"
  by (erule notify_oneE) simp_all

lemma wsum_notify_all [simp]:
  "f Sleeping = f Notified \<Longrightarrow> wsum f (notify_all ws) = wsum f ws"
  by (induction ws) (auto simp: wsum_def notify_all_def)

lemma wsum_member: "w \<in> set ws \<Longrightarrow> \<exists>r. wsum f ws = f w + r"
proof -
  assume "w \<in> set ws"
  then obtain us vs where "ws = us @ w # vs" by (auto simp: in_set_conv_decomp)
  then have "wsum f ws = f w + (wsum f us + wsum f vs)" by (simp add: wsum_def ac_simps)
  then show ?thesis by blast
qed

section \<open>Conservation of jobs\<close>

text \<open>What identifies a job through preemption and resumption.\<close>

definition job_key :: "job \<Rightarrow> uint64 \<times> nat option" where
  "job_key j = (job_id j, result_promise j)"

fun held :: "worker \<Rightarrow> (uint64 \<times> nat option) multiset" where
  "held (Executing j) = {#job_key j#}"
| "held (Reported j r) = {#job_key j#}"
| "held _ = {#}"

definition conserved :: "pool \<Rightarrow> bool" where
  "conserved p \<longleftrightarrow>
     image_mset job_key (mset (submitted p)) =
       image_mset job_key (mset (queued_jobs (job_queue_ref p))) + wsum held (workers p)
       + image_mset (job_key \<circ> fst) (mset (completed p))"

lemma same_job_key [simp]: "same_job j j' \<Longrightarrow> job_key j' = job_key j"
  by (auto simp: same_job_def job_key_def) (metis job.select_convs(1,3) job.surjective
      job.update_convs(7,10))+

lemma try_dequeue_workers:
  "workers (try_dequeue i p) = workers p \<or> (\<exists>w. workers (try_dequeue i p) = (workers p)[i := w])"
  by (auto simp: try_dequeue_def split: prod.splits dequeue_result.splits)

lemma conserved_try_dequeue:
  assumes "conserved p" and i: "i < length (workers p)" and "held (workers p ! i) = {#}"
  shows "conserved (try_dequeue i p)"
proof (cases "dequeue (job_queue_ref p)")
  case (Pair r q)
  show ?thesis
  proof (cases "\<exists>j. r = Got j")
    case True
    then obtain j where j: "r = Got j" by blast
    with Pair have "mset (queued_jobs (job_queue_ref p)) = add_mset j (mset (queued_jobs q))"
      by (simp add: dequeue_Got)
    with assms Pair j wsum_update [OF i, of held "Executing j"] show ?thesis
      by (simp add: conserved_def try_dequeue_def)
  next
    case False
    with Pair assms show ?thesis
      by (auto simp: conserved_def try_dequeue_def split: dequeue_result.splits)
  qed
qed

lemma conserved_step: "pool_step p p' \<Longrightarrow> conserved p \<Longrightarrow> conserved p'"
proof (induction rule: pool_step.induct)
  case (submit p ws j)
  then show ?case
    using wsum_notify_one [OF submit(2), of held] by (simp add: conserved_def mset_enqueue)
next
  case (test p i)
  then show ?case by (simp add: conserved_def loop_test_def)
next
  case (take p i)
  then show ?case by - (rule conserved_try_dequeue, auto)
next
  case (preempt p i j j' r b ws)
  have "wsum held ws + {#job_key j#} = wsum held (workers p)"
    using wsum_notify_one [OF preempt.hyps(7), of held]
      wsum_update [OF preempt.hyps(2), of held Loop_Head] preempt.hyps(3) by simp
  moreover have "job_key (j'\<lparr>elapsed_bursts := b\<rparr>) = job_key j"
    using preempt.hyps(4) by (simp flip: same_job_key) (simp add: job_key_def)
  ultimately show ?case
    using preempt.prems by (simp add: conserved_def mset_enqueue flip: add_mset_add_single)
next
  case (report_result p i j j' r)
  then have "wsum held ((workers p)[i := Reported j' r]) = wsum held (workers p)"
    by simp
  with report_result show ?case by (simp add: conserved_def report_def)
next
  case (fulfil_promise p i j r)
  then have "wsum held ((workers p)[i := Loop_Head]) + {#job_key j#} = wsum held (workers p)"
    using wsum_update [OF fulfil_promise.hyps(2), of held Loop_Head] by simp
  with fulfil_promise show ?case
    by (auto simp: conserved_def fulfil_def split: option.splits)
qed (simp_all add: conserved_def stop_queue_def)

lemma wsum_replicate: "f w = 0 \<Longrightarrow> wsum f (replicate n w) = 0"
  by (induction n) (simp_all add: wsum_def)

lemma start_sel [simp]:
  "workers (start n (new_pool q)) = replicate n Loop_Head"
  "job_queue_ref (start n (new_pool q)) = q" "running (start n (new_pool q))"
  "stop_at (start n (new_pool q)) = Not_Stopping" "results (start n (new_pool q)) = []"
  "promises (start n (new_pool q)) = Map.empty" "submitted (start n (new_pool q)) = []"
  "completed (start n (new_pool q)) = []" "death (start n (new_pool q)) = None"
  by (simp_all add: start_def new_pool_def)

lemma conserved_reachable: "reachable n k p \<Longrightarrow> conserved p"
proof (induction rule: reachable.induct)
  case init
  show ?case
    by (simp add: conserved_def wsum_replicate new_queue_def)
next
  case (step p p')
  then show ?case by (blast intro: conserved_step)
qed

text \<open>
  C7: for every number of workers, every scheduler and every interleaving of submissions,
  executions, preemptions and shutdown, the jobs submitted are exactly the jobs queued, held by a
  worker or completed, each as often as it was submitted: no job is lost or run twice at a time.
\<close>

theorem pool_conserves_jobs:
  assumes "reachable n k p"
  shows "image_mset job_key (mset (submitted p)) =
     image_mset job_key (mset (queued_jobs (job_queue_ref p))) + wsum held (workers p)
     + image_mset (job_key \<circ> fst) (mset (completed p))"
  using conserved_reachable [OF assms] by (simp add: conserved_def)

section \<open>Results and promises\<close>

fun reported_id :: "worker \<Rightarrow> uint64 multiset" where
  "reported_id (Reported j r) = {#job_id j#}"
| "reported_id _ = {#}"

text \<open>
  Every result in the collector belongs to a job that is past execution, and every such job has
  its own result; a promise holds a value exactly when its job is completed.
\<close>

definition results_counted :: "pool \<Rightarrow> bool" where
  "results_counted p \<longleftrightarrow>
     image_mset jr_job_id (mset (results p)) =
       wsum reported_id (workers p) + image_mset (job_id \<circ> fst) (mset (completed p))"

definition results_there :: "pool \<Rightarrow> bool" where
  "results_there p \<longleftrightarrow>
     (\<forall>j r. Reported j r \<in> set (workers p) \<or> (j, r) \<in> set (completed p)
        \<longrightarrow> make_result j r \<in> set (results p))"

definition promises_sound :: "pool \<Rightarrow> bool" where
  "promises_sound p \<longleftrightarrow>
     (\<forall>a v. promises p a = Some v
        \<longrightarrow> (\<exists>j r. (j, r) \<in> set (completed p) \<and> result_promise j = Some a \<and> v = promise_value r))"

definition promises_complete :: "pool \<Rightarrow> bool" where
  "promises_complete p \<longleftrightarrow>
     (\<forall>j r a. (j, r) \<in> set (completed p) \<and> result_promise j = Some a \<longrightarrow> promises p a \<noteq> None)"

definition reported_ok :: "pool \<Rightarrow> bool" where
  "reported_ok p \<longleftrightarrow>
     results_counted p \<and> results_there p \<and> promises_sound p \<and> promises_complete p"

lemmas reported_defs = reported_ok_def results_counted_def results_there_def promises_sound_def
  promises_complete_def

lemma set_update_other:
  "w \<in> set (ws[i := v]) \<Longrightarrow> w \<noteq> v \<Longrightarrow> w \<in> set ws"
  using set_update_subset_insert [of ws i v] by auto

lemma notify_one_Reported:
  "notify_one ws ws' \<Longrightarrow> Reported j r \<in> set ws' \<Longrightarrow> Reported j r \<in> set ws"
  by (erule notify_oneE) (auto dest: set_update_other)

lemma notify_all_Reported: "Reported j r \<in> set (notify_all ws) \<longleftrightarrow> Reported j r \<in> set ws"
  by (auto simp: notify_all_def split: if_splits)

text \<open>A step that touches neither results, promises nor completed jobs keeps the invariant.\<close>

lemma reported_ok_frame:
  assumes "reported_ok p" and "results p' = results p" and "promises p' = promises p"
    and "completed p' = completed p"
    and "wsum reported_id (workers p') = wsum reported_id (workers p)"
    and "\<And>j r. Reported j r \<in> set (workers p') \<Longrightarrow> Reported j r \<in> set (workers p)"
  shows "reported_ok p'"
  using assms unfolding reported_defs by metis

lemma reported_ok_update:
  assumes "reported_ok p" and "reported_id (workers p ! i) = {#}" and "\<And>j r. w \<noteq> Reported j r"
  shows "reported_ok (p\<lparr>workers := (workers p)[i := w]\<rparr>)"
proof (rule reported_ok_frame [OF assms(1)])
  have "reported_id w = {#}" using assms(3) by (cases w) auto
  then show "wsum reported_id (workers (p\<lparr>workers := (workers p)[i := w]\<rparr>)) =
      wsum reported_id (workers p)"
    using assms(2) by simp
qed (use assms(3) in \<open>auto dest: set_update_other\<close>)

lemma reported_ok_notify:
  assumes "reported_ok p" and "notify_one (workers p) ws"
  shows "reported_ok (p\<lparr>workers := ws\<rparr>)"
  by (rule reported_ok_frame [OF assms(1)])
    (simp_all add: wsum_notify_one [OF assms(2)] notify_one_Reported [OF assms(2)])

lemma reported_ok_ghost [simp]:
  "reported_ok (p\<lparr>job_queue_ref := q\<rparr>) = reported_ok p"
  "reported_ok (p\<lparr>submitted := js\<rparr>) = reported_ok p"
  "reported_ok (p\<lparr>death := d\<rparr>) = reported_ok p"
  "reported_ok (p\<lparr>running := b\<rparr>) = reported_ok p"
  "reported_ok (p\<lparr>stop_at := s\<rparr>) = reported_ok p"
  by (simp_all add: reported_defs)

lemma reported_ok_try_dequeue:
  assumes "reported_ok p" and "workers p ! i \<in> {Enter_Dequeue, Sleeping, Notified}"
  shows "reported_ok (try_dequeue i p)"
proof -
  have id: "reported_id (workers p ! i) = {#}" using assms(2) by auto
  show ?thesis
  proof (cases "dequeue (job_queue_ref p)")
    case (Pair r q)
    have "reported_ok (p\<lparr>job_queue_ref := q\<rparr>\<lparr>workers := (workers p)[i := Executing j]\<rparr>)" for j
      using reported_ok_update [of "p\<lparr>job_queue_ref := q\<rparr>" i "Executing j"] id assms(1) by simp
    with Pair assms(1) id show ?thesis
      by (cases r) (simp_all add: try_dequeue_def reported_ok_update)
  qed
qed

lemma reported_ok_report:
  assumes "reported_ok p" and i: "i < length (workers p)" and "workers p ! i = Executing j"
  shows "reported_ok (report i j' r p)"
  using assms(1,3) wsum_update [OF i, of reported_id "Reported j' r"]
  by (auto simp: reported_defs report_def make_result_def dest!: set_update_other)

lemma reported_ok_fulfil:
  assumes ok: "reported_ok p" and i: "i < length (workers p)" and w: "workers p ! i = Reported j r"
  shows "reported_ok (fulfil i j r p)"
proof -
  let ?ws = "(workers p)[i := Loop_Head]"
  have "wsum reported_id ?ws + {#job_id j#} = wsum reported_id (workers p)"
    using wsum_update [OF i, of reported_id Loop_Head] w by simp
  then have "results_counted (fulfil i j r p)"
    using ok by (auto simp: reported_ok_def results_counted_def fulfil_def split: option.splits)
  moreover have "make_result j r \<in> set (results p)"
    using ok i w unfolding reported_ok_def results_there_def by (metis nth_mem)
  then have "results_there (fulfil i j r p)"
    using ok by (auto simp: reported_ok_def results_there_def fulfil_def split: option.splits
        dest!: set_update_other)
  moreover have "promises_sound p" using ok by (simp add: reported_ok_def)
  then have "promises_sound (fulfil i j r p)"
    unfolding promises_sound_def
    by (cases "result_promise j") (auto simp: fulfil_def, (metis+)?)
  moreover have "promises_complete (fulfil i j r p)"
    using ok unfolding reported_ok_def promises_complete_def fulfil_def
    by (fastforce split: option.splits)
  ultimately show ?thesis by (simp add: reported_ok_def)
qed

lemma reported_ok_step: "pool_step p p' \<Longrightarrow> reported_ok p \<Longrightarrow> reported_ok p'"
proof (induction rule: pool_step.induct)
  case (submit p ws j)
  then have "reported_ok (p\<lparr>workers := ws\<rparr>)" by (blast intro: reported_ok_notify)
  then show ?case by (simp add: reported_defs)
next
  case (test p i)
  then show ?case by (auto simp: loop_test_def intro: reported_ok_update)
next
  case (take p i)
  then show ?case by - (rule reported_ok_try_dequeue)
next
  case (preempt p i j j' r b ws)
  then have "reported_ok (p\<lparr>workers := (workers p)[i := Loop_Head]\<rparr>)"
    by - (rule reported_ok_update, simp_all)
  then have "reported_ok (p\<lparr>workers := (workers p)[i := Loop_Head]\<rparr>\<lparr>workers := ws\<rparr>)"
    by (rule reported_ok_notify) (simp add: preempt)
  then show ?case by (simp add: reported_defs)
next
  case (report_result p i j j' r)
  then show ?case by - (rule reported_ok_report)
next
  case (fulfil_promise p i j r)
  then show ?case by - (rule reported_ok_fulfil)
next
  case (stop_notify p)
  then show ?case by (simp add: reported_defs notify_all_Reported)
qed (simp_all add: reported_defs)

lemma reported_ok_reachable: "reachable n k p \<Longrightarrow> reported_ok p"
proof (induction rule: reachable.induct)
  case init
  show ?case by (simp add: reported_defs wsum_replicate)
next
  case (step p p')
  then show ?case by (blast intro: reported_ok_step)
qed

text \<open>With distinct promises, a reporting worker's promise is still unset.\<close>

lemma promise_unset:
  assumes "reachable n k p" and w: "Reported j r \<in> set (workers p)"
    and a: "result_promise j = Some a"
    and "count (image_mset snd (image_mset job_key (mset (submitted p)))) (Some a) \<le> 1"
  shows "promises p a = None"
proof (rule ccontr)
  assume "promises p a \<noteq> None"
  with reported_ok_reachable [OF assms(1)] obtain j' r' where c: "(j', r') \<in> set (completed p)"
    "result_promise j' = Some a"
    unfolding reported_ok_def promises_sound_def by blast
  from w obtain R where R: "wsum held (workers p) = {#job_key j#} + R"
    using wsum_member [of "Reported j r" "workers p" held] by auto
  from c(1) obtain C where C: "mset (completed p) = add_mset (j', r') C"
    by (metis insert_DiffM set_mset_mset)
  have "count (image_mset snd (image_mset job_key (mset (submitted p)))) (Some a) \<ge> 2"
    using conserved_reachable [OF assms(1)] R C a c(2)
    by (simp add: conserved_def job_key_def)
  with assms(4) show False by simp
qed

text \<open>
  \<open>set_value\<close> never throws: if no two submitted jobs share a promise, the promise of a job
  whose result was just reported is still unset, so the worker fulfils it and returns to its loop.
\<close>

lemma promise_set_once:
  assumes "reachable n k p" and "\<not> terminated p"
    and "i < length (workers p)" and "workers p ! i = Reported j r"
    and "\<And>a. count (image_mset result_promise (mset (submitted p))) (Some a) \<le> 1"
  shows "\<not> terminated (fulfil i j r p) \<and> workers (fulfil i j r p) ! i = Loop_Head"
proof -
  have w: "Reported j r \<in> set (workers p)" using assms(3,4) by (metis nth_mem)
  have "image_mset snd (image_mset job_key (mset (submitted p)))
      = image_mset result_promise (mset (submitted p))"
    by (simp add: multiset.map_comp comp_def job_key_def)
  then have "result_promise j = Some a \<Longrightarrow> promises p a = None" for a
    using promise_unset [OF assms(1) w] assms(5) by auto
  with assms(2,3) show ?thesis by (auto simp: fulfil_def split: option.splits)
qed

text \<open>
  A job is reported to the collector exactly once: at every moment the identifiers of the
  results received are those of the jobs past execution, each once, and the promise of a job is
  set only after its result was delivered, to 0 for success and 1 otherwise.
\<close>

lemma pool_reports_once:
  assumes "reachable n k p"
  shows "image_mset jr_job_id (mset (results p)) =
       wsum reported_id (workers p) + image_mset (job_id \<circ> fst) (mset (completed p))
     \<and> (\<forall>a v. promises p a = Some v \<longrightarrow>
          (\<exists>j r. make_result j r \<in> set (results p) \<and> result_promise j = Some a
             \<and> v = (if success r then 0 else 1)))"
  using reported_ok_reachable [OF assms] unfolding reported_defs promise_value_def by blast

section \<open>No lost wake-up\<close>

fun notified :: "worker \<Rightarrow> nat" where
  "notified Notified = 1"
| "notified _ = 0"

text \<open>While a worker sleeps, every queued job has a notified worker on its way to it.\<close>

definition wakeups_ok :: "pool \<Rightarrow> bool" where
  "wakeups_ok p \<longleftrightarrow>
     (Sleeping \<in> set (workers p)
        \<longrightarrow> length (queued_jobs (job_queue_ref p)) \<le> wsum notified (workers p))"

lemma notify_one_wakes:
  assumes "notify_one ws ws'" and "Sleeping \<in> set ws'"
  shows "wsum notified ws' = Suc (wsum notified ws)" and "Sleeping \<in> set ws"
proof -
  from assms obtain i where i: "i < length ws" "ws ! i = Sleeping" "ws' = ws[i := Notified]"
    by (auto elim: notify_oneE)
  with wsum_update [of i ws notified Notified] show "wsum notified ws' = Suc (wsum notified ws)"
    by simp
  from i show "Sleeping \<in> set ws" by (metis nth_mem)
qed

lemma wakeups_ok_enqueue:
  assumes "Sleeping \<in> set ws \<Longrightarrow> length (queued_jobs q) \<le> wsum notified ws"
    and "notify_one ws ws'" and "Sleeping \<in> set ws'"
  shows "length (queued_jobs (enqueue q j)) \<le> wsum notified ws'"
  using notify_one_wakes [OF assms(2,3)] assms(1) by (simp add: length_enqueue)

lemma wakeups_ok_try_dequeue:
  assumes ok: "wakeups_ok p" and i: "i < length (workers p)"
    and w: "workers p ! i \<in> {Enter_Dequeue, Sleeping, Notified}"
  shows "wakeups_ok (try_dequeue i p)"
proof (cases "dequeue (job_queue_ref p)")
  case (Pair r q)
  have le: "wsum notified (workers p) \<le> Suc (wsum notified ((workers p)[i := w']))" for w'
    using wsum_update [OF i, of notified w'] w by auto
  have other: "Sleeping \<in> set ((workers p)[i := w']) \<Longrightarrow> w' \<noteq> Sleeping
      \<Longrightarrow> Sleeping \<in> set (workers p)" for w'
    by (auto dest: set_update_other)
  show ?thesis
  proof (cases r)
    case Blocked
    with Pair dequeue_Blocked_iff [of "job_queue_ref p"]
    show ?thesis by (simp add: wakeups_ok_def try_dequeue_def)
  next
    case Nullopt
    with Pair dequeue_Nullopt_iff [of "job_queue_ref p"]
    show ?thesis by (simp add: wakeups_ok_def try_dequeue_def)
  next
    case (Got j)
    with Pair have "length (queued_jobs (job_queue_ref p)) = Suc (length (queued_jobs q))"
      by (simp add: dequeue_Got)
    with ok Got Pair le [of "Executing j"] other [of "Executing j"] show ?thesis
      by (auto simp: wakeups_ok_def try_dequeue_def)
  next
    case (Undefined e)
    with Pair ok show ?thesis by (simp add: wakeups_ok_def try_dequeue_def)
  qed
qed

lemma wakeups_ok_update:
  assumes "wakeups_ok p" and "workers p ! i \<notin> {Sleeping, Notified}" and "w \<notin> {Sleeping, Notified}"
    and "queued_jobs (job_queue_ref p') = queued_jobs (job_queue_ref p)"
    and "workers p' = (workers p)[i := w]"
  shows "wakeups_ok p'"
proof -
  have "notified w = notified (workers p ! i)"
    using assms(2,3) by (cases w; cases "workers p ! i") auto
  then show ?thesis
    using assms by (auto simp: wakeups_ok_def dest: set_update_other)
qed

lemma wakeups_ok_step: "pool_step p p' \<Longrightarrow> wakeups_ok p \<Longrightarrow> wakeups_ok p'"
proof (induction rule: pool_step.induct)
  case (submit p ws j)
  then show ?case
    using wakeups_ok_enqueue [of "workers p" "job_queue_ref p" ws j] by (simp add: wakeups_ok_def)
next
  case (test p i)
  then show ?case
    by - (rule wakeups_ok_update [of p i "if running p then Enter_Dequeue else Exited"],
      simp_all add: loop_test_def)
next
  case (take p i)
  then show ?case by - (rule wakeups_ok_try_dequeue)
next
  case (preempt p i j j' r b ws)
  then have "wakeups_ok (p\<lparr>workers := (workers p)[i := Loop_Head]\<rparr>)"
    by - (rule wakeups_ok_update [of p i Loop_Head], auto)
  with preempt show ?case
    using wakeups_ok_enqueue [of "(workers p)[i := Loop_Head]" "job_queue_ref p" ws]
    by (simp add: wakeups_ok_def)
next
  case (report_result p i j j' r)
  then show ?case
    by - (rule wakeups_ok_update [of p i "Reported j' r"],
      auto simp: report_def)
next
  case (fulfil_promise p i j r)
  then have "wakeups_ok (p\<lparr>workers := (workers p)[i := Loop_Head]\<rparr>)"
    by - (rule wakeups_ok_update [of p i Loop_Head], auto)
  with fulfil_promise.prems show ?case
    by (auto simp: fulfil_def wakeups_ok_def split: option.splits)
next
  case (stop_notify p)
  then show ?case by (auto simp: wakeups_ok_def notify_all_def)
qed (simp_all add: wakeups_ok_def stop_queue_def)

lemma wakeups_ok_reachable: "reachable n k p \<Longrightarrow> wakeups_ok p"
proof (induction rule: reachable.induct)
  case init
  show ?case by (simp add: wakeups_ok_def)
next
  case (step p p')
  then show ?case by (blast intro: wakeups_ok_step)
qed

lemma wsum_notified_pos: "0 < wsum notified ws \<Longrightarrow> Notified \<in> set ws"
proof (induction ws)
  case (Cons w ws)
  then show ?case by (cases w) (auto simp: wsum_def)
qed (simp add: wsum_def)

text \<open>
  C10: no wake-up is lost although enqueue notifies a single thread: whenever a job is queued and
  a worker sleeps in the condition variable's wait, some worker has already been notified and will
  look at the queue, and there are at least as many such workers as queued jobs.
\<close>

theorem no_lost_wakeup:
  assumes "reachable n k p" and "Sleeping \<in> set (workers p)"
    and "queued_jobs (job_queue_ref p) \<noteq> []"
  shows "Notified \<in> set (workers p)
     \<and> length (queued_jobs (job_queue_ref p)) \<le> wsum notified (workers p)"
proof -
  have le: "length (queued_jobs (job_queue_ref p)) \<le> wsum notified (workers p)"
    using wakeups_ok_reachable [OF assms(1)] assms(2) by (simp add: wakeups_ok_def)
  moreover have "0 < length (queued_jobs (job_queue_ref p))" using assms(3) by simp
  ultimately have "0 < wsum notified (workers p)" by linarith
  with le show ?thesis by (simp add: wsum_notified_pos)
qed


section \<open>Shutdown\<close>

text \<open>What holds in each phase of \<open>stop\<close>.\<close>

definition shutdown_ok :: "pool \<Rightarrow> bool" where
  "shutdown_ok p \<longleftrightarrow>
     (stop_at p \<noteq> Not_Stopping \<longrightarrow> \<not> running p)
     \<and> (stop_at p \<in> {Queue_Stopped, Joining, Joined} \<longrightarrow> stopping (job_queue_ref p))
     \<and> (stop_at p \<in> {Joining, Joined} \<longrightarrow> Sleeping \<notin> set (workers p))
     \<and> (stop_at p = Joined \<longrightarrow> set (workers p) \<subseteq> {Exited})"

lemma set_update_in: "i < length ws \<Longrightarrow> ws ! i \<in> set ws"
  by simp

lemma joined_stays:
  "i < length ws \<Longrightarrow> ws ! i \<noteq> Exited \<Longrightarrow> \<not> set ws \<subseteq> {Exited}"
  using nth_mem by fastforce

lemma shutdown_ok_update:
  assumes "shutdown_ok p" and "i < length (workers p)" and "workers p ! i \<noteq> Exited"
    and "w = Sleeping \<longrightarrow> \<not> stopping (job_queue_ref p)"
    and "workers p' = (workers p)[i := w]" and "stop_at p' = stop_at p"
    and "running p' = running p" and "stopping (job_queue_ref p') = stopping (job_queue_ref p)"
  shows "shutdown_ok p'"
  using assms joined_stays [OF assms(2,3)]
  by (auto simp: shutdown_ok_def dest: set_update_other)

lemma shutdown_ok_notify:
  assumes "shutdown_ok p" and "notify_one (workers p) ws"
    and "workers p' = ws" and "stop_at p' = stop_at p"
    and "running p' = running p" and "stopping (job_queue_ref p') = stopping (job_queue_ref p)"
  shows "shutdown_ok p'"
  using assms(2)
proof (cases rule: notify_one.cases)
  case nobody
  with assms show ?thesis by (simp add: shutdown_ok_def)
next
  case (wake i)
  with assms show ?thesis by - (rule shutdown_ok_update [of p i Notified], simp_all)
qed

lemma shutdown_ok_try_dequeue:
  assumes "shutdown_ok p" and "i < length (workers p)"
    and "workers p ! i \<in> {Enter_Dequeue, Sleeping, Notified}"
  shows "shutdown_ok (try_dequeue i p)"
proof (cases "dequeue (job_queue_ref p)")
  case (Pair r q)
  have x: "workers p ! i \<noteq> Exited" using assms(3) by auto
  have fr: "stopping q = stopping (job_queue_ref p)" by (rule dequeue_frame [OF Pair])
  show ?thesis
  proof (cases r)
    case Blocked
    with Pair dequeue_Blocked_iff [of "job_queue_ref p"]
    show ?thesis
      by - (rule shutdown_ok_update [OF assms(1,2) x, of Sleeping],
        simp_all add: try_dequeue_def)
  next
    case Nullopt
    with Pair show ?thesis
      by - (rule shutdown_ok_update [OF assms(1,2) x, of Exited],
        simp_all add: try_dequeue_def)
  next
    case (Got j)
    with Pair fr show ?thesis
      by - (rule shutdown_ok_update [OF assms(1,2) x, of "Executing j"],
        simp_all add: try_dequeue_def)
  next
    case (Undefined e)
    with Pair assms(1) show ?thesis by (simp add: shutdown_ok_def try_dequeue_def)
  qed
qed

lemma shutdown_ok_step: "pool_step p p' \<Longrightarrow> shutdown_ok p \<Longrightarrow> shutdown_ok p'"
proof (induction rule: pool_step.induct)
  case (submit p ws j)
  then show ?case by - (rule shutdown_ok_notify [of p ws], simp_all)
next
  case (test p i)
  then show ?case
    by - (rule shutdown_ok_update [of p i "if running p then Enter_Dequeue else Exited"],
      simp_all add: loop_test_def)
next
  case (take p i)
  then show ?case by - (rule shutdown_ok_try_dequeue)
next
  case (preempt p i j j' r b ws)
  then have "shutdown_ok (p\<lparr>workers := (workers p)[i := Loop_Head]\<rparr>)"
    by - (rule shutdown_ok_update [of p i Loop_Head], simp_all)
  then show ?case by (rule shutdown_ok_notify) (use preempt in simp_all)
next
  case (report_result p i j j' r)
  then show ?case
    by - (rule shutdown_ok_update [of p i "Reported j' r"],
      simp_all add: report_def)
next
  case (fulfil_promise p i j r)
  then have "shutdown_ok (p\<lparr>workers := (workers p)[i := Loop_Head]\<rparr>)"
    by - (rule shutdown_ok_update [of p i Loop_Head], simp_all)
  with fulfil_promise.prems show ?case
    by (simp add: fulfil_def shutdown_ok_def split: option.splits)
next
  case (stop_notify p)
  then show ?case by (auto simp: shutdown_ok_def notify_all_def)
qed (auto simp: shutdown_ok_def stop_queue_def)

lemma shutdown_ok_reachable: "reachable n k p \<Longrightarrow> shutdown_ok p"
proof (induction rule: reachable.induct)
  case init
  show ?case by (simp add: shutdown_ok_def)
next
  case (step p p')
  then show ?case by (blast intro: shutdown_ok_step)
qed

text \<open>Steps of the pool itself, as opposed to submissions by clients.\<close>

definition internal_step :: "pool \<Rightarrow> pool \<Rightarrow> bool" where
  "internal_step p p' \<longleftrightarrow> pool_step p p' \<and> submitted p' = submitted p"

fun steps_left :: "worker \<Rightarrow> nat" where
  "steps_left Exited = 0"
| "steps_left Loop_Head = 1"
| "steps_left (Reported j r) = 2"
| "steps_left (Executing j) = 3"
| "steps_left _ = 4"

definition shutdown_measure :: "pool \<Rightarrow> nat" where
  "shutdown_measure p = wsum steps_left (workers p)
     + (if stop_at p = Joined then 0 else 1) + (if terminated p then 0 else 1)"

lemma wsum_less:
  fixes f :: "worker \<Rightarrow> nat"
  shows "i < length ws \<Longrightarrow> f w < f (ws ! i) \<Longrightarrow> wsum f (ws[i := w]) < wsum f ws"
  using wsum_update [of i ws f w] by linarith

lemma notify_one_awake: "notify_one ws ws' \<Longrightarrow> Sleeping \<notin> set ws \<Longrightarrow> ws' = ws"
  by (erule notify_oneE) (auto dest: nth_mem)

lemma joining_try_dequeue:
  assumes "stopping (job_queue_ref p)" and "i < length (workers p)" and "\<not> terminated p"
    and "workers p ! i \<in> {Enter_Dequeue, Sleeping, Notified}"
  shows "shutdown_measure (try_dequeue i p) < shutdown_measure p"
proof (cases "dequeue (job_queue_ref p)")
  case (Pair r q)
  have "steps_left (workers p ! i) = 4" using assms(4) by auto
  with wsum_less [OF assms(2), of steps_left]
  have less: "w = Exited \<or> w = Executing j \<Longrightarrow>
      wsum steps_left ((workers p)[i := w]) < wsum steps_left (workers p)" for w j
    by auto
  with Pair assms(1,3) dequeue_Blocked_iff [of "job_queue_ref p"] show ?thesis
    by (cases r) (auto simp: try_dequeue_def shutdown_measure_def)
qed

lemma joining_step_decreases:
  "pool_step p p' \<Longrightarrow> shutdown_ok p \<Longrightarrow> stop_at p \<in> {Joining, Joined} \<Longrightarrow>
   submitted p' = submitted p \<Longrightarrow> shutdown_measure p' < shutdown_measure p"
proof (induction rule: pool_step.induct)
  case (test p i)
  then show ?case
    using wsum_less [OF test.hyps(2), of steps_left Exited]
    by (auto simp: shutdown_measure_def loop_test_def shutdown_ok_def)
next
  case (take p i)
  then show ?case by - (rule joining_try_dequeue, auto simp: shutdown_ok_def)
next
  case (preempt p i j j' r b ws)
  then have "Sleeping \<notin> set ((workers p)[i := Loop_Head])"
    by (auto simp: shutdown_ok_def dest: set_update_other)
  with preempt have "ws = (workers p)[i := Loop_Head]" by (blast dest: notify_one_awake)
  with preempt wsum_less [OF preempt.hyps(2), of steps_left Loop_Head] show ?case
    by (simp add: shutdown_measure_def)
next
  case (report_result p i j j' r)
  then show ?case
    using wsum_less [OF report_result.hyps(2), of steps_left "Reported j' r"]
    by (simp add: shutdown_measure_def report_def)
next
  case (fulfil_promise p i j r)
  then show ?case
    using wsum_less [OF fulfil_promise.hyps(2), of steps_left Loop_Head]
    by (simp add: shutdown_measure_def fulfil_def split: option.splits)
qed (auto simp: shutdown_measure_def shutdown_ok_def)

lemma joining_stays:
  "pool_step p p' \<Longrightarrow> stop_at p \<in> {Joining, Joined} \<Longrightarrow> stop_at p' \<in> {Joining, Joined}"
  by (induction rule: pool_step.induct)
    (auto simp: loop_test_def try_dequeue_def report_def fulfil_def
      split: prod.splits dequeue_result.splits option.splits)

lemma joining_progress:
  assumes "shutdown_ok p" and "stop_at p = Joining" and "\<not> terminated p"
  shows "\<exists>p'. internal_step p p'"
proof (cases "set (workers p) \<subseteq> {Exited}")
  case True
  with assms have "pool_step p (p\<lparr>stop_at := Joined\<rparr>)" by (intro pool_step.stop_join) auto
  then show ?thesis by (auto simp: internal_step_def)
next
  case False
  then obtain i where i: "i < length (workers p)" "workers p ! i \<noteq> Exited"
    by (auto simp: set_conv_nth)
  show ?thesis
  proof (cases "workers p ! i")
    case Loop_Head
    then have "pool_step p (loop_test i p)" using assms i by (intro pool_step.test) auto
    then show ?thesis by (auto simp: internal_step_def loop_test_def)
  next
    case (Executing j)
    then have "pool_step p (report i j new_execution_result p)"
      using assms i by (intro pool_step.report_result [of p i j])
        (auto simp: same_job_def new_execution_result_def)
    then show ?thesis by (auto simp: internal_step_def report_def)
  next
    case (Reported j r)
    then have "pool_step p (fulfil i j r p)" using assms i by (intro pool_step.fulfil_promise) auto
    then show ?thesis by (auto simp: internal_step_def fulfil_def split: option.splits)
  next
    case Exited
    with i show ?thesis by simp
  qed (use pool_step.take [of p i] assms i in \<open>auto simp: internal_step_def try_dequeue_def
        split: prod.splits dequeue_result.splits\<close>)
qed

lemma joining_run:
  assumes "reachable n k p" and "stop_at p \<in> {Joining, Joined}" and "(internal_step ^^ m) p p'"
  shows "reachable n k p' \<and> stop_at p' \<in> {Joining, Joined}
     \<and> m + shutdown_measure p' \<le> shutdown_measure p"
  using assms(3)
proof (induction m arbitrary: p')
  case 0
  with assms show ?case by simp
next
  case (Suc m)
  then obtain q where q: "(internal_step ^^ m) p q" "internal_step q p'" by auto
  with Suc.IH have IH: "reachable n k q" "stop_at q \<in> {Joining, Joined}"
    "m + shutdown_measure q \<le> shutdown_measure p" by auto
  from q(2) have st: "pool_step q p'" "submitted p' = submitted q" by (auto simp: internal_step_def)
  have "shutdown_measure p' < shutdown_measure q"
    using joining_step_decreases [OF st(1) shutdown_ok_reachable [OF IH(1)] IH(2) st(2)] .
  with IH st show ?case by (auto intro: reachable.step dest: joining_stays)
qed

lemma wsum_bound: "(\<And>w. f w \<le> (c::nat)) \<Longrightarrow> wsum f ws \<le> c * length ws"
  by (induction ws) (auto simp: wsum_def intro: add_mono)

text \<open>
  \<open>WorkerPool::stop\<close> returns. Once it waits in join, the pool can make at most four steps per
  worker plus two before nothing is left to do, whatever the executions return, and a state
  without further steps is one where every worker has left its loop and all are joined (or the
  process was terminated by undefined behaviour or an exception).
\<close>

lemma stop_returns:
  assumes "reachable n k p" and "stop_at p = Joining" and "(internal_step ^^ m) p p'"
  shows "m \<le> 4 * length (workers p) + 2
     \<and> ((\<nexists>p''. internal_step p' p'')
          \<longrightarrow> terminated p' \<or> (stop_at p' = Joined \<and> set (workers p') \<subseteq> {Exited}))"
proof -
  have run: "reachable n k p'" "stop_at p' \<in> {Joining, Joined}"
    "m + shutdown_measure p' \<le> shutdown_measure p"
    using joining_run [OF assms(1) _ assms(3)] assms(2) by auto
  have "steps_left w \<le> 4" for w by (cases w) auto
  then have "shutdown_measure p \<le> 4 * length (workers p) + 2"
    using wsum_bound [of steps_left 4 "workers p"] by (simp add: shutdown_measure_def)
  moreover have "terminated p' \<or> stop_at p' = Joined" if "\<nexists>p''. internal_step p' p''"
    using joining_progress [OF shutdown_ok_reachable [OF run(1)]] run(2) that by auto
  moreover have "stop_at p' = Joined \<Longrightarrow> set (workers p') \<subseteq> {Exited}"
    using shutdown_ok_reachable [OF run(1)] by (simp add: shutdown_ok_def)
  ultimately show ?thesis using run(3) by auto
qed

section \<open>What stop leaves behind\<close>

fun may_complete :: "worker \<Rightarrow> nat" where
  "may_complete Exited = 0"
| "may_complete Loop_Head = 0"
| "may_complete _ = 1"

lemma wsum_le:
  fixes f :: "worker \<Rightarrow> nat"
  shows "i < length ws \<Longrightarrow> f w \<le> f (ws ! i) \<Longrightarrow> wsum f (ws[i := w]) \<le> wsum f ws"
  using wsum_update [of i ws f w] by linarith

lemma completions_step:
  "pool_step p p' \<Longrightarrow> \<not> running p \<Longrightarrow>
   \<not> running p' \<and> length (completed p') + wsum may_complete (workers p')
     \<le> length (completed p) + wsum may_complete (workers p)"
proof (induction rule: pool_step.induct)
  case (submit p ws j)
  then show ?case using wsum_notify_one [OF submit(2), of may_complete] by simp
next
  case (test p i)
  then show ?case
    using wsum_le [OF test.hyps(2), of may_complete Exited] by (simp add: loop_test_def)
next
  case (take p i)
  then have "may_complete (workers p ! i) = 1" by auto
  with take wsum_le [OF take.hyps(2), of may_complete] show ?case
    by (auto simp: try_dequeue_def split: prod.splits dequeue_result.splits)
next
  case (preempt p i j j' r b ws)
  then show ?case
    using wsum_notify_one [OF preempt.hyps(7), of may_complete]
      wsum_le [OF preempt.hyps(2), of may_complete Loop_Head] by simp
next
  case (report_result p i j j' r)
  then show ?case
    using wsum_le [OF report_result.hyps(2), of may_complete "Reported j' r"]
    by (simp add: report_def)
next
  case (fulfil_promise p i j r)
  then show ?case
    using wsum_less [OF fulfil_promise.hyps(2), of may_complete Loop_Head]
    by (auto simp: fulfil_def split: option.splits)
qed auto

lemma completions_run:
  "pool_step\<^sup>*\<^sup>* p p' \<Longrightarrow> \<not> running p \<Longrightarrow>
   \<not> running p' \<and> length (completed p') + wsum may_complete (workers p')
     \<le> length (completed p) + wsum may_complete (workers p)"
proof (induction rule: rtranclp_induct)
  case (step q r)
  with completions_step [OF step.hyps(2)] show ?case by auto
qed simp

lemma completions_after_stop:
  assumes "reachable n k p" and "stop_at p \<noteq> Not_Stopping" and "pool_step\<^sup>*\<^sup>* p p'"
  shows "length (completed p') \<le> length (completed p) + length (workers p)"
proof -
  have "\<not> running p" using shutdown_ok_reachable [OF assms(1)] assms(2) by (simp add: shutdown_ok_def)
  from completions_run [OF assms(3) this]
  have "length (completed p') \<le> length (completed p) + wsum may_complete (workers p)" by simp
  also have "wsum may_complete (workers p) \<le> 1 * length (workers p)"
  proof (rule wsum_bound)
    show "may_complete w \<le> 1" for w by (cases w) simp_all
  qed
  finally show ?thesis by simp
qed

text \<open>With distinct promises, the promise of a queued job is unset.\<close>

lemma queued_promise_unset:
  assumes "reachable n k p" and "j \<in> set (queued_jobs (job_queue_ref p))" and a: "result_promise j = Some a"
    and "count (image_mset result_promise (mset (submitted p))) (Some a) \<le> 1"
  shows "promises p a = None"
proof (rule ccontr)
  assume "promises p a \<noteq> None"
  with reported_ok_reachable [OF assms(1)] obtain j' r' where c: "(j', r') \<in> set (completed p)" "result_promise j' = Some a"
    unfolding reported_ok_def promises_sound_def by blast
  from assms(2) obtain Q where Q: "mset (queued_jobs (job_queue_ref p)) = add_mset j Q" by (metis insert_DiffM set_mset_mset)
  from c(1) obtain C where C: "mset (completed p) = add_mset (j', r') C" by (metis insert_DiffM set_mset_mset)
  have "image_mset snd (image_mset job_key (mset (submitted p))) = image_mset result_promise (mset (submitted p))"
    by (simp add: multiset.map_comp comp_def job_key_def)
  moreover have "count (image_mset snd (image_mset job_key (mset (submitted p)))) (Some a) \<ge> 2"
    using conserved_reachable [OF assms(1)] Q C a c(2) by (simp add: conserved_def job_key_def)
  ultimately show False using assms(4) by simp
qed

text \<open>After the join nobody holds a job: what was submitted is completed or still queued.\<close>

lemma joined_leaves:
  assumes "reachable n k p" and "stop_at p = Joined"
  shows "set (workers p) \<subseteq> {Exited}"
    and "image_mset job_key (mset (submitted p)) =
      image_mset job_key (mset (queued_jobs (job_queue_ref p))) + image_mset (job_key \<circ> fst) (mset (completed p))"
proof -
  show e: "set (workers p) \<subseteq> {Exited}" using shutdown_ok_reachable [OF assms(1)] assms(2) by (simp add: shutdown_ok_def)
  have "set ws \<subseteq> {Exited} \<Longrightarrow> wsum held ws = {#}" for ws by (induction ws) (auto simp: wsum_def)
  with e have "wsum held (workers p) = {#}" by blast
  then show "image_mset job_key (mset (submitted p)) =
      image_mset job_key (mset (queued_jobs (job_queue_ref p))) + image_mset (job_key \<circ> fst) (mset (completed p))"
    using conserved_reachable [OF assms(1)] by (simp add: conserved_def)
qed

lemma reachable_run: "pool_step\<^sup>*\<^sup>* p p' \<Longrightarrow> reachable n k p \<Longrightarrow> reachable n k p'"
  by (induction rule: rtranclp_induct) (auto intro: reachable.step)

text \<open>
  C30: what \<open>stop\<close> does to the queued jobs. Once it has cleared the running flag, at most one more
  job per worker is ever completed, however many are queued and however long the pool runs on.
  Meanwhile the queue does not refuse: as long as a job is queued, \<open>dequeue\<close> never answers that
  there is none. When \<open>stop\<close> has joined the workers, all have left their loop and every submitted
  job is either completed or still in the queue; and the promise of a queued job is never set,
  if no two jobs share one: whoever waits for an abandoned job is not told.
\<close>

theorem stop_abandons_jobs:
  assumes "reachable n k p" and "stop_at p \<noteq> Not_Stopping" and "pool_step\<^sup>*\<^sup>* p p'"
    and "\<And>a. count (image_mset result_promise (mset (submitted p'))) (Some a) \<le> 1"
  shows "length (completed p') \<le> length (completed p) + length (workers p)
    \<and> (queued_jobs (job_queue_ref p') \<noteq> [] \<longrightarrow> fst (dequeue (job_queue_ref p')) \<notin> {Nullopt, Blocked})
    \<and> (stop_at p' = Joined \<longrightarrow> set (workers p') \<subseteq> {Exited}
        \<and> image_mset job_key (mset (submitted p')) =
            image_mset job_key (mset (queued_jobs (job_queue_ref p'))) + image_mset (job_key \<circ> fst) (mset (completed p')))
    \<and> (\<forall>j \<in> set (queued_jobs (job_queue_ref p')). \<forall>a. result_promise j = Some a \<longrightarrow> promises p' a = None)"
proof -
  note r = reachable_run [OF assms(3,1)]
  have "queued_jobs (job_queue_ref p') \<noteq> [] \<Longrightarrow> fst (dequeue (job_queue_ref p')) \<notin> {Nullopt, Blocked}"
    using dequeue_Nullopt_iff dequeue_Blocked_iff by auto
  then show ?thesis
    using completions_after_stop [OF assms(1-3)] joined_leaves [OF r] queued_promise_unset [OF r _ _ assms(4)] by blast
qed

section \<open>Runs\<close>

text \<open>Two workers go to sleep; a submission wakes one of them.\<close>

definition demo_job :: "nat \<Rightarrow> job" where
  "demo_job i = new_job (of_nat i) (parseLine ''/while1'') (Some i)"

definition demo_asleep :: pool where
  "demo_asleep = (start 2 (new_pool (new_queue FCFS)))\<lparr>workers := [Sleeping, Sleeping]\<rparr>"

definition demo_woken :: pool where
  "demo_woken = demo_asleep\<lparr>job_queue_ref := enqueue (new_queue FCFS) (demo_job 1),
     workers := [Notified, Sleeping], submitted := [demo_job 1]\<rparr>"

lemmas demo_simps = start_def new_pool_def new_queue_def loop_test_def try_dequeue_def dequeue_def
  enqueue_def FCFS_addJob_def FCFS_getNextJob_def report_def fulfil_def stop_queue_def
  notify_all_def

lemma demo_asleep_reachable: "reachable 2 FCFS demo_asleep"
proof -
  let ?p0 = "start 2 (new_pool (new_queue FCFS))"
  have 1: "reachable 2 FCFS (loop_test 0 ?p0)"
    by (rule reachable.step [OF reachable.init], rule pool_step.test) (simp_all add: numeral_2_eq_2)
  have 2: "reachable 2 FCFS (try_dequeue 0 (loop_test 0 ?p0))"
    by (rule reachable.step [OF 1], rule pool_step.take)
      (simp_all add: demo_simps numeral_2_eq_2)
  have 3: "reachable 2 FCFS (loop_test 1 (try_dequeue 0 (loop_test 0 ?p0)))"
    by (rule reachable.step [OF 2], rule pool_step.test)
      (simp_all add: demo_simps numeral_2_eq_2)
  have 4: "reachable 2 FCFS (try_dequeue 1 (loop_test 1 (try_dequeue 0 (loop_test 0 ?p0))))"
    by (rule reachable.step [OF 3], rule pool_step.take)
      (simp_all add: demo_simps numeral_2_eq_2)
  moreover have "try_dequeue 1 (loop_test 1 (try_dequeue 0 (loop_test 0 ?p0))) = demo_asleep"
    by (simp add: demo_simps demo_asleep_def numeral_2_eq_2)
  ultimately show ?thesis by simp
qed

lemma demo_woken_reachable: "reachable 2 FCFS demo_woken"
proof -
  have "notify_one (workers demo_asleep) ([Sleeping, Sleeping][0 := Notified])"
    unfolding demo_asleep_def by (simp, rule notify_one.wake [of 0 "[Sleeping, Sleeping]", simplified])
  then have "pool_step demo_asleep (demo_asleep\<lparr>job_queue_ref := enqueue (job_queue_ref demo_asleep)
      (demo_job 1), workers := [Notified, Sleeping], submitted := demo_job 1 # submitted demo_asleep\<rparr>)"
    by (intro pool_step.submit) (simp_all add: demo_asleep_def)
  then have "pool_step demo_asleep demo_woken"
    by (simp add: demo_woken_def demo_asleep_def)
  with demo_asleep_reachable show ?thesis by (rule reachable.step)
qed

theorem no_lost_wakeup_witness:
  "reachable 2 FCFS demo_woken \<and> Notified \<in> set (workers demo_woken)"
  using no_lost_wakeup [OF demo_woken_reachable] demo_woken_reachable
  by (simp add: demo_woken_def demo_simps)

text \<open>One worker executes a job while a second job is queued and the pool is stopped.\<close>

definition demo_busy :: pool where
  "demo_busy = (start 1 (new_pool (new_queue FCFS)))\<lparr>
     job_queue_ref := (new_queue FCFS)\<lparr>queued_jobs := [demo_job 2]\<rparr>,
     workers := [Executing (demo_job 1)], submitted := [demo_job 2, demo_job 1]\<rparr>"

definition demo_joining :: pool where
  "demo_joining = demo_busy\<lparr>running := False,
     job_queue_ref := (new_queue FCFS)\<lparr>queued_jobs := [demo_job 2], stopping := True\<rparr>,
     stop_at := Joining\<rparr>"

lemma submit_quiet:
  assumes "reachable n k p" and "\<not> terminated p" and "Sleeping \<notin> set (workers p)"
  shows "reachable n k (p\<lparr>job_queue_ref := enqueue (job_queue_ref p) j, submitted := j # submitted p\<rparr>)"
proof -
  have "pool_step p (p\<lparr>job_queue_ref := enqueue (job_queue_ref p) j, workers := workers p,
      submitted := j # submitted p\<rparr>)"
    using assms by (intro pool_step.submit) (auto intro: notify_one.nobody)
  with assms(1) have "reachable n k (p\<lparr>job_queue_ref := enqueue (job_queue_ref p) j,
      workers := workers p, submitted := j # submitted p\<rparr>)" by (rule reachable.step)
  then show ?thesis by simp
qed

lemma demo_busy_reachable: "reachable 1 FCFS demo_busy"
proof -
  let ?p0 = "start 1 (new_pool (new_queue FCFS))"
  let ?p1 = "?p0\<lparr>job_queue_ref := enqueue (job_queue_ref ?p0) (demo_job 1),
    submitted := demo_job 1 # submitted ?p0\<rparr>"
  let ?p2 = "loop_test 0 ?p1"
  let ?p3 = "try_dequeue 0 ?p2"
  have 1: "reachable 1 FCFS ?p1" by (rule submit_quiet [OF reachable.init]) simp_all
  have 2: "reachable 1 FCFS ?p2"
    by (rule reachable.step [OF 1], rule pool_step.test) (simp_all add: demo_simps)
  have 3: "reachable 1 FCFS ?p3"
    by (rule reachable.step [OF 2], rule pool_step.take) (simp_all add: demo_simps)
  have "reachable 1 FCFS (?p3\<lparr>job_queue_ref := enqueue (job_queue_ref ?p3) (demo_job 2),
      submitted := demo_job 2 # submitted ?p3\<rparr>)"
    by (rule submit_quiet [OF 3]) (simp_all add: demo_simps)
  then show ?thesis by (simp add: demo_simps demo_busy_def)
qed

lemma demo_joining_reachable: "reachable 1 FCFS demo_joining"
proof -
  let ?p1 = "demo_busy\<lparr>running := False, stop_at := Running_Cleared\<rparr>"
  let ?p2 = "?p1\<lparr>job_queue_ref := stop_queue (job_queue_ref ?p1), stop_at := Queue_Stopped\<rparr>"
  have 1: "reachable 1 FCFS ?p1"
    by (rule reachable.step [OF demo_busy_reachable], rule pool_step.stop_clear)
      (simp_all add: demo_busy_def demo_simps)
  have 2: "reachable 1 FCFS ?p2"
    by (rule reachable.step [OF 1], rule pool_step.stop_queue_flag)
      (simp_all add: demo_busy_def demo_simps)
  have "reachable 1 FCFS (?p2\<lparr>workers := notify_all (workers ?p2), stop_at := Joining\<rparr>)"
    by (rule reachable.step [OF 2], rule pool_step.stop_notify)
      (simp_all add: demo_busy_def demo_simps)
  then show ?thesis by (simp add: demo_joining_def demo_busy_def demo_simps)
qed

theorem pool_conserves_jobs_witness:
  "image_mset job_key (mset (submitted demo_busy)) =
     image_mset job_key (mset (queued_jobs (job_queue_ref demo_busy)))
     + wsum held (workers demo_busy) + image_mset (job_key \<circ> fst) (mset (completed demo_busy))"
  by (rule pool_conserves_jobs [OF demo_busy_reachable])

lemma pool_reports_once_example:
  "image_mset jr_job_id (mset (results demo_joining)) = {#}"
  using pool_reports_once [OF demo_joining_reachable]
  by (simp add: demo_joining_def demo_busy_def demo_simps wsum_def)

definition demo_reported :: pool where
  "demo_reported = report 0 (demo_job 1) new_execution_result demo_busy"

lemma demo_reported_reachable: "reachable 1 FCFS demo_reported"
  unfolding demo_reported_def
  by (rule reachable.step [OF demo_busy_reachable], rule pool_step.report_result [of _ 0 "demo_job 1"])
    (simp_all add: demo_busy_def demo_simps same_job_def new_execution_result_def)

lemma promise_set_once_example:
  "\<not> terminated (fulfil 0 (demo_job 1) new_execution_result demo_reported)"
proof -
  have "count (image_mset result_promise (mset (submitted demo_reported))) (Some a) \<le> 1" for a
    by (simp add: demo_reported_def demo_busy_def demo_simps demo_job_def new_job_def)
  then show ?thesis
    using promise_set_once [OF demo_reported_reachable, of 0 "demo_job 1" new_execution_result]
    by (simp add: demo_reported_def demo_busy_def demo_simps)
qed

lemma stop_returns_example:
  "\<exists>p'. internal_step demo_joining p' \<and> (1::nat) \<le> 4 * length (workers demo_joining) + 2"
proof -
  have "\<exists>p'. internal_step demo_joining p'"
    by (rule joining_progress [OF shutdown_ok_reachable [OF demo_joining_reachable]])
      (simp_all add: demo_joining_def demo_busy_def demo_simps)
  then obtain p' where p': "internal_step demo_joining p'" by blast
  then have "(internal_step ^^ 1) demo_joining p'" by (simp only: relpowp_1)
  moreover have "stop_at demo_joining = Joining" by (simp add: demo_joining_def)
  ultimately show ?thesis
    using stop_returns [OF demo_joining_reachable, of 1 p'] p' by blast
qed

definition demo_joined :: pool where
  "demo_joined = demo_joining\<lparr>workers := [Exited], stop_at := Joined,
     results := [make_result (demo_job 1) new_execution_result], promises := [1 \<mapsto> 1],
     completed := [(demo_job 1, new_execution_result)]\<rparr>"

lemma demo_joined_run: "pool_step\<^sup>*\<^sup>* demo_joining demo_joined"
proof -
  let ?r = "new_execution_result"
  let ?p1 = "report 0 (demo_job 1) ?r demo_joining"
  let ?p2 = "fulfil 0 (demo_job 1) ?r ?p1"
  let ?p3 = "loop_test 0 ?p2"
  note ds = demo_joining_def demo_busy_def demo_simps demo_job_def new_job_def
  have 1: "pool_step demo_joining ?p1"
    by (rule pool_step.report_result [of _ 0 "demo_job 1"])
      (simp_all add: ds same_job_def new_execution_result_def)
  have 2: "pool_step ?p1 ?p2" by (rule pool_step.fulfil_promise) (simp_all add: ds)
  have 3: "pool_step ?p2 ?p3" by (rule pool_step.test) (simp_all add: ds)
  have 4: "pool_step ?p3 (?p3\<lparr>stop_at := Joined\<rparr>)"
    by (rule pool_step.stop_join) (simp_all add: ds)
  have "?p3\<lparr>stop_at := Joined\<rparr> = demo_joined"
    by (simp add: ds demo_joined_def promise_value_def new_execution_result_def)
  with 1 2 3 4 show ?thesis by (metis converse_rtranclp_into_rtranclp rtranclp.rtrancl_refl)
qed

theorem stop_abandons_jobs_witness:
  "stop_at demo_joined = Joined \<and> queued_jobs (job_queue_ref demo_joined) = [demo_job 2]
   \<and> length (completed demo_joined) \<le> length (completed demo_joining) + length (workers demo_joining)
   \<and> fst (dequeue (job_queue_ref demo_joined)) \<noteq> Nullopt \<and> set (workers demo_joined) \<subseteq> {Exited}
   \<and> promises demo_joined 2 = None"
proof -
  have "count (image_mset result_promise (mset (submitted demo_joined))) (Some a) \<le> 1" for a
    by (simp add: demo_joined_def demo_joining_def demo_busy_def demo_simps demo_job_def new_job_def)
  from stop_abandons_jobs [OF demo_joining_reachable _ demo_joined_run this] show ?thesis
    by (simp add: demo_joined_def demo_joining_def demo_busy_def demo_job_def new_job_def)
qed

end
