(* ===== verification/Executor.thy ===== *)
theory Executor
  imports Isolator
begin

text \<open>
  The executor, \<open>src/Executor.cpp\<close>: one burst of a job with fresh limiter, watchdog and filter,
  the built-in commands, and shell pipelines. The objects an execution creates are destroyed in
  reverse order when it returns.
\<close>

section \<open>Executing a job\<close>

text \<open>The factories: limits of the cgroup limiter, the watchdog to copy, whether to filter.\<close>

record factories =
  limiter_factory :: "(int \<times> int \<times> int \<times> int) option"
  watchdog_factory :: "watchdog option"
  sec_policy_factory :: bool

datatype exec_status = Exec_Returned | Exec_Threw | Exec_Terminated | Exec_Exit

record execution =
  ex_result :: execution_result
  ex_job :: job
  ex_status :: exec_status

definition executed :: "execution_result \<Rightarrow> job \<Rightarrow> exec_status \<Rightarrow> execution" where
  "executed r j st = \<lparr>ex_result = r, ex_job = j, ex_status = st\<rparr>"

text \<open>\<open>True\<close> when the builtin returns; \<open>exit\<close> does not.\<close>

definition handleBuiltin :: "kernel \<Rightarrow> command \<Rightarrow> bool os" where
  "handleBuiltin k c =
     (if executable c = ''exit'' then do { perform k (Exit 0); ret False }
      else if executable c = ''cd'' then
        (case arguments c of
           _ # dir # _ \<Rightarrow> do {
             r \<leftarrow> invoke k (Chdir dir);
             (if rv r \<noteq> 0 then perform k (Perror ''cd failed'') else ret ());
             ret True }
         | _ \<Rightarrow> do { perform k (Print (''cd: missing argument'' @ newline)); ret True })
      else ret True)"

definition make_limiter :: "kernel \<Rightarrow> factories \<Rightarrow> string option os" where
  "make_limiter k f =
     (case limiter_factory f of None \<Rightarrow> ret None
      | Some (cpu, period, mem, pids) \<Rightarrow> do {
          path \<leftarrow> CgroupV2Limiter k cpu period mem pids; ret (Some path) })"

definition make_policy :: "kernel \<Rightarrow> factories \<Rightarrow> nat option os" where
  "make_policy k f = (if sec_policy_factory f then SeccompDenylistPolicy k else ret None)"

definition destroy_guards ::
    "kernel \<Rightarrow> string option \<Rightarrow> watchdog option \<Rightarrow> nat option \<Rightarrow> unit os" where
  "destroy_guards k limiter wd ctx = do {
     SeccompDenylistPolicy_destroy k ctx;
     (case wd of None \<Rightarrow> ret () | Some w \<Rightarrow> watchdog_destroy k w);
     (case limiter of None \<Rightarrow> ret () | Some path \<Rightarrow> CgroupV2Limiter_destroy k path) }"

text \<open>
  An exception that nothing catches ends the process without running the destructors.
\<close>

definition execute :: "kernel \<Rightarrow> nat \<Rightarrow> factories \<Rightarrow> job \<Rightarrow> execution option os" where
  "execute k fuel f j =
     (if isEmpty (cmd j)
      then ret (Some (executed (new_execution_result\<lparr>success := True\<rparr>) j Exec_Returned))
      else if executable (cmd j) = ''cd'' \<or> executable (cmd j) = ''exit'' then do {
        b \<leftarrow> handleBuiltin k (cmd j);
        ret (Some (if b then executed (new_execution_result\<lparr>success := True, exit_code := 0\<rparr>) j Exec_Returned
                   else executed new_execution_result j Exec_Exit)) }
      else do {
        limiter \<leftarrow> make_limiter k f;
        ctx \<leftarrow> make_policy k f;
        b \<leftarrow> isolateAndRun k fuel (cmd j) (sint (pid j)) (unique_id j) (time_quantum j)
               limiter (watchdog_factory f) ctx;
        (case b of
           None \<Rightarrow> ret None
         | Some x \<Rightarrow>
             (let j' = j\<lparr>pid := word_of_int (b_pid x), unique_id := b_unique_id x\<rparr>
              in case b_status x of
                   Threw \<Rightarrow> ret (Some (executed (b_result x) j' Exec_Threw))
                 | Terminated \<Rightarrow> ret (Some (executed (b_result x) j' Exec_Terminated))
                 | Returned \<Rightarrow> do {
                     destroy_guards k limiter (b_watchdog x) ctx;
                     ret (Some (executed (b_result x) j' Exec_Returned)) })) })"

text \<open>The loop over finished background processes, with fuel.\<close>

fun reapZombies :: "kernel \<Rightarrow> nat \<Rightarrow> unit option os" where
  "reapZombies k 0 = ret None"
| "reapZombies k (Suc fuel) = do {
     r \<leftarrow> invoke k (Waitpid (-1) [''WNOHANG'']);
     if 0 < rv r
     then do {
       perform k (Print (''[Background process '' @ show_int (rv r) @ '' finished]'' @ newline));
       reapZombies k fuel }
     else ret (Some ()) }"

section \<open>Pipelines\<close>

text \<open>
  The child of stage \<open>i\<close>: connect the pipes, open the redirections, run the program. A null
  first argument, from a stage without words, is written as the empty string.
\<close>

definition redirect_file :: "kernel \<Rightarrow> string \<Rightarrow> open_mode \<Rightarrow> int \<Rightarrow> unit os" where
  "redirect_file k f m std =
     (if f = [] then ret () else do { r \<leftarrow> invoke k (Open f m); redirect_fd k (rv r) std })"

definition stage_child :: "kernel \<Rightarrow> command \<Rightarrow> bool \<Rightarrow> int \<Rightarrow> (int \<times> int) option \<Rightarrow> child_outcome os" where
  "stage_child k c first prev_fd fds = do {
     (if first then ret () else redirect_fd k prev_fd 0);
     (case fds of None \<Rightarrow> ret ()
      | Some (rd, wr) \<Rightarrow> do { redirect_fd k wr 1; perform k (Close rd) });
     redirect_file k (redirectOutput c) Wr_Create_Trunc 1;
     redirect_file k (redirectInput c) Rd_Only 0;
     r \<leftarrow> invoke k (Execvp (case arguments c of [] \<Rightarrow> [] | a # _ \<Rightarrow> a) (arguments c));
     if rv r = -1 then do {
       perform k (Print (''Command not found: '' @ executable c @ newline));
       perform k (Exit 1); ret (Child_Returned 1) }
     else ret Child_Execed }"

text \<open>
  How the loop over the stages ends: in the parent with all children started, in the parent with
  a failed \<open>pipe\<close> or \<open>fork\<close>, or in a child.
\<close>

datatype stages_end = All_Started "int list" | Stage_Failed | In_Child child_outcome

fun run_stages :: "kernel \<Rightarrow> command list \<Rightarrow> bool \<Rightarrow> int \<Rightarrow> int list \<Rightarrow> stages_end os" where
  "run_stages k [] first prev_fd children = ret (All_Started children)"
| "run_stages k (c # cs) first prev_fd children = do {
     p \<leftarrow> (if cs \<noteq> [] then do { r \<leftarrow> invoke k Pipe; ret (Some r) } else ret None);
     if (case p of Some r \<Rightarrow> rv r < 0 | None \<Rightarrow> False)
     then do { perform k (Perror ''Pipe failed''); ret Stage_Failed }
     else do {
       f \<leftarrow> invoke k Fork;
       if rv f < 0 then do { perform k (Perror ''Fork failed''); ret Stage_Failed }
       else if rv f = 0
       then do { oc \<leftarrow> stage_child k c first prev_fd (map_option pipe_fds p); ret (In_Child oc) }
       else do {
         (if first then ret () else perform k (Close prev_fd));
         (case p of None \<Rightarrow> ret () | Some r \<Rightarrow> perform k (Close (snd (pipe_fds r))));
         run_stages k cs False
           (case p of Some r \<Rightarrow> fst (pipe_fds r) | None \<Rightarrow> prev_fd) (children @ [rv f]) } } }"

text \<open>The result a pipeline takes from the status of its last stage.\<close>

definition final_result :: "int32 \<Rightarrow> execution_result \<Rightarrow> execution_result" where
  "final_result st res =
     (if WIFEXITED st \<or> WIFSIGNALED st then the (classify st res) else res)"

text \<open>Waiting for the stages; the status of the last one is the pipeline's.\<close>

fun wait_stages :: "kernel \<Rightarrow> int list \<Rightarrow> int \<Rightarrow> execution_result \<Rightarrow> execution_result os" where
  "wait_stages k [] final res = ret res"
| "wait_stages k (p # ps) final res = do {
     r \<leftarrow> invoke k (Waitpid p []);
     wait_stages k ps final
       (if p = final then final_result (wait_status r) res else res) }"

datatype pipeline_end = Pipeline_Result execution_result | Pipeline_Job execution | Pipeline_Child child_outcome

definition executePipeline :: "kernel \<Rightarrow> nat \<Rightarrow> factories \<Rightarrow> command list \<Rightarrow> pipeline_end option os" where
  "executePipeline k fuel f pl =
     (let res = new_execution_result\<lparr>success := True\<rparr>
      in case pl of
           [] \<Rightarrow> ret (Some (Pipeline_Result res))
         | [c] \<Rightarrow> do {
             x \<leftarrow> execute k fuel f (new_job 0 c None);
             ret (map_option Pipeline_Job x) }
         | _ \<Rightarrow> do {
             e \<leftarrow> run_stages k pl True (-1) [];
             (case e of
                Stage_Failed \<Rightarrow> ret (Some (Pipeline_Result (res\<lparr>success := False\<rparr>)))
              | In_Child oc \<Rightarrow> ret (Some (Pipeline_Child oc))
              | All_Started children \<Rightarrow>
                  if isBackground (last pl) then ret (Some (Pipeline_Result res))
                  else do {
                    r \<leftarrow> wait_stages k children (last children) res;
                    ret (Some (Pipeline_Result r)) }) })"

section \<open>Properties of pipelines\<close>

definition fork_failed :: "history \<Rightarrow> bool" where
  "fork_failed h \<longleftrightarrow> (\<exists>r. (Fork, r) \<in> set h \<and> rv r < 0)"

lemma fork_failed_simps [simp]:
  "\<not> fork_failed []" "fork_failed ((c, r) # h) \<longleftrightarrow> c = Fork \<and> rv r < 0 \<or> fork_failed h"
  "fork_failed (h @ h') \<longleftrightarrow> fork_failed h \<or> fork_failed h'"
  by (auto simp: fork_failed_def)

text \<open>What the parent holds when the loop ends, given what it held before.\<close>

definition stages_fds :: "nat \<Rightarrow> bool \<Rightarrow> int multiset \<Rightarrow> stages_end \<Rightarrow> history \<Rightarrow> bool" where
  "stages_fds n alone held e h =
     (case e of
        All_Started ps \<Rightarrow> obtained h + held = released h \<and> length ps = n \<and> \<not> fork_failed h
      | Stage_Failed \<Rightarrow> (\<exists>m. obtained h + held = released h + m \<and> size m \<le> 3 \<and>
            (fork_failed h \<and> \<not> alone \<longrightarrow> m \<noteq> {#}))
      | In_Child oc \<Rightarrow> True)"

lemma stage_child_emits: "emits (stage_child k c first prev fds) (\<lambda>_ _. True)"
proof -
  have r: "emits (redirect_file k f m std) (\<lambda>_ _. True)" for f m std
    unfolding redirect_file_def redirect_fd_def by (intro emits_rules) simp_all
  have p: "emits (case fds of None \<Rightarrow> ret ()
      | Some (rd, wr) \<Rightarrow> do { redirect_fd k wr 1; perform k (Close rd) }) (\<lambda>_ _. True)"
    unfolding redirect_fd_def by (cases fds) (auto intro!: emits_rules)
  have q: "emits (if first then ret () else redirect_fd k prev 0) (\<lambda>_ _. True)"
    unfolding redirect_fd_def by (intro emits_rules) simp_all
  show ?thesis
    unfolding stage_child_def
    by (intro emits_bind [OF q] emits_bind [OF p] emits_bind [OF r] emits_rules) simp_all
qed

lemma run_stages_fds:
  "cs \<noteq> [] \<Longrightarrow> emits (run_stages k cs first prev ch)
     (\<lambda>e h. stages_fds (length ch + length cs) (first \<and> length cs = 1)
        (if first then {#} else {#prev#}) e h)"
proof (induction cs arbitrary: first prev ch)
  case (Cons c cs)
  show ?case
  proof (cases "cs = []")
    case True
    then show ?thesis
      unfolding run_stages.simps
      by (auto simp: stages_fds_def
          intro!: emits_rules emits_bind [OF stage_child_emits])
  next
    case False
    note IH = Cons.IH [OF False, of False]
    from False show ?thesis
      unfolding run_stages.simps
      apply (simp only: if_True not_False_eq_True State_Monad.bind_assoc bind_left_identity option.case option.map)
      apply (intro emits_invoke_bind emits_if emits_perform_bind emits_ret emits_if_bind emits_ret_bind
          emits_bind [OF stage_child_emits] emits_mono [OF IH])
      apply (auto simp: stages_fds_def split: stages_end.splits)
      done
  qed
qed simp

lemma wait_stages_emits:
  "distinct ps \<Longrightarrow> final \<in> set ps \<Longrightarrow> emits (wait_stages k ps final res)
     (\<lambda>x h. calls h = map (\<lambda>p. Waitpid p []) ps \<and>
        (\<exists>r. (Waitpid final [], r) \<in> set h \<and> x = final_result (wait_status r) res))"
proof (induction ps arbitrary: res)
  case (Cons p ps)
  have other: "final \<notin> set qs \<Longrightarrow>
      emits (wait_stages k qs final x) (\<lambda>y h. y = x \<and> calls h = map (\<lambda>p. Waitpid p []) qs)" for qs x
  proof (induction qs)
    case (Cons q qs)
    then show ?case
      unfolding wait_stages.simps by (auto intro!: emits_invoke_bind elim!: emits_mono)
  qed (auto intro: emits_ret)
  show ?case
  proof (cases "p = final")
    case True
    with Cons.prems show ?thesis
      unfolding wait_stages.simps by (auto intro!: emits_invoke_bind emits_mono [OF other [of ps]])
  next
    case False
    with Cons.prems Cons.IH [of res] show ?thesis
      unfolding wait_stages.simps by (auto intro!: emits_invoke_bind elim!: emits_mono)
  qed
qed simp

text \<open>
  C38: the parent of a pipeline of at least two stages starts one child per stage and closes every
  pipe end it opened. If a \<open>pipe\<close> or \<open>fork\<close> fails on the way it returns with at most three
  descriptors left open, and after a failed \<open>fork\<close> always with at least one: the early returns
  skip the clean-up.
\<close>

theorem pipeline_descriptors:
  assumes "2 \<le> length cs"
  shows "emits (run_stages k cs True (-1) []) (\<lambda>e h.
     case e of
       All_Started ps \<Rightarrow> obtained h = released h \<and> length ps = length cs \<and> \<not> fork_failed h
     | Stage_Failed \<Rightarrow> (\<exists>m. obtained h = released h + m \<and> size m \<le> 3 \<and>
           (fork_failed h \<longrightarrow> m \<noteq> {#}))
     | In_Child oc \<Rightarrow> True)"
proof -
  from assms have "cs \<noteq> []" "length cs \<noteq> 1" by auto
  then show ?thesis
    using run_stages_fds [of cs k True "-1" "[]"]
    by (auto elim!: emits_mono simp: stages_fds_def split: stages_end.splits)
qed

theorem pipeline_descriptors_witness:
  "\<forall>k. emits (run_stages k [parseLine ''ls'', parseLine ''wc''] True (-1) []) (\<lambda>e h.
     case e of
       All_Started ps \<Rightarrow> obtained h = released h \<and> length ps = 2 \<and> \<not> fork_failed h
     | Stage_Failed \<Rightarrow> (\<exists>m. obtained h = released h + m \<and> size m \<le> 3)
     | In_Child oc \<Rightarrow> True)"
  by (rule allI, rule emits_mono [OF pipeline_descriptors]) (auto split: stages_end.splits)

text \<open>
  The result of a pipeline is that of its last stage: with distinct children, every one of
  them is waited for in order and the exit code or signal of the last child, decoded from its wait
  status, is the result; the other stages do not influence it.
\<close>

lemma pipeline_result_is_last:
  assumes "distinct children" and "children \<noteq> []"
  shows "emits (wait_stages k children (last children) res)
     (\<lambda>x h. calls h = map (\<lambda>p. Waitpid p []) children \<and>
        (\<exists>r. (Waitpid (last children) [], r) \<in> set h \<and> x = final_result (wait_status r) res))"
  using assms by (intro wait_stages_emits) simp_all

lemma pipeline_result_is_last_example:
  "\<forall>k. emits (wait_stages k [7, 8] 8 new_execution_result)
     (\<lambda>x h. calls h = [Waitpid 7 [], Waitpid 8 []] \<and>
        (\<exists>r. (Waitpid 8 [], r) \<in> set h \<and> x = final_result (wait_status r) new_execution_result))"
  using pipeline_result_is_last [of "[7, 8]" _ new_execution_result] by simp

section \<open>Guards and preemption\<close>

text \<open>The calls that start a process or put limits on one.\<close>

fun guards :: "syscall \<Rightarrow> bool" where
  "guards (Thread_start n p) = True"
| "guards (Write_stream f t) = True"
| "guards (Seccomp_load c) = True"
| "guards (Clone fs a) = True"
| "guards (Create_directories d) = True"
| "guards _ = False"

definition unguarded :: "history \<Rightarrow> bool" where
  "unguarded h \<longleftrightarrow> list_all (\<lambda>c. \<not> guards c) (calls h)"

lemma unguarded_simps [simp]:
  "unguarded []" "unguarded ((c, r) # h) \<longleftrightarrow> \<not> guards c \<and> unguarded h"
  "unguarded (h @ h') \<longleftrightarrow> unguarded h \<and> unguarded h'"
  by (simp_all add: unguarded_def)

definition adds_no_guard :: "'a os \<Rightarrow> bool" where
  "adds_no_guard m \<longleftrightarrow> emits m (\<lambda>_ h. unguarded h)"

lemma no_guard_emits: "adds_no_guard m \<Longrightarrow> emits m (\<lambda>_ h. unguarded h)"
  by (simp add: adds_no_guard_def)

lemma no_guard_rules:
  "adds_no_guard (ret a)"
  "\<not> guards c \<Longrightarrow> adds_no_guard (invoke k c)" "\<not> guards c \<Longrightarrow> adds_no_guard (perform k c)"
  by (auto simp: adds_no_guard_def intro: emits_ret emits_invoke emits_perform)

lemma no_guard_bind: "adds_no_guard m \<Longrightarrow> (\<And>a. adds_no_guard (f a)) \<Longrightarrow> adds_no_guard (m \<bind> f)"
  unfolding adds_no_guard_def
  by (rule emits_bind [where P = "\<lambda>_ h. unguarded h"], assumption, rule emits_mono) auto

lemma no_guard_cases:
  "adds_no_guard m \<Longrightarrow> adds_no_guard n \<Longrightarrow> adds_no_guard (if b then m else n)"
  "adds_no_guard m \<Longrightarrow> (\<And>y. adds_no_guard (f y)) \<Longrightarrow> adds_no_guard (case x of None \<Rightarrow> m | Some y \<Rightarrow> f y)"
  "(\<And>y. adds_no_guard (g y)) \<Longrightarrow> (\<And>y. adds_no_guard (e y)) \<Longrightarrow>
     adds_no_guard (case z of Inl y \<Rightarrow> g y | Inr y \<Rightarrow> e y)"
  by (auto split: option.split sum.split)

lemmas no_guards = no_guard_rules no_guard_bind no_guard_cases

lemma no_guard_wait: "adds_no_guard (wait_child k fuel p q res)"
proof -
  have "adds_no_guard (wait_quantum k fuel p q e res)" for q e
    by (induction fuel arbitrary: e) (auto intro!: no_guards)
  then show ?thesis
    unfolding wait_child_def wait_blocking_def by (intro no_guards) simp_all
qed

lemma no_guard_stop: "adds_no_guard (watchdog_stop k w)" "adds_no_guard (watchdogs_stop k ws)"
  by (induction k w and k ws rule: watchdog_stop_watchdogs_stop.induct)
     (auto simp: watcher_stop_def intro!: no_guards)

lemma no_guard_collect: "adds_no_guard (collect_output k fuel rootfs n res)"
proof -
  have "adds_no_guard (read_loop k fuel fd out)" for fd out
    by (induction fuel arbitrary: out) (auto intro!: no_guards)
  then show ?thesis
    unfolding collect_output_def read_and_delete_def Let_def by (intro no_guards) simp_all
qed

lemma unguarded_no:
  "unguarded h \<Longrightarrow> (Clone fs a, q) \<notin> set h" "unguarded h \<Longrightarrow> Create_directories d \<notin> set (calls h)"
  by (force simp: unguarded_def calls_def list_all_iff)+

lemma no_guard_finish: "adds_no_guard (finish k fuel rootfs p n wd q)"
  unfolding finish_def teardownRootfs_def
  by (intro no_guards no_guard_wait no_guard_stop no_guard_collect)

text \<open>
  C39: a resumed job runs unguarded. When an execution continues a preempted process (positive
  pid), it sends SIGCONT and then clones nothing, starts no watchdog thread, makes no directory and
  puts the process into no cgroup. The limiter and the watchdog that the caller made for this burst
  are not used: from the second burst on neither the wall-clock timeout nor the new limits apply.
\<close>

theorem resumed_burst_unguarded:
  assumes "0 < p" and "\<not> isEmpty c"
  shows "emits (isolateAndRun k fuel c p uid quantum limiter wd ctx)
     (\<lambda>_ h. unguarded h \<and> (\<exists>x y t. h = (Absolute ''rootfs_base'', x) # (Kill (- p) 18, y) # t))"
  using assms unfolding isolateAndRun_def Let_def prepareRootfs_def
  by (auto intro!: emits_invoke_bind emits_perform_bind
      emits_mono [OF no_guard_finish [THEN no_guard_emits]])

theorem resumed_burst_unguarded_witness:
  "\<forall>k. emits (isolateAndRun k 100 (parseLine ''/cpu_hog'') 42 1 2000 (Some ''/sys/fs/cgroup/isolyx_1'')
       (Some (TimeoutWatchdog 2000 new_watcher)) None)
     (\<lambda>_ h. unguarded h \<and> (\<exists>x y t. h = (Absolute ''rootfs_base'', x) # (Kill (-42) 18, y) # t))"
proof -
  have "\<not> isEmpty (parseLine ''/cpu_hog'')" by code_simp
  from resumed_burst_unguarded [OF _ this, of 42] show ?thesis by simp
qed

lemma isolate_emits: "emits (isolateAndRun k fuel c p uid q limiter wd ctx) (\<lambda>_ _. True)"
  unfolding isolateAndRun_def Let_def
  apply (intro emits_if emits_ret emits_bind [OF balanced_sync(2) [THEN balanced_emits]]
      emits_bind [OF spawn_fds] emits_perform_bind)
  subgoal by simp
  subgoal for rootfs h sp h'
    by (cases sp) (auto intro!: emits_ret emits_mono [OF finish_fds])
  subgoal by (rule emits_mono [OF finish_fds]) simp
  done

section \<open>The group of a job\<close>

text \<open>
  What \<open>isolateAndRun\<close> leaves in the history when it returns: no directory was made; a child that
  was started is the job's process and its number was written to the list of the limiter's group;
  and a fresh job can only have been preempted after a child was started.
\<close>

definition enters_group :: "string option \<Rightarrow> int \<Rightarrow> burst \<Rightarrow> history \<Rightarrow> bool" where
  "enters_group limiter p b h \<longleftrightarrow>
     (\<forall>d. Create_directories d \<notin> set (calls h)) \<and>
     (\<forall>a q. (Clone clone_flags a, q) \<in> set h \<and> rv q \<noteq> -1 \<longrightarrow>
        b_pid b = rv q \<and> set (apply_call limiter (rv q)) \<subseteq> set (calls h)) \<and>
     (preempted (b_result b) \<and> p \<le> 0 \<longrightarrow> (\<exists>a q. (Clone clone_flags a, q) \<in> set h \<and> rv q \<noteq> -1))"

lemma finish_pid: "emits (finish k fuel rootfs p n wd q) (\<lambda>r h. unguarded h \<and> (\<forall>b. r = Some b \<longrightarrow> b_pid b = p))"
  unfolding finish_def teardownRootfs_def
  by (rule emits_bind [OF no_guard_wait [THEN no_guard_emits]])
     (auto split: option.split sum.split intro!: emits_ret emits_if
       emits_bind [OF no_guard_stop(1) [THEN no_guard_emits]]
       emits_bind [OF no_guard_collect [THEN no_guard_emits]])

lemma written_to_effects: "written_to f t h \<Longrightarrow> set (effects h) \<subseteq> {Open f Wr_Only} \<union> range (\<lambda>fd. Write fd t) \<union> range Close"
  unfolding written_to_def by (elim exE conjE) (auto simp: filter_empty_conv split: if_splits)

lemma not_called: "c \<notin> set (calls h) \<Longrightarrow> (c, r) \<notin> set h"
  by (force simp: calls_def)

lemma call_kinds: "effects h = cs \<Longrightarrow> c \<in> set (calls h) \<Longrightarrow> is_print c \<or> c \<in> set cs"
  by auto

text \<open>Of the calls of spawning only the one \<open>Clone\<close> starts a process, and none makes a directory.\<close>

lemma sets_up_group:
  assumes "sets_up limiter wd ctx rootfs c n child h"
  shows "Create_directories d \<notin> set (calls h)" and "(Clone clone_flags a, q) \<in> set h \<Longrightarrow> rv q = child"
    and "set (apply_call limiter child) \<subseteq> set (calls h)"
    and "\<exists>a q. (Clone clone_flags a, q) \<in> set h \<and> rv q \<noteq> -1"
proof -
  from assms obtain p r ha hw x hm where
    h: "h = [(Pipe, p), (Clone clone_flags (prepare_args c rootfs (fst (pipe_fds p)) ctx n), r)] @ ha @ hw @
      [(Close (fst (pipe_fds p)), x)] @ hm" and r: "rv r = child" "child \<noteq> -1"
    and ha: "effects ha = apply_call limiter child" and hw: "calls hw = watch_calls wd child"
    and hm: "maps_then_go child (snd (pipe_fds p)) hm"
    unfolding sets_up_def by blast
  let ?plain = "\<lambda>c. (\<forall>fs a. c \<noteq> Clone fs a) \<and> (\<forall>d. c \<noteq> Create_directories d)"
  have ha': "\<forall>c \<in> set (calls ha). ?plain c"
  proof
    fix c assume "c \<in> set (calls ha)"
    then have "is_print c \<or> c \<in> set (apply_call limiter child)" unfolding ha [symmetric] by auto
    then show "?plain c" by (auto simp: apply_call_def split: option.splits)
  qed
  have hw': "\<forall>c \<in> set (calls hw). ?plain c"
    unfolding hw by (auto simp: watch_calls_def starts_def split: option.split)
  have hm': "\<forall>c \<in> set (calls hm). ?plain c"
  proof
    fix c assume c: "c \<in> set (calls hm)"
    from hm obtain u g eu eg hu hg h1 h2 h3 y t where
      "hm = [(Getuid, u), (Getgid, g), (Getenv ''SUDO_UID'', eu), (Getenv ''SUDO_GID'', eg)] @ h1 @ h2 @ h3 @
        (Write (snd (pipe_fds p)) ''1'', y) # t"
      and w: "written_to (proc_file child ''uid_map'') (map_line hu) h1"
      "written_to (proc_file child ''setgroups'') ''deny'' h2"
      "written_to (proc_file child ''gid_map'') (map_line hg) h3" and t: "effects t = [Close (snd (pipe_fds p))]"
      unfolding maps_then_go_def by blast
    with c have "c \<in> {Getuid, Getgid, Getenv ''SUDO_UID'', Getenv ''SUDO_GID'', Write (snd (pipe_fds p)) ''1''} \<or>
        c \<in> set (calls h1) \<or> c \<in> set (calls h2) \<or> c \<in> set (calls h3) \<or> c \<in> set (calls t)"
      by auto
    then have "c \<in> {Getuid, Getgid, Getenv ''SUDO_UID'', Getenv ''SUDO_GID'', Write (snd (pipe_fds p)) ''1''} \<or>
        is_print c \<or> c \<in> set (effects h1) \<union> set (effects h2) \<union> set (effects h3) \<union> set (effects t)"
      using call_kinds [OF refl, of c] by blast
    with w [THEN written_to_effects] t show "?plain c" by auto
  qed
  show "Create_directories d \<notin> set (calls h)" unfolding h using ha' hw' hm' by auto
  show "rv q = child" if "(Clone clone_flags a, q) \<in> set h"
  proof -
    have "(Clone clone_flags a, q) \<notin> set ha \<union> set hw \<union> set hm"
      using ha' hw' hm' by (fastforce simp: calls_def)
    with that r show ?thesis unfolding h by auto
  qed
  show "set (apply_call limiter child) \<subseteq> set (calls h)" unfolding h ha [symmetric] by auto
  show "\<exists>a q. (Clone clone_flags a, q) \<in> set h \<and> rv q \<noteq> -1" unfolding h using r by auto
qed

lemma isolate_group:
  "emits (isolateAndRun k fuel c p uid quantum limiter wd ctx)
     (\<lambda>r h. \<forall>b. r = Some b \<and> b_status b = Returned \<longrightarrow> enters_group limiter p b h)"
proof -
  have pr: "emits (prepareRootfs k) (\<lambda>_ h. unguarded h)"
    unfolding prepareRootfs_def by (intro emits_rules) simp
  have sp: "enters_group limiter p b (h0 @ h1 @ h2)"
    if "unguarded h0" "sets_up limiter wd ctx rootfs c n child h1" "unguarded h2" "b_pid b = child"
    for b h0 rootfs n child h1 h2
  proof -
    note g = sets_up_group [OF that(2)] unguarded_no [OF that(1)] unguarded_no [OF that(3)]
    have "(Clone clone_flags a, q) \<in> set h1" if "(Clone clone_flags a, q) \<in> set (h0 @ h1 @ h2)" for a q
      using that g(5,7) by auto
    with g that(4) show ?thesis unfolding enters_group_def by auto
  qed
  show ?thesis
    unfolding isolateAndRun_def Let_def
    apply (intro emits_if emits_ret emits_bind [OF pr] emits_bind [OF spawn_emits] emits_perform_bind)
    subgoal by (simp add: enters_group_def new_execution_result_def)
    subgoal for rootfs h out h'
    proof (cases out)
      case (Spawned child n w)
      assume "unguarded h" "case out of
        Spawned child n w \<Rightarrow> sets_up limiter wd ctx rootfs c n child h'
      | Spawn_Failed n w \<Rightarrow> no_go h' \<and> (\<forall>a q. (Clone clone_flags a, q) \<in> set h' \<longrightarrow> rv q = -1)
          \<and> set (effects h') \<subseteq> {Pipe} \<union> range (Clone clone_flags)
      | Spawn_Threw child n w \<Rightarrow> no_go h' \<and> bad_identity h'
      | Spawn_Terminated \<Rightarrow> no_go h'"
      with Spawned sp show ?thesis by (auto intro!: emits_mono [OF finish_pid])
    next
      case (Spawn_Failed n w)
      assume "unguarded h" "case out of
        Spawned child n w \<Rightarrow> sets_up limiter wd ctx rootfs c n child h'
      | Spawn_Failed n w \<Rightarrow> no_go h' \<and> (\<forall>a q. (Clone clone_flags a, q) \<in> set h' \<longrightarrow> rv q = -1)
          \<and> set (effects h') \<subseteq> {Pipe} \<union> range (Clone clone_flags)
      | Spawn_Threw child n w \<Rightarrow> no_go h' \<and> bad_identity h'
      | Spawn_Terminated \<Rightarrow> no_go h'"
      with Spawn_Failed show ?thesis
        by (auto simp: enters_group_def new_execution_result_def unguarded_no intro!: emits_ret dest: call_kinds [OF refl])
    qed (auto intro!: emits_ret)
    subgoal by (rule emits_mono [OF finish_pid]) (auto simp: enters_group_def unguarded_no)
    done
qed

lemma no_guard_policy: "adds_no_guard (make_policy k f)"
proof -
  have "adds_no_guard (add_rules k c cs)" for c cs
    by (induction cs) (auto intro!: no_guards)
  then show ?thesis
    unfolding make_policy_def SeccompDenylistPolicy_def by (intro no_guards) simp_all
qed

text \<open>
  The guards of an execution are destroyed by ending the group: its list is read, what is on it is
  killed, and the directory is removed.
\<close>

lemma destroy_kills:
  "emits (destroy_guards k (Some path) wd ctx) (\<lambda>_ h. \<exists>h1 x h2 t.
     h = h1 @ (Read_stream (path @ ''/cgroup.procs''), x) # h2 \<and> unguarded h1 \<and>
     effects h2 = map (\<lambda>q. Kill q 9) (numbers x) @ t \<and> set t \<subseteq> {Remove path, Usleep 20000})"
proof -
  have t: "set (removal path m) \<subseteq> {Remove path, Usleep 20000}" for m
    by (induction m) auto
  have d: "emits (CgroupV2Limiter_destroy k path) (\<lambda>_ h. \<exists>x h2 t.
     h = (Read_stream (path @ ''/cgroup.procs''), x) # h2 \<and>
     effects h2 = map (\<lambda>q. Kill q 9) (numbers x) @ t \<and> set t \<subseteq> {Remove path, Usleep 20000})"
    by (rule emits_mono [OF limiter_destroy_emits]) (use t in \<open>fastforce\<close>)
  have s: "adds_no_guard (SeccompDenylistPolicy_destroy k ctx)"
    unfolding SeccompDenylistPolicy_destroy_def by (intro no_guards) simp
  have w: "adds_no_guard (case wd of None \<Rightarrow> ret () | Some w \<Rightarrow> watchdog_destroy k w)"
    unfolding watchdog_destroy_def by (intro no_guards no_guard_stop)
  have "\<exists>h1 x h2' t. hs @ hw @ h2 = h1 @ (Read_stream (path @ ''/cgroup.procs''), x) # h2' \<and> unguarded h1 \<and>
     effects h2' = map (\<lambda>q. Kill q 9) (numbers x) @ t \<and> set t \<subseteq> {Remove path, Usleep 20000}"
    if "unguarded hs" "unguarded hw" "\<exists>x h3 t. h2 = (Read_stream (path @ ''/cgroup.procs''), x) # h3 \<and>
     effects h3 = map (\<lambda>q. Kill q 9) (numbers x) @ t \<and> set t \<subseteq> {Remove path, Usleep 20000}" for hs hw h2
  proof -
    from that(3) obtain x h3 t where "h2 = (Read_stream (path @ ''/cgroup.procs''), x) # h3"
      "effects h3 = map (\<lambda>q. Kill q 9) (numbers x) @ t" "set t \<subseteq> {Remove path, Usleep 20000}" by blast
    with that(1,2) show ?thesis by (intro exI [of _ "hs @ hw"] exI [of _ x] exI [of _ h3] exI [of _ t]) simp
  qed
  then show ?thesis
    unfolding destroy_guards_def option.case
    by (intro emits_bind [OF s [THEN no_guard_emits]] emits_bind [OF w [THEN no_guard_emits]] emits_mono [OF d]) blast
qed

text \<open>
  The limiter makes one directory, its own group, and starts no process.
\<close>

lemma make_limiter_group:
  assumes "limiter_factory f = Some l"
  shows "emits (make_limiter k f) (\<lambda>lim h. \<exists>path. lim = Some path \<and>
     (\<forall>d. Create_directories d \<in> set (calls h) \<longleftrightarrow> d = path) \<and> (\<forall>fs a q. (Clone fs a, q) \<notin> set h))"
proof -
  obtain a b c d where l: "l = (a, b, c, d)" by (cases l)
  have "emits (CgroupV2Limiter k a b c d) (\<lambda>path h.
     (\<forall>d. Create_directories d \<in> set (calls h) \<longleftrightarrow> d = path) \<and> (\<forall>fs a q. (Clone fs a, q) \<notin> set h))"
  proof (rule emits_mono [OF limiter_constructor_emits])
    fix path h
    assume "\<exists>base n. path = base @ ''/isolyx_'' @ show_int (uint (n :: 32 word)) \<and>
       effects h = [Read_stream ''/proc/self/cgroup'',
         Append_stream (base @ ''/cgroup.subtree_control'') (''+cpu +memory +pids'' @ newline),
         Random_uint32, Create_directories path] @ limit_files path a b c d"
    then obtain base where e: "effects h = [Read_stream ''/proc/self/cgroup'',
         Append_stream (base @ ''/cgroup.subtree_control'') (''+cpu +memory +pids'' @ newline),
         Random_uint32, Create_directories path] @ limit_files path a b c d" by blast
    have f: "c' \<in> set (limit_files path a b c d) \<Longrightarrow> \<exists>f t. c' = Write_stream f t" for c'
      by (auto simp: limit_files_def split: if_splits)
    have "c' \<in> set (calls h) \<Longrightarrow> is_print c' \<or> c' \<in> {Read_stream ''/proc/self/cgroup'',
         Append_stream (base @ ''/cgroup.subtree_control'') (''+cpu +memory +pids'' @ newline),
         Random_uint32, Create_directories path} \<or> (\<exists>f t. c' = Write_stream f t)" for c'
      using call_kinds [OF e, of c'] f by auto
    from this [of "Create_directories _"] this [of "Clone _ _"]
    have "Create_directories d \<in> set (calls h) \<Longrightarrow> d = path" "Clone fs a \<notin> set (calls h)" for d fs a by auto
    moreover have "Create_directories path \<in> set (effects h)" unfolding e by simp
    then have "Create_directories path \<in> set (calls h)" by simp
    ultimately show "(\<forall>d. Create_directories d \<in> set (calls h) \<longleftrightarrow> d = path) \<and> (\<forall>fs a q. (Clone fs a, q) \<notin> set h)"
      using not_called [of "Clone _ _" h] by blast
  qed
  then show ?thesis
    unfolding make_limiter_def assms l by (auto intro!: emits_bind [of "CgroupV2Limiter k a b c d"] emits_ret)
qed

text \<open>
  \<open>kills_group path p e h\<close>: the history \<open>h\<close> of an execution \<open>e\<close> of a job whose process was \<open>p\<close> made
  one directory, \<open>path\<close>; a child that was started is the process of the job afterwards, and its number
  was written to the list of \<open>path\<close> before that list was read; whatever the reading gave is killed,
  once each, and nothing but the removal of the directory follows.
\<close>

definition kills_group :: "string \<Rightarrow> int \<Rightarrow> execution \<Rightarrow> history \<Rightarrow> bool" where
  "kills_group path p e h \<longleftrightarrow>
     (\<forall>d. Create_directories d \<in> set (calls h) \<longleftrightarrow> d = path) \<and>
     (\<exists>h1 x h2 t. h = h1 @ (Read_stream (path @ ''/cgroup.procs''), x) # h2 \<and>
        effects h2 = map (\<lambda>q. Kill q 9) (numbers x) @ t \<and> set t \<subseteq> {Remove path, Usleep 20000} \<and>
        (\<forall>a q. (Clone clone_flags a, q) \<in> set h \<and> rv q \<noteq> -1 \<longrightarrow>
           pid (ex_job e) = word_of_int (rv q) \<and>
           Write_stream (path @ ''/cgroup.procs'') (show_int (rv q) @ newline) \<in> set (calls h1)) \<and>
        (preempted (ex_result e) \<and> p \<le> 0 \<longrightarrow> (\<exists>a q. (Clone clone_flags a, q) \<in> set h1 \<and> rv q \<noteq> -1)))"

lemma kills_groupI:
  assumes lim: "\<forall>d. Create_directories d \<in> set (calls h0) \<longleftrightarrow> d = path" "\<forall>fs a q. (Clone fs a, q) \<notin> set h0"
    and pol: "unguarded h1" and iso: "enters_group (Some path) p b h2"
    and des: "\<exists>h4 x h5 t. h3 = h4 @ (Read_stream (path @ ''/cgroup.procs''), x) # h5 \<and> unguarded h4 \<and>
       effects h5 = map (\<lambda>q. Kill q 9) (numbers x) @ t \<and> set t \<subseteq> {Remove path, Usleep 20000}"
    and e: "ex_result e = b_result b" "pid (ex_job e) = word_of_int (b_pid b)"
  shows "kills_group path p e (h0 @ h1 @ h2 @ h3)"
proof -
  from des obtain h4 x h5 t where h3: "h3 = h4 @ (Read_stream (path @ ''/cgroup.procs''), x) # h5"
    and u: "unguarded h4" and k: "effects h5 = map (\<lambda>q. Kill q 9) (numbers x) @ t" "set t \<subseteq> {Remove path, Usleep 20000}"
    by blast
  have no: "(Clone fs a, q) \<notin> set h5" "Create_directories d \<notin> set (calls h5)" for fs a q d
  proof -
    have "Clone fs a \<notin> set (calls h5)" using call_kinds [OF k(1), of "Clone fs a"] k(2) by auto
    then show "(Clone fs a, q) \<notin> set h5" by (rule not_called)
    show "Create_directories d \<notin> set (calls h5)" using call_kinds [OF k(1), of "Create_directories d"] k(2) by auto
  qed
  have clone: "(Clone clone_flags a, q) \<in> set h2" if "(Clone clone_flags a, q) \<in> set (h0 @ h1 @ h2 @ h3)" for a q
    using that lim(2) unguarded_no(1) [OF pol] unguarded_no(1) [OF u] no(1) by (auto simp: h3)
  have "Create_directories d \<in> set (calls (h0 @ h1 @ h2 @ h3)) \<longleftrightarrow> d = path" for d
    using lim(1) unguarded_no(2) [OF pol] unguarded_no(2) [OF u] no(2) iso by (auto simp: h3 enters_group_def)
  moreover have "pid (ex_job e) = word_of_int (rv q) \<and>
      Write_stream (path @ ''/cgroup.procs'') (show_int (rv q) @ newline) \<in> set (calls (h0 @ h1 @ h2 @ h4))"
    if "(Clone clone_flags a, q) \<in> set (h0 @ h1 @ h2 @ h3)" "rv q \<noteq> -1" for a q
    using iso clone [OF that(1)] that(2) e(2) by (auto simp: enters_group_def apply_call_def)
  moreover have "\<exists>a q. (Clone clone_flags a, q) \<in> set (h0 @ h1 @ h2 @ h4) \<and> rv q \<noteq> -1"
    if "preempted (ex_result e)" "p \<le> 0"
    using iso that e(1) by (auto simp: enters_group_def)
  moreover have "h0 @ h1 @ h2 @ h3 = (h0 @ h1 @ h2 @ h4) @ (Read_stream (path @ ''/cgroup.procs''), x) # h5"
    by (simp add: h3)
  ultimately show ?thesis
    unfolding kills_group_def using k by blast
qed



end
