(* ===== verification/Json_Access.thy ===== *)
theory Json_Access
  imports Json_Roundtrip
begin

text \<open>
  The access functions of \<open>basic_json\<close> (\<open>include/json.hpp\<close>) that the program calls: assignment
  through \<open>operator[]\<close>, \<open>value\<close>, \<open>contains\<close>, iteration and \<open>get<std::string>\<close>.
\<close>

fun type_name :: "json \<Rightarrow> string" where
  "type_name J_null = ''null''"
| "type_name (J_object ms) = ''object''"
| "type_name (J_array vs) = ''array''"
| "type_name (J_string s) = ''string''"
| "type_name (J_bool b) = ''boolean''"
| "type_name (J_binary bs t) = ''binary''"
| "type_name J_discarded = ''discarded''"
| "type_name _ = ''number''"

text \<open>\<open>j[key] = v\<close>: null becomes an object; anything else that is not one is refused.\<close>

fun json_assign :: "string \<Rightarrow> json \<Rightarrow> json \<Rightarrow> json result" where
  "json_assign key v J_null = Inr (J_object (obj_put key v []))"
| "json_assign key v (J_object ms) = Inr (J_object (obj_put key v ms))"
| "json_assign key v j =
     Inl (Type_error 305 (''cannot use operator[] with a string argument with '' @ type_name j))"

text \<open>\<open>j[key]\<close> of a value that is not constant: the value after a possible insertion, and the member.\<close>

fun json_index :: "string \<Rightarrow> json \<Rightarrow> (json \<times> json) result" where
  "json_index key J_null = Inr (J_object [(key, J_null)], J_null)"
| "json_index key (J_object ms) =
     Inr (J_object (obj_index key ms), case map_of ms key of Some v \<Rightarrow> v | None \<Rightarrow> J_null)"
| "json_index key j =
     Inl (Type_error 305 (''cannot use operator[] with a string argument with '' @ type_name j))"

fun get_string :: "json \<Rightarrow> string result" where
  "get_string (J_string s) = Inr s"
| "get_string j = Inl (Type_error 302 (''type must be string, but is '' @ type_name j))"

fun json_value :: "string \<Rightarrow> string \<Rightarrow> json \<Rightarrow> string result" where
  "json_value key default_value (J_object ms) =
     (case map_of ms key of Some v \<Rightarrow> get_string v | None \<Rightarrow> Inr default_value)"
| "json_value key default_value j = Inl (Type_error 306 (''cannot use value() with '' @ type_name j))"

fun json_contains :: "string \<Rightarrow> json \<Rightarrow> bool" where
  "json_contains key (J_object ms) \<longleftrightarrow> map_of ms key \<noteq> None"
| "json_contains key j \<longleftrightarrow> False"

text \<open>What a range-based loop visits: null is empty, any other primitive is its only element.\<close>

fun json_items :: "json \<Rightarrow> json list" where
  "json_items (J_object ms) = map snd ms"
| "json_items (J_array vs) = vs"
| "json_items J_null = []"
| "json_items j = [j]"

text \<open>\<open>get<std::string>\<close> on every element, in order.\<close>

fun get_strings :: "json list \<Rightarrow> string list result" where
  "get_strings [] = Inr []"
| "get_strings (j # js) = bindr (get_string j) (\<lambda>s. bindr (get_strings js) (\<lambda>ss. Inr (s # ss)))"

lemma get_strings_map [simp]: "get_strings (map J_string ss) = Inr ss"
  by (induction ss) simp_all

end
