(* ===== verification/Observers.thy ===== *)
theory Observers
  imports Resource_Limits Json_Access
begin

text \<open>
  The observers of results: \<open>src/ResultCollector.cpp\<close>, \<open>src/LoggingObserver.cpp\<close> and
  \<open>src/DashboardObserver.cpp\<close>. The dashboard observer writes each result as a line of JSON to a
  pipe. An exception in an observer reaches the worker thread, where nothing catches it.
\<close>

section \<open>Model\<close>

definition Logging_onResult :: "kernel \<Rightarrow> job_result \<Rightarrow> unit os" where
  "Logging_onResult k r =
     perform k (Print (''[LoggingObserver] Job '' @ digits (unat (jr_job_id r)) @ '' ('' @ jr_command_line r @
       '') finished. Verdict: '' @ jr_verdict r @ '', Exit Code: '' @ show_int (sint (jr_exit_code r)) @
       '', Signal: '' @ show_int (sint (jr_term_signal r)) @ newline))"

definition EEXIST :: int where "EEXIST = 17"

definition DashboardObserver :: "kernel \<Rightarrow> string \<Rightarrow> unit os" where
  "DashboardObserver k pipe_path = do {
     r \<leftarrow> invoke k (Mkfifo pipe_path);
     if rv r = - 1 \<and> err_number r \<noteq> EEXIST
     then perform k (Perror ''[DashboardObserver] mkfifo failed'') else ret () }"

definition writeToPipe :: "kernel \<Rightarrow> string \<Rightarrow> string \<Rightarrow> unit os" where
  "writeToPipe k pipe_path text = do {
     r \<leftarrow> invoke k (Open pipe_path Wr_Nonblock);
     if rv r \<noteq> - 1
     then do {
       perform k (Write (rv r) text);
       perform k (Write (rv r) newline);
       perform k (Close (rv r)) }
     else ret () }"

text \<open>Conversions to \<open>json\<close>: an \<open>int\<close> is a signed, a \<open>uint64_t\<close> an unsigned number.\<close>

definition json_of_int :: "int32 \<Rightarrow> json" where
  "json_of_int x = J_int (word_of_int (sint x))"

definition result_json :: "job_result \<Rightarrow> json result" where
  "result_json r =
     bindr (json_assign ''job_id'' (J_uint (jr_job_id r)) J_null)
     (\<lambda>j. bindr (json_assign ''command_line'' (J_string (jr_command_line r)) j)
     (\<lambda>j. bindr (json_assign ''verdict'' (J_string (jr_verdict r)) j)
     (\<lambda>j. bindr (json_assign ''exit_code'' (json_of_int (jr_exit_code r)) j)
     (\<lambda>j. bindr (json_assign ''term_signal'' (json_of_int (jr_term_signal r)) j)
     (\<lambda>j. bindr (json_assign ''stdout_out'' (J_string (jr_stdout_out r)) j)
     (\<lambda>j. json_assign ''stderr_out'' (J_string (jr_stderr_out r)) j))))))"

definition Dashboard_onResult :: "kernel \<Rightarrow> string \<Rightarrow> job_result \<Rightarrow> unit result os" where
  "Dashboard_onResult k pipe_path r =
     (case bindr (result_json r) dump_json of
        Inl e \<Rightarrow> ret (Inl e)
      | Inr text \<Rightarrow> do { writeToPipe k pipe_path text; ret (Inr ()) })"

datatype observer = Logging_Observer | Dashboard_Observer string

definition onResult :: "kernel \<Rightarrow> job_result \<Rightarrow> observer \<Rightarrow> unit result os" where
  "onResult k r obs =
     (case obs of
        Logging_Observer \<Rightarrow> do { Logging_onResult k r; ret (Inr ()) }
      | Dashboard_Observer path \<Rightarrow> Dashboard_onResult k path r)"

definition addObserver :: "observer \<Rightarrow> observer list \<Rightarrow> observer list" where
  "addObserver obs observers = observers @ [obs]"

text \<open>The observers in order; an exception leaves the loop.\<close>

fun submitResult :: "kernel \<Rightarrow> job_result \<Rightarrow> observer list \<Rightarrow> unit result os" where
  "submitResult k r [] = ret (Inr ())"
| "submitResult k r (obs # observers) = do {
     x \<leftarrow> onResult k r obs;
     case x of Inl e \<Rightarrow> ret (Inl e) | Inr u \<Rightarrow> submitResult k r observers }"

section \<open>Printed text has no control characters\<close>

definition printable :: "string \<Rightarrow> bool" where
  "printable s \<longleftrightarrow> list_all (\<lambda>c. 0x20 \<le> (of_char c :: nat)) s"

lemma printable_append [simp]: "printable (s @ t) \<longleftrightarrow> printable s \<and> printable t" "printable []"
  "printable (c # s) \<longleftrightarrow> 0x20 \<le> (of_char c :: nat) \<and> printable s"
  by (auto simp: printable_def)

lemma printable_newline: "printable s \<Longrightarrow> CHR 0x0A \<notin> set s"
  by (auto simp: printable_def list_all_iff)

lemma printable_hex4: "printable (hex4 n)"
proof -
  have "list_all (\<lambda>d. 0x20 \<le> (of_char (''0123456789abcdef'' ! d) :: nat)) [0..<16]" by code_simp
  then have "0x20 \<le> (of_char (''0123456789abcdef'' ! d) :: nat)" if "d < 16" for d
    using that by (simp add: list_all_iff)
  then show ?thesis by (simp add: hex4_def Let_def)
qed

lemma printable_escape_char: "printable (escape_char c)"
proof (cases "of_char c < (0x80 :: nat)")
  case True
  then show ?thesis
  proof (cases rule: escape_small)
    case (short e)
    with True show ?thesis by (auto simp: escape_char_def short_escapes_def)
  qed (use True printable_hex4 in \<open>simp_all add: escape_char_def\<close>)
qed (simp add: escape_char_def)

lemma printable_quoted: "printable (quoted s)"
proof -
  have "printable (concat (map escape_char s))"
    by (induction s) (simp_all add: printable_escape_char)
  then show ?thesis by (simp add: quoted_def)
qed

lemma printable_digits: "printable (digits n)"
  using digits_are_digits [of n] by (auto simp: printable_def list_all_iff is_digit_def)

lemma printable_show_int: "printable (show_int i)"
  by (simp add: show_int_def printable_digits)

lemma printable_all_digits: "list_all is_digit ds \<Longrightarrow> printable ds"
  by (auto simp: printable_def list_all_iff is_digit_def)

lemma printable_float_text: "printable (float_text x)"
proof (cases "isfinite x")
  case True
  then obtain whole fraction E neg where p: "float_text x = (if neg then ''-'' else []) @ number_text whole fraction E"
    "number_parts whole fraction E" by (rule float_text_parts)
  have "printable (exponent_part E)"
    by (simp add: exponent_part_def exponent_text_def printable_digits split: option.split)
  with p show ?thesis by (simp add: number_text_def number_parts_def printable_all_digits)
qed (simp add: float_text_def dump_float_def)

lemma printable_separated: "printable sep \<Longrightarrow> list_all printable xs \<Longrightarrow> printable (separated sep xs)"
  by (induction sep xs rule: separated.induct) simp_all

lemma printable_json: "storable v \<Longrightarrow> printable (print_json v)"
proof (induction v)
  case (J_array vs)
  then have "list_all printable (map print_json vs)" by (simp add: list_all_iff)
  then show ?case by (simp add: printable_separated)
next
  case (J_object ms)
  have "printable (quoted k @ '':'' @ print_json v)" if "(k, v) \<in> set ms" for k v
    using that J_object.IH [OF that, of v] J_object.prems by (auto simp: list_all_iff printable_quoted)
  then have "list_all printable (map (\<lambda>(k, v). quoted k @ '':'' @ print_json v) ms)"
    by (auto simp: list_all_iff)
  then show ?case by (simp add: printable_separated)
qed (simp_all add: printable_quoted printable_digits printable_show_int printable_float_text)

section \<open>Results on the dashboard\<close>

definition result_members :: "job_result \<Rightarrow> (string \<times> json) list" where
  "result_members r =
     [(''command_line'', J_string (jr_command_line r)), (''exit_code'', json_of_int (jr_exit_code r)),
      (''job_id'', J_uint (jr_job_id r)), (''stderr_out'', J_string (jr_stderr_out r)),
      (''stdout_out'', J_string (jr_stdout_out r)), (''term_signal'', json_of_int (jr_term_signal r)),
      (''verdict'', J_string (jr_verdict r))]"

lemma result_json_members: "result_json r = Inr (J_object (result_members r))"
  by (simp add: result_json_def result_members_def obj_put_def)

definition utf8_result :: "job_result \<Rightarrow> bool" where
  "utf8_result r \<longleftrightarrow> list_all (valid_utf8 \<circ> bytes_of)
     [jr_command_line r, jr_verdict r, jr_stdout_out r, jr_stderr_out r]"

lemma result_keys_utf8: "list_all (\<lambda>k. valid_utf8 (bytes_of k)) (map fst (result_members r))"
  by (simp add: result_members_def valid_iff_dfa bytes_of_def next_state_def)

lemma result_ascending: "ascending (result_members r)"
  by (simp add: ascending_def result_members_def)

lemma utf8_result_json: "utf8_json (J_object (result_members r)) \<longleftrightarrow> utf8_result r"
  using result_keys_utf8 [of r]
  by (auto simp: result_members_def utf8_result_def json_of_int_def)

lemma storable_result: "utf8_result r \<Longrightarrow> storable (J_object (result_members r))"
  using result_keys_utf8 [of r] result_ascending [of r]
  by (auto simp: result_members_def utf8_result_def json_of_int_def)

text \<open>The calls of a written line.\<close>

definition pipe_line :: "string \<Rightarrow> string \<Rightarrow> history \<Rightarrow> bool" where
  "pipe_line pipe_path text h \<longleftrightarrow>
     (\<exists>r. rv r = - 1 \<and> h = [(Open pipe_path Wr_Nonblock, r)]) \<or>
     (\<exists>r r1 r2 r3. rv r \<noteq> - 1 \<and> h = [(Open pipe_path Wr_Nonblock, r), (Write (rv r) text, r1),
        (Write (rv r) newline, r2), (Close (rv r), r3)])"

lemma writeToPipe_emits: "emits (writeToPipe k path text) (\<lambda>u h. pipe_line path text h)"
  unfolding writeToPipe_def by (intro emits_rules) (auto simp: pipe_line_def)

lemma dashboard_emits:
  "emits (Dashboard_onResult k path r)
     (\<lambda>x h. if utf8_result r
        then x = Inr () \<and> (\<exists>text. pipe_line path text h \<and> CHR 0x0A \<notin> set text
               \<and> parse_json text = Inr (normal (J_object (result_members r))))
        else (\<exists>m. x = Inl (Type_error 316 m)) \<and> h = [])"
proof (cases "utf8_result r")
  case True
  let ?v = "J_object (result_members r)"
  let ?t = "print_json ?v"
  have st: "storable ?v" by (rule storable_result [OF True])
  have d: "dump_json ?v = Inr ?t" by (rule dump_json_print(1) [OF storable_utf8 [OF st]])
  have p: "parse_json ?t = Inr (normal ?v)" by (rule parse_printed [OF storable_parses [OF st]])
  have n: "CHR 0x0A \<notin> set ?t" by (rule printable_newline [OF printable_json [OF st]])
  show ?thesis
    unfolding Dashboard_onResult_def result_json_members bindr_simps d sum.case
    by (rule emits_bind [OF writeToPipe_emits], rule emits_ret) (use True p n in auto)
next
  case False
  then obtain m where "dump_json (J_object (result_members r)) = Inl (Type_error 316 m)"
    using dump_json_print(2) [of "J_object (result_members r)"] unfolding utf8_result_json by blast
  with False show ?thesis by (simp add: Dashboard_onResult_def result_json_members emits_ret)
qed

lemma collector_emits:
  "emits (submitResult k r (addObserver (Dashboard_Observer path) (addObserver Logging_Observer [])))
     (\<lambda>x h. \<exists>line a h'. h = (Print line, a) # h' \<and>
        (if utf8_result r
         then x = Inr () \<and> (\<exists>text. pipe_line path text h' \<and> CHR 0x0A \<notin> set text
                \<and> parse_json text = Inr (normal (J_object (result_members r))))
         else (\<exists>m. x = Inl (Type_error 316 m)) \<and> h' = []))"
proof -
  have "emits (onResult k r Logging_Observer)
      (\<lambda>x h. x = Inr () \<and> (\<exists>line a. h = [(Print line, a)]))"
    unfolding onResult_def observer.case Logging_onResult_def by (intro emits_rules) auto
  then show ?thesis
    unfolding addObserver_def append_Nil append_Cons submitResult.simps
  proof (rule emits_bind, goal_cases)
    case (1 x h)
    then obtain line a where x: "x = Inr ()" "h = [(Print line, a)]" by blast
    show ?case
      unfolding x sum.case onResult_def observer.case
      by (rule emits_bind [OF dashboard_emits [of k path r]])
         (auto intro!: emits_ret split: if_splits sum.splits)
  qed
qed

text \<open>
  C15: with the observers of \<open>main\<close> every result is first logged, and then, when its texts are
  UTF-8, written to the dashboard's pipe (if a reader has it open) as one line without a newline in
  it that parses back to exactly the result's fields. When any of them is not UTF-8 - the output of
  a job may be arbitrary bytes - \<open>submitResult\<close> throws \<open>type_error\<close> 316 after logging and
  nothing reaches the pipe.
\<close>

theorem result_reaches_dashboard:
  "emits (submitResult k r (addObserver (Dashboard_Observer path) (addObserver Logging_Observer [])))
     (\<lambda>x h. \<exists>line a h'. h = (Print line, a) # h' \<and>
        (if utf8_result r
         then x = Inr () \<and> (\<exists>text. pipe_line path text h' \<and> CHR 0x0A \<notin> set text
                \<and> parse_json text = Inr (normal (J_object (result_members r))))
         else (\<exists>m. x = Inl (Type_error 316 m)) \<and> h' = []))"
  by (rule collector_emits)

end
