(* ===== verification/Worker_Execution.thy ===== *)
theory Worker_Execution
  imports Worker_Pool Executor Observers
begin

text \<open>
  The worker threads of \<open>src/WorkerPool.cpp\<close> with the executor and the observers they call. The
  pool alone leaves open what an execution returns and whether reporting a result throws; here a
  worker runs \<open>Executor::execute\<close> and \<open>ResultCollector::submitResult\<close>, whatever the kernel
  answers, and every step of such a worker is a step of the pool.
\<close>

section \<open>What a computation can return\<close>

definition yields :: "'a os \<Rightarrow> ('a \<Rightarrow> bool) \<Rightarrow> bool" where
  "yields m P \<longleftrightarrow> (\<forall>s. P (fst (run_state m s)))"

lemma yields_ret [simp]: "yields (ret a) P \<longleftrightarrow> P a"
  by (simp add: yields_def)

lemma yields_bind: "yields m R \<Longrightarrow> (\<And>a. R a \<Longrightarrow> yields (f a) P) \<Longrightarrow> yields (m \<bind> f) P"
  by (simp add: yields_def case_prod_beta)

lemma yields_then: "(\<And>a. yields (f a) P) \<Longrightarrow> yields (m \<bind> f) P"
  by (rule yields_bind [where R = "\<lambda>_. True"]) (simp_all add: yields_def)

lemma yields_if: "(b \<Longrightarrow> yields m P) \<Longrightarrow> (\<not> b \<Longrightarrow> yields m' P) \<Longrightarrow> yields (if b then m else m') P"
  by simp

lemma yields_option:
  "(x = None \<Longrightarrow> yields m P) \<Longrightarrow> (\<And>a. x = Some a \<Longrightarrow> yields (f a) P) \<Longrightarrow> yields (case x of None \<Rightarrow> m | Some a \<Rightarrow> f a) P"
  by (cases x) simp_all

section \<open>Executions without a quantum end the job\<close>

definition waited :: "execution_result + execution_result \<Rightarrow> bool" where
  "waited x \<longleftrightarrow> \<not> preempted (case x of Inl r \<Rightarrow> r | Inr r \<Rightarrow> r)"

lemma yields_wait_child:
  assumes "\<not> 0 < sint q" and "\<not> preempted res"
  shows "yields (wait_child k fuel p q res) (\<lambda>w. \<exists>x. w = Some x \<and> waited x)"
proof -
  have "yields (wait_blocking k p res) waited"
    unfolding wait_blocking_def
    using assms(2) by (auto simp: waited_def classify_def intro!: yields_then)
  then have "yields (wait_blocking k p res \<bind> (\<lambda>r. ret (Some r))) (\<lambda>w. \<exists>x. w = Some x \<and> waited x)"
    by (rule yields_bind) simp
  with assms(1) show ?thesis by (simp add: wait_child_def)
qed

lemma yields_collect_output:
  "yields (collect_output k fuel rootfs n res) (\<lambda>x. \<forall>r. x = Some r \<longrightarrow> preempted r = preempted res)"
  unfolding collect_output_def Let_def
  by (intro yields_if yields_then yields_option) auto

definition ends_job :: "burst option \<Rightarrow> bool" where
  "ends_job b \<longleftrightarrow> (\<forall>x. b = Some x \<longrightarrow> \<not> preempted (b_result x))"

lemma yields_finish:
  assumes "\<not> 0 < sint q"
  shows "yields (finish k fuel rootfs p n wd q) ends_job"
proof -
  have out: "yields (collect_output k fuel rootfs n res \<bind> (\<lambda>out. ret (map_option (\<lambda>res'. \<lparr>b_result = res', b_pid = p,
      b_unique_id = n, b_watchdog = wd', b_status = Returned\<rparr>) out))) ends_job"
    if "\<not> preempted res" for wd' res
    by (rule yields_bind [OF yields_collect_output]) (use that in \<open>auto simp: ends_job_def\<close>)
  have "\<not> preempted new_execution_result" by (simp add: new_execution_result_def)
  note w = yields_wait_child [OF assms this, of k fuel p]
  show ?thesis
    unfolding finish_def
    by (rule yields_bind [OF w], elim exE conjE, hypsubst, simp add: waited_def split: sum.splits,
        simp add: ends_job_def, intro allI impI conjI, simp add: ends_job_def,
        rule yields_then, rule yields_then, rule out)
qed

lemma yields_isolateAndRun:
  assumes "\<not> 0 < sint q"
  shows "yields (isolateAndRun k fuel c p uid q limiter wd ctx) ends_job"
  unfolding isolateAndRun_def Let_def
proof (intro yields_if yields_then)
  fix rootfs sp
  show "yields (case sp of
       Spawn_Failed n w \<Rightarrow> ret (Some \<lparr>b_result = new_execution_result, b_pid = p, b_unique_id = n, b_watchdog = w, b_status = Returned\<rparr>)
     | Spawn_Threw child n w \<Rightarrow> ret (Some \<lparr>b_result = new_execution_result, b_pid = child, b_unique_id = n, b_watchdog = w, b_status = Threw\<rparr>)
     | Spawn_Terminated \<Rightarrow> ret (Some \<lparr>b_result = new_execution_result, b_pid = p, b_unique_id = uid, b_watchdog = None, b_status = Terminated\<rparr>)
     | Spawned child n w \<Rightarrow> finish k fuel rootfs child n w q) ends_job"
    using yields_finish [OF assms] by (cases sp) (simp_all add: ends_job_def new_execution_result_def)
qed (use yields_finish [OF assms] in \<open>simp_all add: ends_job_def new_execution_result_def\<close>)

definition execution_ok :: "job \<Rightarrow> execution option \<Rightarrow> bool" where
  "execution_ok j x \<longleftrightarrow> (\<forall>e. x = Some e \<longrightarrow> same_job j (ex_job e) \<and>
     (\<not> 0 < sint (time_quantum j) \<longrightarrow> \<not> preempted (ex_result e)))"

lemma same_job_simps [simp]: "same_job j j" "same_job j (j\<lparr>pid := x, unique_id := y\<rparr>)"
  by (simp_all add: same_job_def)

lemma yields_execute: "yields (execute k fuel f j) (execution_ok j)"
  unfolding execute_def
proof (rule yields_if [OF _ yields_if [OF yields_then yields_then [OF yields_then]]])
  fix b
  show "yields (ret (Some (if b then executed (new_execution_result\<lparr>success := True, exit_code := 0\<rparr>) j Exec_Returned
      else executed new_execution_result j Exec_Exit))) (execution_ok j)"
    by (simp add: execution_ok_def executed_def new_execution_result_def)
next
  fix limiter ctx
  have iso: "yields (isolateAndRun k fuel (cmd j) (sint (pid j)) (unique_id j) (time_quantum j) limiter (watchdog_factory f) ctx)
      (\<lambda>b. \<not> 0 < sint (time_quantum j) \<longrightarrow> ends_job b)"
    using yields_isolateAndRun [of "time_quantum j"] by (auto simp: yields_def)
  have ok: "execution_ok j (Some (executed (b_result x) (j\<lparr>pid := word_of_int (b_pid x), unique_id := b_unique_id x\<rparr>) st))"
    if "\<not> 0 < sint (time_quantum j) \<longrightarrow> ends_job (Some x)" for x st
    using that by (simp add: execution_ok_def ends_job_def executed_def)
  show "yields (isolateAndRun k fuel (cmd j) (sint (pid j)) (unique_id j) (time_quantum j) limiter (watchdog_factory f) ctx \<bind>
      (\<lambda>b. case b of None \<Rightarrow> ret None
         | Some x \<Rightarrow>
             (let j' = j\<lparr>pid := word_of_int (b_pid x), unique_id := b_unique_id x\<rparr>
              in case b_status x of
                   Threw \<Rightarrow> ret (Some (executed (b_result x) j' Exec_Threw))
                 | Terminated \<Rightarrow> ret (Some (executed (b_result x) j' Exec_Terminated))
                 | Returned \<Rightarrow> do {
                     destroy_guards k limiter (b_watchdog x) ctx;
                     ret (Some (executed (b_result x) j' Exec_Returned)) }))) (execution_ok j)"
  proof (rule yields_bind [OF iso])
    fix b
    assume "\<not> 0 < sint (time_quantum j) \<longrightarrow> ends_job b"
    then show "yields (case b of None \<Rightarrow> ret None
         | Some x \<Rightarrow>
             (let j' = j\<lparr>pid := word_of_int (b_pid x), unique_id := b_unique_id x\<rparr>
              in case b_status x of
                   Threw \<Rightarrow> ret (Some (executed (b_result x) j' Exec_Threw))
                 | Terminated \<Rightarrow> ret (Some (executed (b_result x) j' Exec_Terminated))
                 | Returned \<Rightarrow> do {
                     destroy_guards k limiter (b_watchdog x) ctx;
                     ret (Some (executed (b_result x) j' Exec_Returned)) })) (execution_ok j)"
      by (intro yields_option) (auto simp: execution_ok_def [of j None] Let_def intro!: ok yields_then split: iso_status.split)
  qed
qed (simp add: execution_ok_def executed_def new_execution_result_def)

section \<open>The steps of a worker thread\<close>

text \<open>What \<open>execute\<close> can do with a job, and the collector with a result, for some kernel.\<close>

definition executes :: "factories \<Rightarrow> job \<Rightarrow> job \<Rightarrow> execution_result \<Rightarrow> bool" where
  "executes f j j' r \<longleftrightarrow>
     (\<exists>k fuel s. fst (run_state (execute k fuel f j) s) = Some (executed r j' Exec_Returned))"

text \<open>An execution that does not return, with the calls it made.\<close>

definition execution_dies :: "factories \<Rightarrow> job \<Rightarrow> history \<Rightarrow> bool" where
  "execution_dies f j h \<longleftrightarrow>
     (\<exists>k fuel s x s'. run_state (execute k fuel f j) s = (Some x, s') \<and> ex_status x \<noteq> Exec_Returned
        \<and> trace s' = trace s @ h)"

text \<open>
  Only a command \<open>exit\<close> and a \<open>SUDO_UID\<close> or \<open>SUDO_GID\<close> that is not a number can keep an execution
  from returning, where the watchdog of the factory has not been started before.
\<close>

lemma yields_emits: "emits m P \<Longrightarrow> (\<And>a h. P a h \<Longrightarrow> Q a) \<Longrightarrow> yields m Q"
  unfolding emits_def yields_def by (metis fst_conv)

lemma emits_yields: "emits m P \<Longrightarrow> yields m Q \<Longrightarrow> emits m (\<lambda>a h. P a h \<and> Q a)"
  unfolding emits_def yields_def by (metis fst_conv)

lemma bad_identity_append [simp]: "bad_identity (h @ h') \<longleftrightarrow> bad_identity h \<or> bad_identity h'"
  unfolding bad_identity_def set_append by blast

lemma yields_spawn:
  assumes "\<forall>d. wd = Some d \<longrightarrow> quiet d"
  shows "yields (spawn k limiter wd ctx rootfs c uid) (\<lambda>out. out \<noteq> Spawn_Terminated)"
proof -
  have w: "yields (start_watchdog k wd child) (\<lambda>r. r \<noteq> None)" for child
    using start_watchdog_quiet [OF assms] by (simp add: yields_def)
  show ?thesis
    unfolding spawn_def
    by (auto intro!: yields_then yields_if yields_bind [OF w])
qed

lemma isolate_ends:
  assumes "\<forall>d. wd = Some d \<longrightarrow> quiet d"
  shows "emits (isolateAndRun k fuel c p uid q limiter wd ctx)
     (\<lambda>r h. \<forall>b. r = Some b \<longrightarrow> b_status b = Returned \<or> b_status b = Threw \<and> bad_identity h)"
proof -
  have pr: "emits (prepareRootfs k) (\<lambda>_ _. True)"
    unfolding prepareRootfs_def by (intro emits_rules) simp
  have fin: "emits (finish k fuel rootfs child n w q) (\<lambda>r h. \<forall>b. r = Some b \<longrightarrow> b_status b = Returned \<or> P b h)" for rootfs child n w P
    by (rule emits_mono [OF finish_fds]) auto
  show ?thesis
    unfolding isolateAndRun_def Let_def
    apply (intro emits_if emits_ret emits_bind [OF pr] emits_bind [OF emits_yields [OF spawn_emits yields_spawn [OF assms]]]
        emits_perform_bind fin)
    subgoal by simp
    subgoal for rootfs h out h'
      by (cases out) (auto intro!: emits_ret fin)
    done
qed

definition ends_process :: "job \<Rightarrow> history \<Rightarrow> bool" where
  "ends_process j h \<longleftrightarrow> executable (cmd j) = ''exit'' \<and> calls h = [Exit 0]
     \<or> executable (cmd j) \<notin> {''cd'', ''exit''} \<and> bad_identity h"

lemma execute_ends:
  assumes "\<forall>d. watchdog_factory f = Some d \<longrightarrow> quiet d"
  shows "emits (execute k fuel f j) (\<lambda>r h. \<forall>x. r = Some x \<and> ex_status x \<noteq> Exec_Returned \<longrightarrow> ends_process j h)"
proof -
  have b: "emits (handleBuiltin k (cmd j)) (\<lambda>b h. b \<or> executable (cmd j) = ''exit'' \<and> calls h = [Exit 0])"
    unfolding handleBuiltin_def by (auto intro!: emits_rules split: list.split)
  have l: "emits (make_limiter k f) (\<lambda>_ _. True)"
    unfolding make_limiter_def
    by (cases "limiter_factory f") (auto intro!: emits_ret emits_bind [OF limiter_constructor_emits] split: prod.split)
  have d: "emits (destroy_guards k lim wd ctx) (\<lambda>_ _. True)" for lim wd ctx
  proof (cases lim)
    case None
    have "adds_no_guard (destroy_guards k None wd ctx)"
      unfolding destroy_guards_def SeccompDenylistPolicy_destroy_def watchdog_destroy_def option.case
      by (intro no_guards no_guard_stop) simp_all
    with None show ?thesis by (auto elim: emits_mono dest: no_guard_emits)
  next
    case (Some path)
    show ?thesis unfolding Some by (rule emits_mono [OF destroy_kills]) simp
  qed
  have rest: "emits (case b of None \<Rightarrow> ret None
      | Some x \<Rightarrow>
          (let j' = j\<lparr>pid := word_of_int (b_pid x), unique_id := b_unique_id x\<rparr>
           in case b_status x of
                Threw \<Rightarrow> ret (Some (executed (b_result x) j' Exec_Threw))
              | Terminated \<Rightarrow> ret (Some (executed (b_result x) j' Exec_Terminated))
              | Returned \<Rightarrow> do {
                  destroy_guards k lim (b_watchdog x) ctx;
                  ret (Some (executed (b_result x) j' Exec_Returned)) }))
       (\<lambda>r h. \<forall>x. r = Some x \<and> ex_status x \<noteq> Exec_Returned \<longrightarrow> ends_process j (h0 @ h1 @ h2 @ h))"
    if "\<not> (executable (cmd j) = ''cd'' \<or> executable (cmd j) = ''exit'')"
      "\<forall>x. b = Some x \<longrightarrow> b_status x = Returned \<or> b_status x = Threw \<and> bad_identity h2" for b lim ctx h0 h1 h2
  proof (cases b)
    case (Some x)
    with that show ?thesis
      by (cases "b_status x")
         (auto simp: executed_def Let_def ends_process_def intro!: emits_ret emits_bind [OF d])
  qed (auto intro: emits_ret)
  show ?thesis
    unfolding execute_def
    by (intro emits_if emits_bind [OF b] emits_bind [OF l] emits_bind [OF no_guard_policy [THEN no_guard_emits]]
        emits_bind [OF isolate_ends [OF assms]] rest emits_ret; auto simp: executed_def ends_process_def split: if_splits)
qed

lemma execution_dies_ends:
  assumes "execution_dies f j h" and "\<forall>d. watchdog_factory f = Some d \<longrightarrow> quiet d"
  shows "ends_process j h"
proof -
  from assms(1) obtain k fuel s x s' where x: "run_state (execute k fuel f j) s = (Some x, s')" "ex_status x \<noteq> Exec_Returned"
    "trace s' = trace s @ h" unfolding execution_dies_def by blast
  from emitsD [OF execute_ends [OF assms(2)] x(1)] x(2,3) show ?thesis by auto
qed

definition collects :: "observer list \<Rightarrow> job_result \<Rightarrow> unit result \<Rightarrow> bool" where
  "collects obs r x \<longleftrightarrow> (\<exists>k s. fst (run_state (submitResult k r obs) s) = x)"

inductive worker_step :: "factories \<Rightarrow> observer list \<Rightarrow> nat \<Rightarrow> pool \<Rightarrow> pool \<Rightarrow> bool" for f obs i where
  tests:
    "\<not> terminated p \<Longrightarrow> i < length (workers p) \<Longrightarrow> workers p ! i = Loop_Head \<Longrightarrow>
     worker_step f obs i p (loop_test i p)"
| takes:
    "\<not> terminated p \<Longrightarrow> i < length (workers p) \<Longrightarrow> workers p ! i \<in> {Enter_Dequeue, Sleeping, Notified} \<Longrightarrow>
     worker_step f obs i p (try_dequeue i p)"
| is_preempted:
    "\<not> terminated p \<Longrightarrow> i < length (workers p) \<Longrightarrow> workers p ! i = Executing j \<Longrightarrow>
     executes f j j' r \<Longrightarrow> preempted r \<Longrightarrow> sadd32 (elapsed_bursts j') 1 = Inr b \<Longrightarrow>
     notify_one ((workers p)[i := Loop_Head]) ws \<Longrightarrow>
     worker_step f obs i p (p\<lparr>job_queue_ref := enqueue (job_queue_ref p) (j'\<lparr>elapsed_bursts := b\<rparr>),
       workers := ws\<rparr>)"
| overflows:
    "\<not> terminated p \<Longrightarrow> i < length (workers p) \<Longrightarrow> workers p ! i = Executing j \<Longrightarrow>
     executes f j j' r \<Longrightarrow> preempted r \<Longrightarrow> sadd32 (elapsed_bursts j') 1 = Inl e \<Longrightarrow>
     worker_step f obs i p (p\<lparr>death := Some (Burst_overflow e)\<rparr>)"
| reports:
    "\<not> terminated p \<Longrightarrow> i < length (workers p) \<Longrightarrow> workers p ! i = Executing j \<Longrightarrow>
     executes f j j' r \<Longrightarrow> \<not> preempted r \<Longrightarrow> collects obs (make_result j' r) (Inr ()) \<Longrightarrow>
     worker_step f obs i p (report i j' r p)"
| throws:
    "\<not> terminated p \<Longrightarrow> i < length (workers p) \<Longrightarrow> workers p ! i = Executing j \<Longrightarrow>
     executes f j j' r \<Longrightarrow> \<not> preempted r \<Longrightarrow> collects obs (make_result j' r) (Inl x) \<Longrightarrow>
     worker_step f obs i p (p\<lparr>death := Some (Observer_threw (make_result j' r))\<rparr>)"
| dies:
    "\<not> terminated p \<Longrightarrow> i < length (workers p) \<Longrightarrow> workers p ! i = Executing j \<Longrightarrow>
     execution_dies f j h \<Longrightarrow> worker_step f obs i p (p\<lparr>death := Some (Execution_ended j h)\<rparr>)"
| fulfils:
    "\<not> terminated p \<Longrightarrow> i < length (workers p) \<Longrightarrow> workers p ! i = Reported j r \<Longrightarrow>
     worker_step f obs i p (fulfil i j r p)"

inductive_cases worker_stepE: "worker_step f obs i p p'"

lemma executes_same_job: "executes f j j' r \<Longrightarrow> same_job j j'"
  using yields_execute unfolding executes_def yields_def execution_ok_def
  by (metis execution.select_convs(2) executed_def)

lemma executes_to_end: "executes f j j' r \<Longrightarrow> \<not> 0 < sint (time_quantum j) \<Longrightarrow> \<not> preempted r"
  using yields_execute unfolding executes_def yields_def execution_ok_def
  by (metis execution.select_convs(1) executed_def)

text \<open>With the executor and the observers filled in, a worker still takes steps of the pool.\<close>

lemma worker_step_pool: "worker_step f obs i p p' \<Longrightarrow> pool_step p p'"
  by (induction rule: worker_step.induct)
    (blast intro: pool_step.intros executes_same_job)+

lemma worker_step_length: "worker_step f obs i p p' \<Longrightarrow> i < length (workers p) \<and> \<not> terminated p"
  by (erule worker_stepE) auto

end
