(* ===== verification/Pool_Clients.thy ===== *)
theory Pool_Clients
  imports Worker_Execution
begin

text \<open>
  Programs built around a worker pool: threads that create jobs and submit them, and worker threads
  that execute them. A locale states what such a program promises (the pool changes only through
  submissions, \<open>stop\<close> and the workers; every job gets a promise of its own and the same quantum)
  and derives what holds for all of them, up to liveness under fair scheduling.
\<close>

section \<open>Threads\<close>

datatype thread = Main | Daemon | Worker nat

text \<open>\<open>enqueue\<close> by a thread outside the pool.\<close>

definition hand_over :: "job \<Rightarrow> worker list \<Rightarrow> pool \<Rightarrow> pool" where
  "hand_over j ws p = p\<lparr>job_queue_ref := enqueue (job_queue_ref p) j, workers := ws, submitted := j # submitted p\<rparr>"

text \<open>What the other threads do to the pool.\<close>

inductive client_change :: "pool \<Rightarrow> pool \<Rightarrow> bool" where
  same: "client_change p p"
| submits: "\<not> terminated p \<Longrightarrow> notify_one (workers p) ws \<Longrightarrow> client_change p (hand_over j ws p)"
| stops: "pool_step p p' \<Longrightarrow> stop_at p' \<noteq> stop_at p \<Longrightarrow> client_change p p'"

lemma client_change_step: "client_change p p' \<Longrightarrow> p' = p \<or> pool_step p p'"
  by (induction rule: client_change.induct) (auto simp: hand_over_def intro: pool_step.submit)

text \<open>A worker that can be scheduled: it neither sleeps in \<open>wait\<close> nor has returned.\<close>

definition worker_runnable :: "pool \<Rightarrow> nat \<Rightarrow> bool" where
  "worker_runnable p i \<longleftrightarrow> i < length (workers p) \<and> workers p ! i \<notin> {Sleeping, Exited}"

text \<open>
  An infinite run: at every moment at most one thread takes a step, and no thread that can be
  scheduled waits forever.
\<close>

definition fair_run :: "(thread \<Rightarrow> 's \<Rightarrow> 's \<Rightarrow> bool) \<Rightarrow> ('s \<Rightarrow> thread \<Rightarrow> bool) \<Rightarrow> 's \<Rightarrow>
    (nat \<Rightarrow> 's) \<Rightarrow> (nat \<Rightarrow> thread option) \<Rightarrow> bool" where
  "fair_run lstep runnable first \<sigma> \<tau> \<longleftrightarrow> \<sigma> 0 = first
     \<and> (\<forall>m. case \<tau> m of None \<Rightarrow> \<sigma> (Suc m) = \<sigma> m | Some t \<Rightarrow> lstep t (\<sigma> m) (\<sigma> (Suc m)))
     \<and> (\<forall>t m. \<exists>m' \<ge> m. \<tau> m' = Some t \<or> \<not> runnable (\<sigma> m') t)"

definition any_thread :: "(thread \<Rightarrow> 's \<Rightarrow> 's \<Rightarrow> bool) \<Rightarrow> 's \<Rightarrow> 's \<Rightarrow> bool" where
  "any_thread lstep s s' \<longleftrightarrow> (\<exists>t. lstep t s s')"

section \<open>More invariants of the pool\<close>

definition before_stop :: "pool \<Rightarrow> bool" where
  "before_stop p \<longleftrightarrow> (stop_at p = Not_Stopping \<longrightarrow> running p \<and> \<not> stopping (job_queue_ref p) \<and> Exited \<notin> set (workers p))"

lemma dequeue_open: "\<not> stopping q \<Longrightarrow> dequeue q \<noteq> (Nullopt, q')"
  by (auto simp: dequeue_def split: sum.splits)

lemma notify_one_Exited: "notify_one ws ws' \<Longrightarrow> Exited \<in> set ws' \<Longrightarrow> Exited \<in> set ws"
  by (erule notify_oneE) (auto dest: set_update_other)

lemma before_stop_frame:
  assumes "before_stop p" and "stop_at p' = stop_at p" and "running p' = running p"
    and "stopping (job_queue_ref p') = stopping (job_queue_ref p)"
    and "stop_at p = Not_Stopping \<Longrightarrow> Exited \<in> set (workers p') \<Longrightarrow> Exited \<in> set (workers p)"
  shows "before_stop p'"
  using assms unfolding before_stop_def by metis

lemma exited_update: "Exited \<in> set (ws[i := w]) \<Longrightarrow> w \<noteq> Exited \<Longrightarrow> Exited \<in> set ws"
  by (rule set_update_other) auto

lemma before_stop_try_dequeue:
  assumes "before_stop p"
  shows "before_stop (try_dequeue i p)"
proof (cases "dequeue (job_queue_ref p)")
  case (Pair r q)
  show ?thesis
  proof (cases r)
    case Nullopt
    with Pair dequeue_open [of "job_queue_ref p" q] have "stopping (job_queue_ref p)" by blast
    with assms have "stop_at p \<noteq> Not_Stopping" by (auto simp: before_stop_def)
    with Pair Nullopt show ?thesis by (simp add: before_stop_def try_dequeue_def)
  next
    case (Got j)
    with Pair have d: "dequeue (job_queue_ref p) = (Got j, q)" by simp
    show ?thesis
      by (rule before_stop_frame [OF assms]) (simp_all add: try_dequeue_def d dequeue_frame [OF d], blast dest: exited_update)
  next
    case Blocked
    with Pair have d: "dequeue (job_queue_ref p) = (Blocked, q)" by simp
    show ?thesis
      by (rule before_stop_frame [OF assms]) (simp_all add: try_dequeue_def d, blast dest: exited_update)
  next
    case (Undefined e)
    with Pair have d: "dequeue (job_queue_ref p) = (Undefined e, q)" by simp
    show ?thesis by (rule before_stop_frame [OF assms]) (simp_all add: try_dequeue_def d)
  qed
qed

lemma before_stop_step: "pool_step p p' \<Longrightarrow> before_stop p \<Longrightarrow> before_stop p'"
proof (induction rule: pool_step.induct)
  case (submit p ws j)
  then show ?case by - (erule before_stop_frame, simp_all, blast dest: notify_one_Exited)
next
  case (test p i)
  then show ?case by (simp add: before_stop_def loop_test_def) (blast dest: exited_update)
next
  case (take p i)
  then show ?case by (simp add: before_stop_try_dequeue)
next
  case (preempt p i j j' r b ws)
  then show ?case by - (erule before_stop_frame, simp_all, blast dest: notify_one_Exited exited_update)
next
  case (report_result p i j j' r)
  then show ?case by - (erule before_stop_frame, simp_all add: report_def, blast dest: exited_update)
next
  case (fulfil_promise p i j r)
  then show ?case
    by - (erule before_stop_frame, simp_all add: fulfil_def split: option.splits if_splits, (blast dest: exited_update)+)
qed (simp_all add: before_stop_def)

lemma before_stop_reachable: "reachable n k p \<Longrightarrow> before_stop p"
proof (induction rule: reachable.induct)
  case init
  show ?case by (auto simp: before_stop_def new_queue_def)
qed (blast intro: before_stop_step)

lemma notify_one_length: "notify_one ws ws' \<Longrightarrow> length ws' = length ws"
  by (erule notify_oneE) auto

lemma pool_shape_step:
  "pool_step p p' \<Longrightarrow> length (workers p') = length (workers p) \<and>
     queue_scheduler (job_queue_ref p') = queue_scheduler (job_queue_ref p)"
proof (induction rule: pool_step.induct)
  case (take p i)
  show ?case
  proof (cases "dequeue (job_queue_ref p)")
    case (Pair r q)
    then show ?thesis using dequeue_frame [OF Pair] by (cases r) (simp_all add: try_dequeue_def)
  qed
next
  case (fulfil_promise p i j r)
  then show ?case by (simp add: fulfil_def split: option.split)
qed (simp_all add: loop_test_def report_def notify_all_def stop_queue_def notify_one_length)

lemma pool_shape: "reachable n k p \<Longrightarrow> length (workers p) = n \<and> queue_scheduler (job_queue_ref p) = k"
  by (induction rule: reachable.induct) (auto simp: new_queue_def dest: pool_shape_step)

text \<open>The jobs in the pool, which are the submitted ones up to what executing them changes.\<close>

fun worker_job :: "worker \<Rightarrow> job option" where
  "worker_job (Executing j) = Some j"
| "worker_job (Reported j r) = Some j"
| "worker_job _ = None"

definition worker_jobs :: "worker list \<Rightarrow> job set" where
  "worker_jobs ws = {j. \<exists>w \<in> set ws. worker_job w = Some j}"

definition pool_jobs :: "pool \<Rightarrow> job set" where
  "pool_jobs p = set (queued_jobs (job_queue_ref p)) \<union> worker_jobs (workers p)"

definition stable :: "(job \<Rightarrow> bool) \<Rightarrow> bool" where
  "stable Q \<longleftrightarrow> (\<forall>j j'. Q j \<longrightarrow> same_job j j' \<longrightarrow> Q j') \<and> (\<forall>j b. Q j \<longrightarrow> Q (j\<lparr>elapsed_bursts := b\<rparr>))"

definition covered :: "(job \<Rightarrow> bool) \<Rightarrow> pool \<Rightarrow> bool" where
  "covered Q p \<longleftrightarrow> ((\<forall>j \<in> set (submitted p). Q j) \<longrightarrow> (\<forall>j \<in> pool_jobs p. Q j))"

lemma worker_jobs_update: "worker_jobs (ws[i := w]) \<subseteq> set_option (worker_job w) \<union> worker_jobs ws"
  using set_update_subset_insert [of ws i w] by (auto simp: worker_jobs_def)

lemma worker_jobs_notify [simp]:
  "worker_jobs (notify_all ws) = worker_jobs ws" "notify_one ws ws' \<Longrightarrow> worker_jobs ws' \<subseteq> worker_jobs ws"
  using worker_jobs_update [of ws] by (force simp: worker_jobs_def notify_all_def, force elim: notify_oneE)

lemma set_enqueue: "set (queued_jobs (enqueue q j)) = insert j (set (queued_jobs q))"
  using mset_enqueue [of q j] by (metis set_mset_add_mset_insert set_mset_mset)

lemma covered_frame:
  assumes "covered Q p" and "set (submitted p) \<subseteq> set (submitted p')"
    and "\<And>j. \<forall>j \<in> set (submitted p'). Q j \<Longrightarrow> j \<in> pool_jobs p' \<Longrightarrow> j \<in> pool_jobs p \<or> Q j"
  shows "covered Q p'"
  using assms unfolding covered_def by blast

lemma covered_try_dequeue:
  assumes "covered Q p"
  shows "covered Q (try_dequeue i p)"
proof (cases "dequeue (job_queue_ref p)")
  case (Pair r q)
  have u: "worker_jobs ((workers p)[i := w]) \<subseteq> worker_jobs (workers p)" if "worker_job w = None" for w
    using worker_jobs_update [of "workers p" i w] that by simp
  show ?thesis
  proof (cases r)
    case (Got j)
    with Pair have "mset (queued_jobs (job_queue_ref p)) = add_mset j (mset (queued_jobs q))"
      by (simp add: dequeue_Got)
    then have "set (queued_jobs (job_queue_ref p)) = insert j (set (queued_jobs q))"
      by (metis set_mset_add_mset_insert set_mset_mset)
    with Pair Got worker_jobs_update [of "workers p" i "Executing j"] show ?thesis
      by (intro covered_frame [OF assms]) (auto simp: pool_jobs_def try_dequeue_def)
  qed (use Pair u in \<open>force intro: covered_frame [OF assms] simp: pool_jobs_def try_dequeue_def\<close>)+
qed

lemma fulfil_sel [simp]:
  "submitted (fulfil i j r p) = submitted p" "job_queue_ref (fulfil i j r p) = job_queue_ref p"
  "stop_at (fulfil i j r p) = stop_at p" "running (fulfil i j r p) = running p"
  by (simp_all add: fulfil_def split: option.split)

lemma fulfil_workers:
  "workers (fulfil i j r p) = workers p \<or> workers (fulfil i j r p) = (workers p)[i := Loop_Head]"
  by (simp add: fulfil_def split: option.split)

lemma covered_step:
  assumes "pool_step p p'" and "stable Q" and "covered Q p"
  shows "covered Q p'"
  using assms(1,3)
proof (induction rule: pool_step.induct)
  case (submit p ws j)
  from worker_jobs_notify(2) [OF submit(2)] show ?case
    by (intro covered_frame [OF submit(3)]) (auto simp: pool_jobs_def set_enqueue)
next
  case (test p i)
  have "worker_job (if running p then Enter_Dequeue else Exited) = None" by simp
  with worker_jobs_update [of "workers p" i "if running p then Enter_Dequeue else Exited"] show ?case
    by (intro covered_frame [OF test(4)]) (auto simp: pool_jobs_def loop_test_def split del: if_split)
next
  case (take p i)
  then show ?case by (simp add: covered_try_dequeue)
next
  case (preempt p i j j' r b ws)
  have "Executing j \<in> set (workers p)" using preempt.hyps(2,3) by (metis nth_mem)
  then have "j \<in> pool_jobs p" by (force simp: pool_jobs_def worker_jobs_def)
  with preempt.prems assms(2) preempt.hyps(4)
  have q: "Q (j'\<lparr>elapsed_bursts := b\<rparr>)" if "\<forall>j \<in> set (submitted p). Q j"
    using that unfolding covered_def stable_def by blast
  have "worker_jobs ws \<subseteq> worker_jobs (workers p)"
    using worker_jobs_notify(2) [OF preempt.hyps(7)] worker_jobs_update [of "workers p" i Loop_Head] by simp
  with q show ?case by (intro covered_frame [OF preempt.prems]) (auto simp: pool_jobs_def set_enqueue)
next
  case (report_result p i j j' r)
  have "Executing j \<in> set (workers p)" using report_result.hyps(2,3) by (metis nth_mem)
  then have "j \<in> pool_jobs p" by (force simp: pool_jobs_def worker_jobs_def)
  with report_result.prems assms(2) report_result.hyps(4)
  have q: "Q j'" if "\<forall>j \<in> set (submitted p). Q j"
    using that unfolding covered_def stable_def by blast
  with worker_jobs_update [of "workers p" i "Reported j' r"] show ?case
    by (intro covered_frame [OF report_result.prems]) (auto simp: pool_jobs_def report_def)
next
  case (fulfil_promise p i j r)
  from worker_jobs_update [of "workers p" i Loop_Head] fulfil_workers [of i j r p] show ?case
    by (intro covered_frame [OF fulfil_promise.prems]) (auto simp: pool_jobs_def)
qed (auto simp: covered_def pool_jobs_def stop_queue_def)

lemma covered_reachable: "reachable n k p \<Longrightarrow> stable Q \<Longrightarrow> covered Q p"
proof (induction rule: reachable.induct)
  case init
  show ?case by (auto simp: covered_def pool_jobs_def worker_jobs_def new_queue_def)
qed (blast intro: covered_step)

lemma pool_jobs_stable:
  "reachable n k p \<Longrightarrow> stable Q \<Longrightarrow> (\<And>j. j \<in> set (submitted p) \<Longrightarrow> Q j) \<Longrightarrow> j \<in> pool_jobs p \<Longrightarrow> Q j"
  using covered_reachable [of n k p Q] by (auto simp: covered_def)

lemma same_job_time_quantum:
  assumes "same_job j j'"
  shows "time_quantum j' = time_quantum j"
  using arg_cong [OF assms [unfolded same_job_def], of time_quantum] by simp

lemma stable_quantum: "stable (\<lambda>j. time_quantum j = q)"
  by (simp add: stable_def same_job_time_quantum)

text \<open>Where a submitted job is.\<close>

lemma held_job: "held w = (case worker_job w of None \<Rightarrow> {#} | Some j \<Rightarrow> {#job_key j#})"
  by (cases w) simp_all

lemma wsum_held_member: "x \<in># wsum held ws \<Longrightarrow> \<exists>j \<in> worker_jobs ws. job_key j = x"
  by (induction ws) (auto simp: wsum_def worker_jobs_def held_job split: option.splits)

lemma job_located:
  assumes "reachable n k p" and "j \<in> set (submitted p)"
  shows "(\<exists>j' \<in> pool_jobs p. job_key j' = job_key j) \<or> (\<exists>j' r. (j', r) \<in> set (completed p) \<and> job_key j' = job_key j)"
proof -
  have "job_key j \<in># image_mset job_key (mset (submitted p))" using assms(2) by simp
  also have "image_mset job_key (mset (submitted p)) =
      image_mset job_key (mset (queued_jobs (job_queue_ref p))) + wsum held (workers p)
      + image_mset (job_key \<circ> fst) (mset (completed p))"
    using conserved_reachable [OF assms(1)] by (simp add: conserved_def)
  finally consider "job_key j \<in> job_key ` set (queued_jobs (job_queue_ref p))" | "job_key j \<in># wsum held (workers p)"
    | "job_key j \<in> (job_key \<circ> fst) ` set (completed p)"
    by fastforce
  then show ?thesis
  proof cases
    case 1
    then show ?thesis by (force simp: pool_jobs_def)
  next
    case 2
    with wsum_held_member show ?thesis by (fastforce simp: pool_jobs_def)
  next
    case 3
    then show ?thesis by force
  qed
qed


section \<open>What the clients of a pool promise\<close>

text \<open>The first-come-first-served queue moves only at its ends.\<close>

lemma fcfs_dequeue:
  "queue_scheduler q = FCFS \<Longrightarrow> dequeue q = (Got j, q') \<Longrightarrow> queued_jobs q = j # queued_jobs q'"
  by (cases "queued_jobs q") (auto simp: dequeue_def FCFS_getNextJob_def split: if_splits)

lemma fcfs_defined: "queue_scheduler q = FCFS \<Longrightarrow> dequeue q \<noteq> (Undefined e, q')"
  by (cases "queued_jobs q") (auto simp: dequeue_def FCFS_getNextJob_def split: if_splits)

text \<open>The promises given out by a counter.\<close>

definition tickets :: "nat \<Rightarrow> nat option multiset" where
  "tickets c = mset (map Some [0..<c])"

lemma tickets_simps [simp]: "tickets 0 = {#}" "tickets (Suc c) = add_mset (Some c) (tickets c)"
  by (simp_all add: tickets_def)

lemma tickets_bound: "Some a \<in># tickets c \<Longrightarrow> a < c"
  by (auto simp: tickets_def)

lemma tickets_count: "count (tickets c) (Some a) \<le> 1"
  by (induction c) (auto simp: not_in_iff [symmetric] dest: tickets_bound)

lemma None_ticket: "None \<notin># tickets c"
  by (auto simp: tickets_def)

locale pool_client =
  fixes lstep :: "thread \<Rightarrow> 's \<Rightarrow> 's \<Rightarrow> bool" and runnable :: "'s \<Rightarrow> thread \<Rightarrow> bool" and alive :: "'s \<Rightarrow> bool"
    and first :: 's and view :: "'s \<Rightarrow> pool" and pending :: "'s \<Rightarrow> job list" and counter :: "'s \<Rightarrow> nat"
    and f :: factories and obs :: "observer list" and n :: nat and kind :: scheduler_kind and quantum :: int32
  assumes first: "view first = start n (new_pool (new_queue kind))" "pending first = []" "counter first = 0"
    and worker: "lstep (Worker i) s s' \<Longrightarrow> worker_step f obs i (view s) (view s') \<and> pending s' = pending s \<and> counter s' = counter s"
    and client: "lstep t s s' \<Longrightarrow> \<forall>i. t \<noteq> Worker i \<Longrightarrow> client_change (view s) (view s')"
    and issue: "lstep t s s' \<Longrightarrow> \<forall>i. t \<noteq> Worker i \<Longrightarrow>
      mset (submitted (view s')) + mset (pending s') = mset (submitted (view s)) + mset (pending s) \<and> counter s' = counter s
      \<or> (\<exists>j. mset (submitted (view s')) + mset (pending s') = add_mset j (mset (submitted (view s)) + mset (pending s))
           \<and> result_promise j = Some (counter s) \<and> counter s' = Suc (counter s) \<and> time_quantum j = quantum)"
    and alive: "alive s \<Longrightarrow> worker_runnable (view s) i \<Longrightarrow> runnable s (Worker i)"
begin

definition issued :: "'s \<Rightarrow> job multiset" where
  "issued s = mset (submitted (view s)) + mset (pending s)"

lemma view_step: "lstep t s s' \<Longrightarrow> view s' = view s \<or> pool_step (view s) (view s')"
  using worker client worker_step_pool client_change_step by (cases t) blast+

lemma view_reachable: "(any_thread lstep)\<^sup>*\<^sup>* first s \<Longrightarrow> reachable n kind (view s)"
proof (induction rule: rtranclp_induct)
  case base
  then show ?case by (simp add: first(1) reachable.init)
next
  case (step s s')
  then show ?case unfolding any_thread_def by (metis reachable.step view_step)
qed

lemma pool_step_submitted: "worker_step f obs i p p' \<Longrightarrow> submitted p' = submitted p"
  by (erule worker_stepE)
    (auto simp: loop_test_def try_dequeue_def report_def split: prod.split dequeue_result.split)

lemma issued_step:
  assumes "lstep t s s'"
  shows "issued s' = issued s \<and> counter s' = counter s
    \<or> (\<exists>j. issued s' = add_mset j (issued s) \<and> result_promise j = Some (counter s) \<and> counter s' = Suc (counter s)
        \<and> time_quantum j = quantum)"
proof (cases "\<exists>i. t = Worker i")
  case True
  with assms obtain i where "worker_step f obs i (view s) (view s')" "pending s' = pending s" "counter s' = counter s"
    using worker by blast
  with pool_step_submitted [of i "view s" "view s'"] show ?thesis by (simp add: issued_def)
next
  case False
  with issue [OF assms] show ?thesis by (simp add: issued_def)
qed

text \<open>Every job has a promise of its own, and the same quantum.\<close>

lemma issued_promises: "(any_thread lstep)\<^sup>*\<^sup>* first s \<Longrightarrow>
  image_mset result_promise (issued s) = tickets (counter s) \<and> (\<forall>j \<in># issued s. time_quantum j = quantum)"
proof (induction rule: rtranclp_induct)
  case base
  then show ?case by (simp add: issued_def first)
next
  case (step s s')
  then obtain t where "lstep t s s'" by (auto simp: any_thread_def)
  from issued_step [OF this] step.IH show ?case by auto
qed

lemma promises_distinct:
  assumes "(any_thread lstep)\<^sup>*\<^sup>* first s"
  shows "count (image_mset result_promise (mset (submitted (view s)))) (Some a) \<le> 1"
proof -
  have "count (image_mset result_promise (mset (submitted (view s)))) (Some a)
      \<le> count (image_mset result_promise (issued s)) (Some a)"
    by (simp add: issued_def)
  also have "\<dots> \<le> 1" using issued_promises [OF assms] tickets_count by simp
  finally show ?thesis .
qed

lemma promised: "(any_thread lstep)\<^sup>*\<^sup>* first s \<Longrightarrow> j \<in> set (submitted (view s)) \<Longrightarrow> \<exists>a. result_promise j = Some a"
proof -
  assume r: "(any_thread lstep)\<^sup>*\<^sup>* first s" and "j \<in> set (submitted (view s))"
  then have "result_promise j \<in># image_mset result_promise (issued s)" by (simp add: issued_def)
  also have "image_mset result_promise (issued s) = tickets (counter s)" using issued_promises [OF r] by simp
  finally show ?thesis using None_ticket by (cases "result_promise j") auto
qed

lemma never_rethrows:
  assumes "(any_thread lstep)\<^sup>*\<^sup>* first s" and "Reported j r \<in> set (workers (view s))" and "\<not> terminated (view s)"
  shows "\<not> terminated (fulfil i j r (view s))"
proof -
  note r = view_reachable [OF assms(1)]
  have "image_mset snd (image_mset job_key (mset (submitted (view s)))) = image_mset result_promise (mset (submitted (view s)))"
    by (simp add: multiset.map_comp comp_def job_key_def)
  then have "result_promise j = Some a \<Longrightarrow> promises (view s) a = None" for a
    using promise_unset [OF r assms(2)] promises_distinct [OF assms(1)] by auto
  with assms(3) show ?thesis by (auto simp: fulfil_def split: option.splits)
qed

lemma job_quantum:
  assumes "(any_thread lstep)\<^sup>*\<^sup>* first s" and "j \<in> pool_jobs (view s)"
  shows "time_quantum j = quantum"
  by (rule pool_jobs_stable [OF view_reachable [OF assms(1)] stable_quantum _ assms(2)])
     (use issued_promises [OF assms(1)] in \<open>auto simp: issued_def\<close>)

end

end
