(* ===== verification/Pool_Liveness.thy ===== *)
theory Pool_Liveness
  imports Pool_Clients
begin

text \<open>
  Under fair scheduling a first-come-first-served pool completes every job it accepted, as long as
  nobody stops it and the process lives: a job in the queue never gets further from its head, a
  worker that is awake reaches the queue, and one that holds a job delivers it.
\<close>

section \<open>Positions in the queue\<close>

fun ahead :: "nat \<Rightarrow> job list \<Rightarrow> nat" where
  "ahead a [] = 0"
| "ahead a (j # js) = (if result_promise j = Some a then 0 else Suc (ahead a js))"

definition queued :: "nat \<Rightarrow> pool \<Rightarrow> bool" where
  "queued a p \<longleftrightarrow> (\<exists>j \<in> set (queued_jobs (job_queue_ref p)). result_promise j = Some a)"

definition place :: "nat \<Rightarrow> pool \<Rightarrow> nat" where
  "place a p = ahead a (queued_jobs (job_queue_ref p))"

text \<open>A worker has the job, or its promise is kept.\<close>

definition taken :: "nat \<Rightarrow> pool \<Rightarrow> bool" where
  "taken a p \<longleftrightarrow> (\<exists>j \<in> worker_jobs (workers p). result_promise j = Some a) \<or> promises p a \<noteq> None"

lemma ahead_append: "\<exists>j \<in> set js. result_promise j = Some a \<Longrightarrow> ahead a (js @ js') = ahead a js"
  by (induction js) auto

definition queue_moves :: "pool \<Rightarrow> pool \<Rightarrow> bool" where
  "queue_moves p p' \<longleftrightarrow> queued_jobs (job_queue_ref p') = queued_jobs (job_queue_ref p)
     \<or> (\<exists>j. queued_jobs (job_queue_ref p') = queued_jobs (job_queue_ref p) @ [j])
     \<or> (\<exists>j. queued_jobs (job_queue_ref p) = j # queued_jobs (job_queue_ref p') \<and> j \<in> worker_jobs (workers p'))"

lemma queue_moves_position:
  assumes "queue_moves p p'" and "queued a p"
  shows "taken a p' \<or> (queued a p' \<and> place a p' \<le> place a p)"
  using assms(1) unfolding queue_moves_def
proof (elim disjE exE conjE)
  fix j
  assume q: "queued_jobs (job_queue_ref p) = j # queued_jobs (job_queue_ref p')" "j \<in> worker_jobs (workers p')"
  show ?thesis
  proof (cases "result_promise j = Some a")
    case True
    with q show ?thesis by (auto simp: taken_def)
  next
    case False
    with q assms(2) show ?thesis by (simp add: queued_def place_def)
  qed
qed (use assms(2) in \<open>simp_all add: queued_def place_def ahead_append\<close>)

lemma worker_jobs_nth: "i < length ws \<Longrightarrow> worker_job w = Some j \<Longrightarrow> j \<in> worker_jobs (ws[i := w])"
  by (force simp: worker_jobs_def set_update_memI)

lemma enqueue_fcfs: "queue_scheduler q = FCFS \<Longrightarrow> queued_jobs (enqueue q j) = queued_jobs q @ [j]"
  by (simp add: enqueue_def FCFS_addJob_def)

lemma try_dequeue_moves:
  assumes "queue_scheduler (job_queue_ref p) = FCFS" and "i < length (workers p)"
  shows "queue_moves p (try_dequeue i p)"
proof (cases "dequeue (job_queue_ref p)")
  case (Pair r q)
  show ?thesis
  proof (cases r)
    case (Got j)
    with Pair fcfs_dequeue [OF assms(1), of j q] worker_jobs_nth [OF assms(2), of "Executing j" j] show ?thesis
      by (simp add: queue_moves_def try_dequeue_def)
  qed (use Pair in \<open>simp_all add: queue_moves_def try_dequeue_def\<close>)
qed

lemma worker_moves:
  assumes "worker_step f obs i p p'" and "queue_scheduler (job_queue_ref p) = FCFS"
  shows "queue_moves p p'"
  using assms
proof (induction rule: worker_step.induct)
  case (takes p)
  then show ?case by (simp add: try_dequeue_moves)
qed (simp_all add: queue_moves_def loop_test_def report_def enqueue_fcfs)

lemma stop_change:
  "pool_step p p' \<Longrightarrow> stop_at p' \<noteq> stop_at p \<Longrightarrow>
   queued_jobs (job_queue_ref p') = queued_jobs (job_queue_ref p)
   \<and> (workers p' = workers p \<or> workers p' = notify_all (workers p))
   \<and> submitted p' = submitted p \<and> completed p' = completed p \<and> promises p' = promises p
   \<and> death p' = death p \<and> results p' = results p"
proof (induction rule: pool_step.induct)
  case (take p i)
  then show ?case by (cases "dequeue (job_queue_ref p)"; cases "fst (dequeue (job_queue_ref p))") (simp_all add: try_dequeue_def)
qed (simp_all add: loop_test_def report_def stop_queue_def)

lemma client_moves:
  assumes "client_change p p'" and "queue_scheduler (job_queue_ref p) = FCFS"
  shows "queue_moves p p'"
  using assms
proof (induction rule: client_change.induct)
  case (stops p p')
  then show ?case using stop_change by (simp add: queue_moves_def)
qed (simp_all add: queue_moves_def hand_over_def enqueue_fcfs)

section \<open>What only grows\<close>

lemma hand_over_sel [simp]: "submitted (hand_over j ws p) = j # submitted p" "death (hand_over j ws p) = death p"
  "stop_at (hand_over j ws p) = stop_at p" "promises (hand_over j ws p) = promises p" "workers (hand_over j ws p) = ws"
  by (simp_all add: hand_over_def)

lemma worker_step_stop: "worker_step f obs i p p' \<Longrightarrow> stop_at p' = stop_at p \<and> submitted p' = submitted p"
proof (induction rule: worker_step.induct)
  case (takes p)
  then show ?case by (cases "dequeue (job_queue_ref p)"; cases "fst (dequeue (job_queue_ref p))") (simp_all add: try_dequeue_def)
qed (simp_all add: loop_test_def report_def)

lemma pool_step_grows:
  "pool_step p p' \<Longrightarrow> set (submitted p) \<subseteq> set (submitted p') \<and> (promises p a \<noteq> None \<longrightarrow> promises p' a \<noteq> None)"
proof (induction rule: pool_step.induct)
  case (take p i)
  show ?case
  proof (cases "dequeue (job_queue_ref p)")
    case (Pair r q)
    then show ?thesis by (cases r) (simp_all add: try_dequeue_def)
  qed
next
  case (fulfil_promise p i j r)
  then show ?case by (simp add: fulfil_def split: option.split)
qed (auto simp: loop_test_def report_def)

text \<open>A kept promise belongs to a job whose result was delivered.\<close>

lemma kept_promise:
  assumes "reachable n k p" and "promises p a \<noteq> None"
  shows "\<exists>j r. (j, r) \<in> set (completed p) \<and> result_promise j = Some a \<and> make_result j r \<in> set (results p)
    \<and> promises p a = Some (promise_value r)"
proof -
  have ok: "reported_ok p" by (rule reported_ok_reachable [OF assms(1)])
  obtain v where v: "promises p a = Some v" using assms(2) by blast
  from ok have "promises_sound p" by (simp add: reported_ok_def)
  with v obtain j r where "(j, r) \<in> set (completed p)" "result_promise j = Some a" "v = promise_value r"
    unfolding promises_sound_def by blast
  moreover from this ok have "make_result j r \<in> set (results p)" by (auto simp: reported_ok_def results_there_def)
  ultimately show ?thesis using v by blast
qed

lemma completed_submitted:
  assumes "reachable n k p" and "(j, r) \<in> set (completed p)"
  shows "\<exists>j' \<in> set (submitted p). job_key j' = job_key j"
proof -
  have "job_key j \<in># image_mset (job_key \<circ> fst) (mset (completed p))" using assms(2) by force
  then have "job_key j \<in># image_mset job_key (mset (submitted p))"
    using conserved_reachable [OF assms(1)] by (simp add: conserved_def)
  then show ?thesis by force
qed

section \<open>Workers\<close>

text \<open>A worker that does not sleep is moved by its own steps only.\<close>

lemma notify_one_others: "notify_one ws ws' \<Longrightarrow> ws ! i \<noteq> Sleeping \<Longrightarrow> ws' ! i = ws ! i"
  by (erule notify_oneE) (auto simp: nth_list_update)

lemma notify_all_others: "i < length ws \<Longrightarrow> ws ! i \<noteq> Sleeping \<Longrightarrow> notify_all ws ! i = ws ! i"
  by (simp add: notify_all_def)

lemma worker_step_others:
  assumes "worker_step f obs k p p'" and "k \<noteq> i" and "workers p ! i \<noteq> Sleeping"
  shows "workers p' ! i = workers p ! i"
  using assms
proof (induction rule: worker_step.induct)
  case (takes p)
  then show ?case by (cases "dequeue (job_queue_ref p)"; cases "fst (dequeue (job_queue_ref p))") (simp_all add: try_dequeue_def)
next
  case (is_preempted p j j' r b ws)
  then show ?case using notify_one_others [OF is_preempted(7), of i] by simp
next
  case (fulfils p j r)
  then show ?case using fulfil_workers [of k j r p] by auto
qed (simp_all add: loop_test_def report_def)

lemma client_change_others:
  assumes "client_change p p'" and "i < length (workers p)" and "workers p ! i \<noteq> Sleeping"
  shows "workers p' ! i = workers p ! i"
  using assms
proof (induction rule: client_change.induct)
  case (stops p p')
  then show ?case using stop_change [of p p'] notify_all_others [of i "workers p"] by auto
qed (simp_all add: hand_over_def notify_one_others)

text \<open>The steps a worker may take before it looks at the queue.\<close>

fun steps_to_queue :: "worker \<Rightarrow> nat" where
  "steps_to_queue (Executing j) = 4"
| "steps_to_queue (Reported j r) = 3"
| "steps_to_queue Loop_Head = 2"
| "steps_to_queue _ = 1"

lemma steps_to_queue_bound: "steps_to_queue w \<le> 4" "0 < steps_to_queue w"
  by (cases w; simp)+

text \<open>Someone is awake while a job waits.\<close>

lemma somebody_awake:
  assumes "reachable n k p" and "0 < n" and "stop_at p = Not_Stopping" and "queued_jobs (job_queue_ref p) \<noteq> []"
  shows "\<exists>i. worker_runnable p i"
proof (rule ccontr)
  assume none: "\<nexists>i. worker_runnable p i"
  have n: "length (workers p) = n" using pool_shape [OF assms(1)] by simp
  have e: "Exited \<notin> set (workers p)" using before_stop_reachable [OF assms(1)] assms(3) by (simp add: before_stop_def)
  have s: "w = Sleeping" if "w \<in> set (workers p)" for w
    using that none e by (auto simp: worker_runnable_def set_conv_nth)
  have "Sleeping \<in> set (workers p)" using n assms(2) s by (metis length_greater_0_conv list.set_intros(1) neq_Nil_conv)
  with wakeups_ok_reachable [OF assms(1)] assms(4) have "0 < wsum notified (workers p)"
    by (auto simp: wakeups_ok_def neq_Nil_conv)
  then have "Notified \<in> set (workers p)" by (rule wsum_notified_pos)
  with s show False by blast
qed

text \<open>The phases of \<open>stop\<close> in their order.\<close>

definition stop_follows :: "stop_phase \<Rightarrow> stop_phase \<Rightarrow> bool" where
  "stop_follows x y \<longleftrightarrow> (x, y) \<in> {(Not_Stopping, Running_Cleared), (Running_Cleared, Queue_Stopped),
     (Queue_Stopped, Joining), (Joining, Joined)}"

lemma stop_order:
  "pool_step p p' \<Longrightarrow> stop_at p' \<noteq> stop_at p \<Longrightarrow>
   stop_follows (stop_at p) (stop_at p')"
proof (induction rule: pool_step.induct)
  case (take p i)
  show ?case
  proof (cases "dequeue (job_queue_ref p)")
    case (Pair r q)
    with take show ?thesis by (cases r) (simp_all add: try_dequeue_def stop_follows_def)
  qed
qed (simp_all add: loop_test_def report_def stop_follows_def)

fun phases_left :: "stop_phase \<Rightarrow> nat" where
  "phases_left Not_Stopping = 4"
| "phases_left Running_Cleared = 3"
| "phases_left Queue_Stopped = 2"
| "phases_left Joining = 1"
| "phases_left Joined = 0"

lemma stop_follows_less: "stop_follows x y \<Longrightarrow> phases_left y < phases_left x"
  by (auto simp: stop_follows_def)

section \<open>Progress\<close>

context pool_client
begin

lemma run_reaches:
  assumes "fair_run lstep runnable first \<sigma> \<tau>"
  shows "(any_thread lstep)\<^sup>*\<^sup>* first (\<sigma> m)"
proof (induction m)
  case 0
  then show ?case using assms by (simp add: fair_run_def)
next
  case (Suc m)
  from assms have "case \<tau> m of None \<Rightarrow> \<sigma> (Suc m) = \<sigma> m | Some t \<Rightarrow> lstep t (\<sigma> m) (\<sigma> (Suc m))"
    by (simp add: fair_run_def)
  with Suc show ?case
    by (cases "\<tau> m") (auto simp: any_thread_def intro: rtranclp.rtrancl_into_rtrancl)
qed

lemma run_moves:
  assumes "fair_run lstep runnable first \<sigma> \<tau>"
  shows "case \<tau> m of None \<Rightarrow> \<sigma> (Suc m) = \<sigma> m | Some t \<Rightarrow> lstep t (\<sigma> m) (\<sigma> (Suc m))"
  using assms by (simp add: fair_run_def)

lemma run_step:
  assumes "fair_run lstep runnable first \<sigma> \<tau>" and "\<tau> m = Some t"
  shows "lstep t (\<sigma> m) (\<sigma> (Suc m))"
  using run_moves [OF assms(1), of m] assms(2) by simp

lemma run_idle:
  assumes "fair_run lstep runnable first \<sigma> \<tau>" and "\<tau> m = None"
  shows "\<sigma> (Suc m) = \<sigma> m"
  using run_moves [OF assms(1), of m] assms(2) by simp

lemma others_leave:
  assumes "lstep t s s'" and "t \<noteq> Worker i" and "i < length (workers (view s))" and "workers (view s) ! i \<noteq> Sleeping"
  shows "workers (view s') ! i = workers (view s) ! i"
proof (cases "\<exists>k. t = Worker k")
  case True
  with assms(1) obtain k where "t = Worker k" "worker_step f obs k (view s) (view s')" using worker by blast
  with assms(2,4) worker_step_others [of f obs k "view s" "view s'" i] show ?thesis by simp
next
  case False
  with assms(1) have "client_change (view s) (view s')" using client by blast
  with assms(3,4) show ?thesis by (simp add: client_change_others)
qed

lemma length_workers: "(any_thread lstep)\<^sup>*\<^sup>* first s \<Longrightarrow> length (workers (view s)) = n"
  using pool_shape view_reachable by blast

lemma step_moves: "(any_thread lstep)\<^sup>*\<^sup>* first s \<Longrightarrow> lstep t s s' \<Longrightarrow> kind = FCFS \<Longrightarrow> queue_moves (view s) (view s')"
proof -
  assume r: "(any_thread lstep)\<^sup>*\<^sup>* first s" "lstep t s s'" "kind = FCFS"
  then have q: "queue_scheduler (job_queue_ref (view s)) = FCFS" using pool_shape view_reachable by blast
  show ?thesis
  proof (cases "\<exists>i. t = Worker i")
    case True
    with r(2) q show ?thesis using worker worker_moves by blast
  next
    case False
    with r(2) q show ?thesis using client client_moves by blast
  qed
qed

text \<open>
  A condition that other threads keep, and under which the thread \<open>t\<close> can run, lasts until \<open>t\<close> takes a
  step.
\<close>

lemma lasts:
  assumes run: "fair_run lstep runnable first \<sigma> \<tau>" and P: "P (\<sigma> m)"
    and stable: "\<And>k t'. m \<le> k \<Longrightarrow> t' \<noteq> t \<Longrightarrow> lstep t' (\<sigma> k) (\<sigma> (Suc k)) \<Longrightarrow> P (\<sigma> k) \<Longrightarrow> P (\<sigma> (Suc k))"
  shows "(\<exists>m' \<ge> m. \<tau> m' = Some t \<and> P (\<sigma> m')) \<or> (\<forall>k \<ge> m. P (\<sigma> k))"
proof (rule disjCI)
  assume no: "\<not> (\<forall>k \<ge> m. P (\<sigma> k))"
  show "\<exists>m' \<ge> m. \<tau> m' = Some t \<and> P (\<sigma> m')"
  proof (rule ccontr)
    assume never: "\<not> ?thesis"
    have "P (\<sigma> k)" if "m \<le> k" for k
      using that
    proof (induction rule: dec_induct)
      case (step k)
      show ?case
      proof (cases "\<tau> k")
        case None
        with step.IH run_idle [OF run] show ?thesis by simp
      next
        case (Some t')
        with never step have "t' \<noteq> t" by auto
        with stable step run_step [OF run Some] show ?thesis by blast
      qed
    qed (rule P)
    with no show False by blast
  qed
qed

lemma first_step:
  assumes run: "fair_run lstep runnable first \<sigma> \<tau>" and P: "P (\<sigma> m)"
    and stable: "\<And>k t'. m \<le> k \<Longrightarrow> t' \<noteq> t \<Longrightarrow> lstep t' (\<sigma> k) (\<sigma> (Suc k)) \<Longrightarrow> P (\<sigma> k) \<Longrightarrow> P (\<sigma> (Suc k))"
    and enabled: "\<And>k. m \<le> k \<Longrightarrow> P (\<sigma> k) \<Longrightarrow> runnable (\<sigma> k) t"
  shows "\<exists>m' \<ge> m. \<tau> m' = Some t \<and> P (\<sigma> m')"
proof -
  from run obtain k where k: "m \<le> k" "\<tau> k = Some t \<or> \<not> runnable (\<sigma> k) t" unfolding fair_run_def by blast
  from lasts [where P = P and t = t, OF run P stable] show ?thesis
  proof
    assume "\<forall>k \<ge> m. P (\<sigma> k)"
    with k enabled show ?thesis by blast
  qed
qed

text \<open>A worker that can run takes its next step from the state it is in.\<close>

lemma next_step:
  assumes run: "fair_run lstep runnable first \<sigma> \<tau>" and live: "\<And>k. m \<le> k \<Longrightarrow> alive (\<sigma> k)"
    and w: "worker_runnable (view (\<sigma> m)) i"
  shows "\<exists>m' \<ge> m. \<tau> m' = Some (Worker i) \<and> worker_runnable (view (\<sigma> m')) i
    \<and> workers (view (\<sigma> m')) ! i = workers (view (\<sigma> m)) ! i"
proof (rule first_step [OF run, where t = "Worker i"])
  fix k t'
  assume "t' \<noteq> Worker i" "lstep t' (\<sigma> k) (\<sigma> (Suc k))" and
    "worker_runnable (view (\<sigma> k)) i \<and> workers (view (\<sigma> k)) ! i = workers (view (\<sigma> m)) ! i"
  then show "worker_runnable (view (\<sigma> (Suc k))) i \<and> workers (view (\<sigma> (Suc k))) ! i = workers (view (\<sigma> m)) ! i"
    using others_leave [of t' "\<sigma> k" "\<sigma> (Suc k)" i] length_workers [OF run_reaches [OF run]] by (auto simp: worker_runnable_def)
qed (use w live alive in auto)

text \<open>What a worker's step does when nobody stops the pool.\<close>

lemma awake_step:
  assumes s: "(any_thread lstep)\<^sup>*\<^sup>* first s" and st: "worker_step f obs i (view s) p'"
    and alive: "\<not> terminated p'" and stop: "stop_at (view s) = Not_Stopping"
    and q: "\<not> 0 < sint quantum" and w: "workers (view s) ! i \<notin> {Enter_Dequeue, Notified, Sleeping, Exited}"
  shows "job_queue_ref p' = job_queue_ref (view s) \<and> worker_runnable p' i
    \<and> steps_to_queue (workers p' ! i) < steps_to_queue (workers (view s) ! i)
    \<and> (\<forall>j. worker_job (workers (view s) ! i) = Some j \<longrightarrow>
        (\<exists>j' r. workers p' ! i = Reported j' r \<and> result_promise j' = result_promise j)
        \<or> (\<forall>a. result_promise j = Some a \<longrightarrow> promises p' a \<noteq> None))"
  using st
proof (cases rule: worker_step.cases)
  case tests
  then show ?thesis
    using before_stop_reachable [OF view_reachable [OF s]] stop
    by (simp add: before_stop_def loop_test_def worker_runnable_def)
next
  case (is_preempted j j' r b ws)
  then have "j \<in> pool_jobs (view s)" by (force simp: pool_jobs_def worker_jobs_def in_set_conv_nth)
  with job_quantum [OF s] q executes_to_end [OF is_preempted(5)] is_preempted(6) show ?thesis by simp
next
  case (reports j j' r)
  then show ?thesis
    using arg_cong [OF executes_same_job [OF reports(5), THEN same_job_key], of snd]
    by (simp add: report_def worker_runnable_def job_key_def)
next
  case (fulfils j r)
  then have "Reported j r \<in> set (workers (view s))" by (metis nth_mem)
  with never_rethrows [OF s this] fulfils show ?thesis
    by (auto simp: fulfil_def worker_runnable_def split: option.splits if_splits)
qed (use w alive in auto)

text \<open>A job that a worker holds is delivered.\<close>

lemma held_delivered:
  assumes run: "fair_run lstep runnable first \<sigma> \<tau>" and live: "\<And>k. m \<le> k \<Longrightarrow> alive (\<sigma> k)"
    and dead: "\<And>s. alive s \<Longrightarrow> \<not> terminated (view s)" and opened: "\<And>k. m \<le> k \<Longrightarrow> stop_at (view (\<sigma> k)) = Not_Stopping"
    and q: "\<not> 0 < sint quantum"
    and i: "i < length (workers (view (\<sigma> m)))" "worker_job (workers (view (\<sigma> m)) ! i) = Some j" "result_promise j = Some a"
  shows "\<exists>m' \<ge> m. promises (view (\<sigma> m')) a \<noteq> None"
  using i live opened
proof (induction "steps_to_queue (workers (view (\<sigma> m)) ! i)" arbitrary: m j rule: less_induct)
  case less
  then have "worker_runnable (view (\<sigma> m)) i" by (auto simp: worker_runnable_def)
  from next_step [OF run less.prems(4) this] obtain m' where m': "m \<le> m'" "\<tau> m' = Some (Worker i)"
    "worker_runnable (view (\<sigma> m')) i" "workers (view (\<sigma> m')) ! i = workers (view (\<sigma> m)) ! i" by blast
  let ?p = "view (\<sigma> (Suc m'))"
  from run_step [OF run m'(2)] worker have st: "worker_step f obs i (view (\<sigma> m')) ?p" by blast
  have "workers (view (\<sigma> m')) ! i \<notin> {Enter_Dequeue, Notified, Sleeping, Exited}" using less.prems(2) m'(4) by auto
  from awake_step [OF run_reaches [OF run] st dead [OF less.prems(4)] less.prems(5) q this] m' less.prems
  have n: "worker_runnable ?p i" "steps_to_queue (workers ?p ! i) < steps_to_queue (workers (view (\<sigma> m)) ! i)"
    "(\<exists>j' r. workers ?p ! i = Reported j' r \<and> result_promise j' = Some a) \<or> promises ?p a \<noteq> None"
    by auto
  from n(3) show ?case
  proof
    assume "\<exists>j' r. workers ?p ! i = Reported j' r \<and> result_promise j' = Some a"
    then obtain j' r where "workers ?p ! i = Reported j' r" "result_promise j' = Some a" by blast
    with less.hyps [of "Suc m'" j'] n m'(1) less.prems obtain k where "Suc m' \<le> k" "promises (view (\<sigma> k)) a \<noteq> None"
      by (auto simp: worker_runnable_def)
    with m'(1) show ?thesis by (meson Suc_leD order_trans)
  next
    assume "promises ?p a \<noteq> None"
    with m'(1) show ?thesis by (meson le_SucI)
  qed
qed

text \<open>A job in the queue stays there or is taken, and gets no further from the head.\<close>

lemma queued_stays:
  assumes run: "fair_run lstep runnable first \<sigma> \<tau>" and "kind = FCFS" and q: "queued a (view (\<sigma> m))" and "m \<le> m'"
  shows "(\<exists>k. m \<le> k \<and> k \<le> m' \<and> taken a (view (\<sigma> k)))
    \<or> (queued a (view (\<sigma> m')) \<and> place a (view (\<sigma> m')) \<le> place a (view (\<sigma> m)))"
  using \<open>m \<le> m'\<close>
proof (induction rule: dec_induct)
  case base
  then show ?case using q by simp
next
  case (step k)
  show ?case
  proof (cases "\<tau> k")
    case None
    with step.IH run_idle [OF run] show ?thesis by (auto intro: le_SucI)
  next
    case (Some t)
    from step.IH show ?thesis
    proof
      assume "queued a (view (\<sigma> k)) \<and> place a (view (\<sigma> k)) \<le> place a (view (\<sigma> m))"
      with queue_moves_position [OF step_moves [OF run_reaches [OF run] run_step [OF run Some] \<open>kind = FCFS\<close>], of a] step(1)
      show ?thesis by (meson le_Suc_eq le_SucI order_refl order_trans)
    qed (meson le_SucI)
  qed
qed

lemma take_progress:
  assumes s: "(any_thread lstep)\<^sup>*\<^sup>* first s" and st: "worker_step f obs i (view s) p'" and k: "kind = FCFS"
    and w: "workers (view s) ! i \<in> {Enter_Dequeue, Notified}" and q: "queued a (view s)"
  shows "taken a p' \<or> (queued a p' \<and> place a p' < place a (view s))"
  using st
proof (cases rule: worker_step.cases)
  case takes
  have fc: "queue_scheduler (job_queue_ref (view s)) = FCFS" using pool_shape [OF view_reachable [OF s]] k by simp
  obtain r qu where d: "dequeue (job_queue_ref (view s)) = (r, qu)" by fastforce
  show ?thesis
  proof (cases r)
    case (Got j)
    have jq: "queued_jobs (job_queue_ref (view s)) = j # queued_jobs qu" using fcfs_dequeue [OF fc] d Got by simp
    have j: "j \<in> worker_jobs ((workers (view s))[i := Executing j])"
      using worker_jobs_nth [OF takes(3), of "Executing j" j] by simp
    show ?thesis
    proof (cases "result_promise j = Some a")
      case True
      with j d Got takes show ?thesis by (auto simp: taken_def try_dequeue_def)
    next
      case False
      with q jq d Got takes show ?thesis by (simp add: queued_def place_def try_dequeue_def)
    qed
  next
    case Blocked
    with q d dequeue_Blocked_iff [of "job_queue_ref (view s)"] show ?thesis by (auto simp: queued_def)
  next
    case Nullopt
    with q d dequeue_Nullopt_iff [of "job_queue_ref (view s)"] show ?thesis by (auto simp: queued_def)
  next
    case (Undefined e)
    with fcfs_defined [OF fc, of e qu] d show ?thesis by simp
  qed
qed (use w in auto)

lemma queued_taken:
  assumes run: "fair_run lstep runnable first \<sigma> \<tau>" and live: "\<And>k. m \<le> k \<Longrightarrow> alive (\<sigma> k)"
    and dead: "\<And>s. alive s \<Longrightarrow> \<not> terminated (view s)" and opened: "\<And>k. m \<le> k \<Longrightarrow> stop_at (view (\<sigma> k)) = Not_Stopping"
    and q: "\<not> 0 < sint quantum" and k: "kind = FCFS" and n: "0 < n"
    and a: "queued a (view (\<sigma> m))" and i: "worker_runnable (view (\<sigma> m)) i"
  shows "\<exists>m' \<ge> m. taken a (view (\<sigma> m'))"
  using a i live opened
proof (induction "5 * place a (view (\<sigma> m)) + steps_to_queue (workers (view (\<sigma> m)) ! i)" arbitrary: m i rule: less_induct)
  case less
  from next_step [OF run less.prems(3,2)] obtain m' where m': "m \<le> m'" "\<tau> m' = Some (Worker i)"
    "worker_runnable (view (\<sigma> m')) i" "workers (view (\<sigma> m')) ! i = workers (view (\<sigma> m)) ! i" by blast
  let ?p = "view (\<sigma> (Suc m'))"
  from run_step [OF run m'(2)] worker have st: "worker_step f obs i (view (\<sigma> m')) ?p" by blast
  from queued_stays [OF run k less.prems(1) m'(1)] consider
    (taken) "\<exists>k. m \<le> k \<and> taken a (view (\<sigma> k))" |
    (queued) "queued a (view (\<sigma> m'))" "place a (view (\<sigma> m')) \<le> place a (view (\<sigma> m))" by blast
  then show ?case
  proof cases
    case queued
    have later: "\<exists>m' \<ge> m. taken a (view (\<sigma> m'))" if "queued a ?p" "worker_runnable ?p i'"
      "5 * place a ?p + steps_to_queue (workers ?p ! i') < 5 * place a (view (\<sigma> m)) + steps_to_queue (workers (view (\<sigma> m)) ! i)"
      for i'
    proof -
      from less.hyps [OF that(3,1,2)] less.prems m'(1) obtain k where "Suc m' \<le> k" "taken a (view (\<sigma> k))" by auto
      with m'(1) show ?thesis by (meson Suc_leD order_trans)
    qed
    show ?thesis
    proof (cases "workers (view (\<sigma> m')) ! i \<in> {Enter_Dequeue, Notified}")
      case True
      from take_progress [OF run_reaches [OF run] st k True queued(1)] show ?thesis
      proof
        assume "taken a ?p"
        with m'(1) show ?thesis by (meson le_SucI)
      next
        assume p: "queued a ?p \<and> place a ?p < place a (view (\<sigma> m'))"
        then have "queued_jobs (job_queue_ref ?p) \<noteq> []" by (auto simp: queued_def)
        with somebody_awake [OF view_reachable [OF run_reaches [OF run]] n] less.prems(4) m'(1)
        obtain i' where i': "worker_runnable ?p i'" by (meson le_SucI)
        show ?thesis
        proof (rule later [OF _ i'])
          show "5 * place a ?p + steps_to_queue (workers ?p ! i')
              < 5 * place a (view (\<sigma> m)) + steps_to_queue (workers (view (\<sigma> m)) ! i)"
            using p queued(2) steps_to_queue_bound(1) [of "workers ?p ! i'"] steps_to_queue_bound(2) [of "workers (view (\<sigma> m)) ! i"]
            by linarith
        qed (use p in simp)
      qed
    next
      case False
      with m'(3) have w: "workers (view (\<sigma> m')) ! i \<notin> {Enter_Dequeue, Notified, Sleeping, Exited}"
        by (auto simp: worker_runnable_def)
      from awake_step [OF run_reaches [OF run] st dead [OF less.prems(3)] less.prems(4) q w] m'
      have "job_queue_ref ?p = job_queue_ref (view (\<sigma> m'))" "worker_runnable ?p i"
        "steps_to_queue (workers ?p ! i) < steps_to_queue (workers (view (\<sigma> m)) ! i)" by auto
      with queued show ?thesis by (intro later [of i]) (auto simp: queued_def place_def)
    qed
  qed blast
qed

text \<open>Every job that was submitted is completed.\<close>

lemma job_done:
  assumes run: "fair_run lstep runnable first \<sigma> \<tau>" and live: "\<And>k. m \<le> k \<Longrightarrow> alive (\<sigma> k)"
    and dead: "\<And>s. alive s \<Longrightarrow> \<not> terminated (view s)" and opened: "\<And>k. m \<le> k \<Longrightarrow> stop_at (view (\<sigma> k)) = Not_Stopping"
    and q: "\<not> 0 < sint quantum" and k: "kind = FCFS" and n: "0 < n"
    and j: "j \<in> set (submitted (view (\<sigma> m)))" and a: "result_promise j = Some a"
  shows "\<exists>m' \<ge> m. promises (view (\<sigma> m')) a \<noteq> None"
proof -
  note r = view_reachable [OF run_reaches [OF run]]
  have held: ?thesis if "m \<le> k" "taken a (view (\<sigma> k))" for k
    using that(2) unfolding taken_def
  proof
    assume "\<exists>j \<in> worker_jobs (workers (view (\<sigma> k))). result_promise j = Some a"
    then obtain i j where "i < length (workers (view (\<sigma> k)))" "worker_job (workers (view (\<sigma> k)) ! i) = Some j"
      "result_promise j = Some a" by (auto simp: worker_jobs_def in_set_conv_nth)
    from held_delivered [OF run _ dead _ q this] live opened that(1) show ?thesis by (meson order_trans)
  qed (use that(1) in blast)
  from job_located [OF r j] show ?thesis
  proof (elim disjE bexE exE conjE)
    fix j'
    assume "j' \<in> pool_jobs (view (\<sigma> m))" "job_key j' = job_key j"
    then consider "queued a (view (\<sigma> m))" | "taken a (view (\<sigma> m))"
      using a by (auto simp: pool_jobs_def job_key_def queued_def taken_def)
    then show ?thesis
    proof cases
      case 1
      then have "queued_jobs (job_queue_ref (view (\<sigma> m))) \<noteq> []" by (auto simp: queued_def)
      from somebody_awake [OF r n opened this] obtain i where "worker_runnable (view (\<sigma> m)) i" by auto
      from queued_taken [OF run live dead opened q k n 1 this] held show ?thesis by blast
    qed (use held in blast)
  next
    fix j' x
    assume "(j', x) \<in> set (completed (view (\<sigma> m)))" "job_key j' = job_key j"
    with reported_ok_reachable [OF r] a show ?thesis
      unfolding reported_ok_def promises_complete_def job_key_def by (metis order_refl prod.inject)
  qed
qed

section \<open>Shutdown\<close>

text \<open>While the pool is being stopped a worker's step brings it closer to its end.\<close>

lemma closing_step:
  assumes s: "(any_thread lstep)\<^sup>*\<^sup>* first s" and st: "worker_step f obs i (view s) p'"
    and alive: "\<not> terminated p'" and stop: "stop_at (view s) \<in> {Joining, Joined}"
  shows "steps_left (workers p' ! i) < steps_left (workers (view s) ! i)"
proof -
  have ok: "\<not> running (view s)" "stopping (job_queue_ref (view s))" "Sleeping \<notin> set (workers (view s))"
    using shutdown_ok_reachable [OF view_reachable [OF s]] stop by (auto simp: shutdown_ok_def)
  from st show ?thesis
  proof (cases rule: worker_step.cases)
    case takes
    with ok(3) have w: "workers (view s) ! i \<in> {Enter_Dequeue, Notified}" by (metis insertE insertI1 insert_commute nth_mem)
    show ?thesis
    proof (cases "dequeue (job_queue_ref (view s))")
      case (Pair r q)
      with takes w alive ok(2) dequeue_Blocked_iff [of "job_queue_ref (view s)"] show ?thesis
        by (cases r) (auto simp: try_dequeue_def)
    qed
  next
    case (is_preempted j j' r b ws)
    have "Sleeping \<notin> set ((workers (view s))[i := Loop_Head])" using ok(3) by (auto dest: set_update_other)
    with is_preempted(8) have "ws = (workers (view s))[i := Loop_Head]" by (rule notify_one_awake)
    with is_preempted show ?thesis by simp
  next
    case (fulfils j r)
    with alive show ?thesis by (auto simp: fulfil_def split: option.splits if_splits)
  qed (use ok alive in \<open>auto simp: loop_test_def report_def\<close>)
qed

lemma exited_stays:
  assumes run: "fair_run lstep runnable first \<sigma> \<tau>" and i: "i < n" "workers (view (\<sigma> m)) ! i = Exited" and "m \<le> k"
  shows "workers (view (\<sigma> k)) ! i = Exited"
  using assms(4)
proof (induction rule: dec_induct)
  case (step k)
  show ?case
  proof (cases "\<tau> k")
    case None
    with step run_idle [OF run] show ?thesis by simp
  next
    case (Some t)
    note st = run_step [OF run Some]
    have "t \<noteq> Worker i"
    proof
      assume "t = Worker i"
      with st worker have "worker_step f obs i (view (\<sigma> k)) (view (\<sigma> (Suc k)))" by blast
      with step.IH show False by (auto elim: worker_stepE)
    qed
    with others_leave [OF st this] step.IH i(1) length_workers [OF run_reaches [OF run]] show ?thesis by simp
  qed
qed (use i in simp)

lemma worker_exits:
  assumes run: "fair_run lstep runnable first \<sigma> \<tau>" and live: "\<And>k. m \<le> k \<Longrightarrow> alive (\<sigma> k)"
    and dead: "\<And>s. alive s \<Longrightarrow> \<not> terminated (view s)" and stop: "\<And>k. m \<le> k \<Longrightarrow> stop_at (view (\<sigma> k)) \<in> {Joining, Joined}"
    and i: "i < n"
  shows "\<exists>m' \<ge> m. workers (view (\<sigma> m')) ! i = Exited"
  using live stop
proof (induction "steps_left (workers (view (\<sigma> m)) ! i)" arbitrary: m rule: less_induct)
  case less
  show ?case
  proof (cases "workers (view (\<sigma> m)) ! i = Exited")
    case False
    have n: "i < length (workers (view (\<sigma> m)))" using length_workers [OF run_reaches [OF run]] i by simp
    have "Sleeping \<notin> set (workers (view (\<sigma> m)))"
      using shutdown_ok_reachable [OF view_reachable [OF run_reaches [OF run]], of m] less.prems(2) [of m]
      by (auto simp: shutdown_ok_def)
    with n False have "worker_runnable (view (\<sigma> m)) i" by (auto simp: worker_runnable_def dest: nth_mem)
    from next_step [OF run less.prems(1) this] obtain m' where m': "m \<le> m'" "\<tau> m' = Some (Worker i)"
      "workers (view (\<sigma> m')) ! i = workers (view (\<sigma> m)) ! i" by blast
    from run_step [OF run m'(2)] worker have st: "worker_step f obs i (view (\<sigma> m')) (view (\<sigma> (Suc m')))" by blast
    from closing_step [OF run_reaches [OF run] st dead [OF less.prems(1)] less.prems(2)] m'
    have "steps_left (workers (view (\<sigma> (Suc m'))) ! i) < steps_left (workers (view (\<sigma> m)) ! i)" by simp
    from less.hyps [OF this] less.prems m'(1) obtain k where "Suc m' \<le> k" "workers (view (\<sigma> k)) ! i = Exited" by auto
    with m'(1) show ?thesis by (meson Suc_leD order_trans)
  qed blast
qed

lemma all_exit:
  assumes run: "fair_run lstep runnable first \<sigma> \<tau>" and live: "\<And>k. m \<le> k \<Longrightarrow> alive (\<sigma> k)"
    and dead: "\<And>s. alive s \<Longrightarrow> \<not> terminated (view s)" and stop: "\<And>k. m \<le> k \<Longrightarrow> stop_at (view (\<sigma> k)) \<in> {Joining, Joined}"
  shows "\<exists>m' \<ge> m. \<forall>k \<ge> m'. set (workers (view (\<sigma> k))) \<subseteq> {Exited}"
proof -
  have "\<exists>m' \<ge> m. \<forall>i < c. \<forall>k \<ge> m'. workers (view (\<sigma> k)) ! i = Exited" if "c \<le> n" for c
    using that
  proof (induction c)
    case (Suc c)
    then obtain m1 where m1: "m \<le> m1" "\<forall>i < c. \<forall>k \<ge> m1. workers (view (\<sigma> k)) ! i = Exited" by auto
    have "c < n" using Suc.prems by simp
    with worker_exits [OF run live dead stop] obtain m2 where
      m2: "m \<le> m2" "workers (view (\<sigma> m2)) ! c = Exited" by auto
    with exited_stays [OF run _ m2(2)] Suc.prems have "workers (view (\<sigma> k)) ! c = Exited" if "m2 \<le> k" for k using that by simp
    with m1 show ?case by (intro exI [of _ "max m1 m2"]) (auto simp: less_Suc_eq)
  qed auto
  then obtain m' where m': "m \<le> m'" "\<forall>i < n. \<forall>k \<ge> m'. workers (view (\<sigma> k)) ! i = Exited" by blast
  have "set (workers (view (\<sigma> k))) \<subseteq> {Exited}" if "m' \<le> k" for k
    using m'(2) that length_workers [OF run_reaches [OF run], of k] by (auto simp: in_set_conv_nth)
  with m'(1) show ?thesis by blast
qed

text \<open>
  A thread \<open>t\<close> that calls \<open>stop\<close> (while \<open>in_stop\<close> holds) leaves it, whatever the others do.
\<close>

lemma stop_completes:
  assumes run: "fair_run lstep runnable first \<sigma> \<tau>"
    and dead: "\<And>s. alive s \<Longrightarrow> \<not> terminated (view s)" and live: "\<And>k. in_stop (\<sigma> k) \<Longrightarrow> alive (\<sigma> k)"
    and others: "\<And>t' s s'. lstep t' s s' \<Longrightarrow> t' \<noteq> t \<Longrightarrow> in_stop s \<Longrightarrow> in_stop s' \<and> stop_at (view s') = stop_at (view s)"
    and own: "\<And>s s'. lstep t s s' \<Longrightarrow> in_stop s \<Longrightarrow>
      gone s' \<and> stop_at (view s) = Joined \<or> in_stop s' \<and> stop_follows (stop_at (view s)) (stop_at (view s'))"
    and enabled: "\<And>s. in_stop s \<Longrightarrow> alive s \<Longrightarrow> stop_at (view s) \<noteq> Joining \<or> set (workers (view s)) \<subseteq> {Exited} \<Longrightarrow> runnable s t"
    and "in_stop (\<sigma> m)"
  shows "\<exists>m' \<ge> m. gone (\<sigma> (Suc m')) \<and> stop_at (view (\<sigma> m')) = Joined"
  using assms(7)
proof (induction "phases_left (stop_at (view (\<sigma> m)))" arbitrary: m rule: less_induct)
  case less
  let ?at = "stop_at (view (\<sigma> m))"
  define P where "P s \<longleftrightarrow> in_stop s \<and> stop_at (view s) = ?at" for s
  have stable: "P (\<sigma> (Suc k))" if "t' \<noteq> t" "lstep t' (\<sigma> k) (\<sigma> (Suc k))" "P (\<sigma> k)" for k t'
    using others [OF that(2,1)] that(3) by (simp add: P_def)
  have "\<exists>m' \<ge> m. \<tau> m' = Some t \<and> P (\<sigma> m')"
  proof (cases "?at = Joining")
    case False
    show ?thesis
      by (rule first_step [OF run, of P m t]) (use less.prems stable live enabled False in \<open>simp_all add: P_def\<close>)
  next
    case True
    from lasts [where P = P and t = t, OF run _ stable] less.prems
    have "(\<exists>m' \<ge> m. \<tau> m' = Some t \<and> P (\<sigma> m')) \<or> (\<forall>k \<ge> m. P (\<sigma> k))" by (simp add: P_def)
    then show ?thesis
    proof
      assume P: "\<forall>k \<ge> m. P (\<sigma> k)"
      have "\<exists>m' \<ge> m. \<forall>k \<ge> m'. set (workers (view (\<sigma> k))) \<subseteq> {Exited}"
        by (rule all_exit [OF run]) (use P live True dead in \<open>auto simp: P_def\<close>)
      then obtain k where k: "m \<le> k" "\<forall>k' \<ge> k. set (workers (view (\<sigma> k'))) \<subseteq> {Exited}" by blast
      from run obtain k' where k': "k \<le> k'" "\<tau> k' = Some t \<or> \<not> runnable (\<sigma> k') t"
        unfolding fair_run_def by blast
      have "P (\<sigma> k')" using P k(1) k'(1) by simp
      moreover from this k(2) k'(1) live [of k'] have "runnable (\<sigma> k') t" by (intro enabled) (simp_all add: P_def)
      ultimately show ?thesis using k(1) k' by (meson order_trans)
    qed
  qed
  then obtain m' where m': "m \<le> m'" "\<tau> m' = Some t" "P (\<sigma> m')" by blast
  then have "in_stop (\<sigma> m')" by (simp add: P_def)
  from own [OF run_step [OF run m'(2)] this] show ?case
  proof
    assume "in_stop (\<sigma> (Suc m')) \<and> stop_follows (stop_at (view (\<sigma> m'))) (stop_at (view (\<sigma> (Suc m'))))"
    with m'(3) stop_follows_less have "phases_left (stop_at (view (\<sigma> (Suc m')))) < phases_left ?at" "in_stop (\<sigma> (Suc m'))"
      by (auto simp: P_def)
    from less.hyps [OF this] obtain k where "Suc m' \<le> k" "gone (\<sigma> (Suc k)) \<and> stop_at (view (\<sigma> k)) = Joined" by blast
    with m'(1) show ?thesis by (meson Suc_leD order_trans)
  qed (use m'(1) in blast)
qed

lemma joined_workers: "(any_thread lstep)\<^sup>*\<^sup>* first s \<Longrightarrow> stop_at (view s) = Joined \<Longrightarrow> set (workers (view s)) \<subseteq> {Exited}"
  using shutdown_ok_reachable [OF view_reachable] by (simp add: shutdown_ok_def)

end

section \<open>A kernel for concrete runs\<close>

text \<open>Every call fails, so that no child can be started and a job ends with status 1.\<close>

definition refusing_kernel :: kernel where
  "refusing_kernel h c = \<lparr>rv = - 1, pipe_fds = (0, 0), wait_status = 0, data = [], env_value = None,
     numbers = [], err_number = 0\<rparr>"

end
