(* ===== verification/Front_End.thy ===== *)
theory Front_End
  imports Executor Observers
begin

text \<open>
  The two ways in, \<open>src/main.cpp\<close>: the shell that reads commands from the terminal and the daemon
  thread that reads requests in JSON from a pipe. Both share the job queue and the counter of job
  identifiers. Waiting for a foreground job is an outcome of a line; what the workers do meanwhile
  is the business of the worker pool.
\<close>

section \<open>Model\<close>

record front_end =
  next_job_id :: uint64
  next_promise :: nat
  fe_queue :: job_queue

definition new_front_end :: front_end where
  "new_front_end = \<lparr>next_job_id = 1, next_promise = 0, fe_queue = new_queue FCFS\<rparr>"

text \<open>The factories of \<open>main\<close>: half a CPU, 50 MB, 20 processes; two seconds; the denylist.\<close>

definition main_watchdog :: watchdog where
  "main_watchdog = addWatchdog (addWatchdog (CompositeWatchdog []) (Some (TimeoutWatchdog 2000 new_watcher)))
     (Some (AnomalyWatchdog new_watcher))"

definition main_factories :: factories where
  "main_factories = \<lparr>limiter_factory = Some (50000, 100000, 50 * 1024 * 1024, 20),
     watchdog_factory = Some main_watchdog, sec_policy_factory = True\<rparr>"

definition main_observers :: "observer list" where
  "main_observers = addObserver (Dashboard_Observer ''/tmp/isolyx_events'') (addObserver Logging_Observer [])"

text \<open>\<open>Job job{next_job_id++, cmd, promise}; job_queue.enqueue(...)\<close>.\<close>

definition submit_job :: "command \<Rightarrow> front_end \<Rightarrow> job \<times> front_end" where
  "submit_job c fe =
     (let j = new_job (next_job_id fe) c (Some (next_promise fe))
      in (j, fe\<lparr>next_job_id := next_job_id fe + 1, next_promise := next_promise fe + 1,
                fe_queue := enqueue (fe_queue fe) j\<rparr>))"

subsection \<open>The daemon\<close>

definition request_args :: "json \<Rightarrow> string list result" where
  "request_args j =
     (if json_contains ''args'' j
      then bindr (json_index ''args'' j) (\<lambda>(j', args). get_strings (json_items args)) else Inr [])"

definition daemon_command :: "string \<Rightarrow> command result" where
  "daemon_command line =
     bindr (parse_json line)
     (\<lambda>j. bindr (json_value ''executable'' [] j)
     (\<lambda>x. bindr (request_args j)
     (\<lambda>args. Inr (new_command\<lparr>executable := x, arguments := args, isBackground := True\<rparr>))))"

definition daemon_line :: "kernel \<Rightarrow> string \<Rightarrow> front_end \<Rightarrow> front_end os" where
  "daemon_line k line fe =
     (if line = [] then ret fe
      else case daemon_command line of
             Inl e \<Rightarrow> do { perform k (Print (''[Daemon] Failed to parse incoming job'' @ newline)); ret fe }
           | Inr c \<Rightarrow> ret (snd (submit_job c fe)))"

fun daemon_lines :: "kernel \<Rightarrow> string list \<Rightarrow> front_end \<Rightarrow> front_end os" where
  "daemon_lines k [] fe = ret fe"
| "daemon_lines k (l # ls) fe = do { fe' \<leftarrow> daemon_line k l fe; daemon_lines k ls fe' }"

text \<open>What one opening of the pipe delivers until its end.\<close>

definition daemon_session :: "kernel \<Rightarrow> string \<Rightarrow> front_end \<Rightarrow> front_end os" where
  "daemon_session k text fe = daemon_lines k (getlines (CHR 0x0A) text) fe"

subsection \<open>The shell\<close>

definition restore_terminal :: "kernel \<Rightarrow> int \<Rightarrow> unit os" where
  "restore_terminal k pgid = do {
     perform k (Signal ''SIGTTOU'' ''SIG_IGN'');
     perform k (Tcsetpgrp 0 pgid);
     perform k (Tcsetattr 0);
     perform k (Signal ''SIGTTOU'' ''SIG_DFL'') }"

text \<open>A line is finished, waits for a promise (the terminal is restored afterwards), or ended the process.\<close>

datatype line_outcome = Line_done | Line_waits nat | Process_ended

definition background_message :: "front_end \<Rightarrow> string" where
  "background_message fe =
     ''[Background job '' @ digits (unat (next_job_id fe - 1)) @ '' submitted]'' @ newline"

definition shell_line ::
    "kernel \<Rightarrow> nat \<Rightarrow> factories \<Rightarrow> int \<Rightarrow> string \<Rightarrow> front_end \<Rightarrow> (line_outcome \<times> front_end) option os" where
  "shell_line k fuel f pgid line fe =
     (let c = parseLine line
      in if isEmpty c then ret (Some (Line_done, fe))
         else if executable c = ''cd'' \<or> executable c = ''exit'' then do {
           x \<leftarrow> execute k fuel f (new_job 0 c None);
           case x of
             None \<Rightarrow> ret None
           | Some e \<Rightarrow>
               if ex_status e = Exec_Returned
               then do { restore_terminal k pgid; ret (Some (Line_done, fe)) }
               else ret (Some (Process_ended, fe)) }
         else (let fe' = snd (submit_job c fe)
               in if \<not> isBackground c then ret (Some (Line_waits (next_promise fe), fe'))
                  else do {
                    perform k (Print (background_message fe'));
                    restore_terminal k pgid;
                    ret (Some (Line_done, fe')) }))"

section \<open>The daemon only adds background jobs\<close>

definition daemon_job :: "job \<Rightarrow> bool" where
  "daemon_job j \<longleftrightarrow> isBackground (cmd j) \<and> redirectInput (cmd j) = [] \<and> redirectOutput (cmd j) = []
     \<and> pid j = - 1 \<and> time_quantum j = 0"

text \<open>The jobs for the commands \<open>cs\<close>, with consecutive identifiers and promises from those of \<open>fe\<close> on.\<close>

definition jobs_for :: "front_end \<Rightarrow> command list \<Rightarrow> job list" where
  "jobs_for fe cs = map (\<lambda>(i, c). new_job (next_job_id fe + of_nat i) c (Some (next_promise fe + i))) (enumerate 0 cs)"

text \<open>
  The front end after those jobs were submitted: the two counters and the contents of the queue have
  changed, and nothing else, neither the queue's scheduler nor whether it is stopping.
\<close>

definition grown :: "front_end \<Rightarrow> command list \<Rightarrow> front_end" where
  "grown fe cs = fe\<lparr>next_job_id := next_job_id fe + of_nat (length cs), next_promise := next_promise fe + length cs,
     fe_queue := (fe_queue fe)\<lparr>queued_jobs := queued_jobs (fe_queue fe) @ jobs_for fe cs\<rparr>\<rparr>"

lemma grown_refl: "grown fe [] = fe"
  by (simp add: grown_def jobs_for_def)

lemma addJob_append: "addJob kind js j = js @ [j]"
  by (cases kind) (simp_all add: FCFS_addJob_def RR_addJob_def Priority_addJob_def MLFQ_addJob_def)

lemma grown_submit: "snd (submit_job c fe) = grown fe [c]"
  by (simp add: grown_def jobs_for_def submit_job_def Let_def enqueue_def addJob_append enumerate_eq_zip)

lemma jobs_for_append: "jobs_for fe (cs @ cs') = jobs_for fe cs @ jobs_for (grown fe cs) cs'"
proof -
  have shift: "map f (enumerate n cs') = map (\<lambda>(i, c). f (n + i, c)) (enumerate 0 cs')" for f :: "nat \<times> command \<Rightarrow> job" and n
    by (rule nth_equalityI) (simp_all add: nth_enumerate_eq)
  show ?thesis
    by (simp add: jobs_for_def enumerate_append_eq grown_def add.assoc shift [of _ "length cs"])
qed

lemma grown_trans: "grown (grown fe cs) cs' = grown fe (cs @ cs')"
  by (simp add: grown_def [of "grown fe cs"] grown_def [of fe "cs @ cs'"] jobs_for_append) (simp add: grown_def add.assoc)

lemma daemon_command_background:
  "daemon_command line = Inr c \<Longrightarrow> daemon_job (new_job i c p)"
  by (auto simp: daemon_command_def bindr_Inr_iff daemon_job_def new_job_def new_command_def)

text \<open>What the daemon does with the lines of a session: the commands it accepts and the lines it refuses.\<close>

definition accepted :: "string list \<Rightarrow> command list" where
  "accepted ls = concat (map (\<lambda>l. case daemon_command l of Inl e \<Rightarrow> [] | Inr c \<Rightarrow> [c]) ls)"

definition refused :: "string list \<Rightarrow> string list" where
  "refused ls = filter (\<lambda>l. \<exists>e. daemon_command l = Inl e) ls"

lemma accepted_simps [simp]:
  "accepted [] = []" "daemon_command l = Inl e \<Longrightarrow> accepted (l # ls) = accepted ls"
  "daemon_command l = Inr c \<Longrightarrow> accepted (l # ls) = c # accepted ls"
  "refused [] = []" "daemon_command l = Inl e \<Longrightarrow> refused (l # ls) = l # refused ls"
  "daemon_command l = Inr c \<Longrightarrow> refused (l # ls) = refused ls"
  by (simp_all add: accepted_def refused_def)

lemma accepted_daemon_job:
  "c \<in> set (accepted ls) \<Longrightarrow> daemon_job (new_job i c p)"
  by (auto simp: accepted_def intro: daemon_command_background split: sum.splits)

abbreviation refusal :: syscall where
  "refusal \<equiv> Print (''[Daemon] Failed to parse incoming job'' @ newline)"

abbreviation nonempty_lines :: "string list \<Rightarrow> string list" where
  "nonempty_lines ls \<equiv> filter (\<lambda>l. l \<noteq> []) ls"

lemma daemon_lines_emits:
  "emits (daemon_lines k ls fe) (\<lambda>fe' h. fe' = grown fe (accepted (nonempty_lines ls))
     \<and> calls h = map (\<lambda>_. refusal) (refused (nonempty_lines ls)))"
proof (induction ls arbitrary: fe)
  case Nil
  then show ?case by (simp add: grown_refl emits_ret)
next
  case (Cons l ls)
  show ?case
  proof (cases "l = []")
    case True
    with Cons.IH show ?thesis by (simp add: daemon_line_def)
  next
    case False
    show ?thesis
    proof (cases "daemon_command l")
      case (Inl e)
      with False show ?thesis
        by (auto simp: daemon_line_def intro!: emits_bind_assoc emits_perform_bind emits_mono [OF Cons.IH])
    next
      case (Inr c)
      with False show ?thesis
        by (auto simp: daemon_line_def grown_submit grown_trans intro!: emits_mono [OF Cons.IH])
    qed
  qed
qed

text \<open>
  C22: whatever bytes arrive on the daemon's pipe, a session takes each non-empty line for itself:
  for one that is a request it puts exactly one job with that command at the end of the queue, in
  the order of the lines, and for any other it prints one message. The jobs run in the background,
  without redirections, are not yet started and have no quantum; identifiers and promises are the
  next ones in order (while nothing else submits; see \<open>identifiers_drawn\<close> in \<open>Engine\<close> for the
  shell beside it). The rest of the state is unchanged: the queue keeps the jobs it had, its
  scheduler and whether it is stopping.
\<close>

theorem daemon_only_appends:
  "emits (daemon_session k text fe) (\<lambda>fe' h.
     let ls = filter (\<lambda>l. l \<noteq> []) (getlines (CHR 0x0A) text); cs = accepted ls; js = jobs_for fe cs
     in fe' = fe\<lparr>next_job_id := next_job_id fe + of_nat (length cs), next_promise := next_promise fe + length cs,
               fe_queue := (fe_queue fe)\<lparr>queued_jobs := queued_jobs (fe_queue fe) @ js\<rparr>\<rparr>
        \<and> map cmd js = cs \<and> list_all daemon_job js
        \<and> calls h = map (\<lambda>_. Print (''[Daemon] Failed to parse incoming job'' @ newline)) (refused ls)
        \<and> length js + length (calls h) = length ls)"
proof -
  have js: "map cmd (jobs_for fe cs) = cs" for cs
    by (rule nth_equalityI) (simp_all add: jobs_for_def nth_enumerate_eq new_job_def)
  have l: "list_all daemon_job (jobs_for fe (accepted ls))" for ls
    using accepted_daemon_job [of _ ls] by (auto simp: jobs_for_def list_all_iff in_set_enumerate_eq)
  have n: "length (jobs_for fe (accepted ls)) + length (refused ls) = length ls" for ls
  proof (induction ls)
    case (Cons l ls)
    then show ?case by (cases "daemon_command l") (simp_all add: jobs_for_def)
  qed (simp add: jobs_for_def)
  show ?thesis
    unfolding daemon_session_def Let_def
    by (rule emits_mono [OF daemon_lines_emits]) (use js l n in \<open>simp add: grown_def\<close>)
qed

section \<open>A request is carried out as it was meant\<close>

text \<open>The request a client writes, with the serializer of the same library.\<close>

definition request :: "string \<Rightarrow> string list \<Rightarrow> json" where
  "request x args = J_object [(''args'', J_array (map J_string args)), (''executable'', J_string x)]"

definition requested :: "string \<Rightarrow> string list \<Rightarrow> command" where
  "requested x args = new_command\<lparr>executable := x, arguments := args, isBackground := True\<rparr>"

lemma storable_request:
  assumes "list_all (valid_utf8 \<circ> bytes_of) (x # args)"
  shows "storable (request x args)"
proof -
  have "valid_utf8 (bytes_of ''args'')" "valid_utf8 (bytes_of ''executable'')" by code_simp+
  with assms show ?thesis by (auto simp: request_def ascending_def list_all_iff)
qed

lemma normal_request: "normal (request x args) = request x args"
  by (simp add: request_def)

lemma request_command:
  "parse_json t = Inr (request x args) \<Longrightarrow> daemon_command t = Inr (requested x args)"
  by (simp add: daemon_command_def request_def request_args_def requested_def)

lemma printed_request:
  assumes "list_all (valid_utf8 \<circ> bytes_of) (x # args)"
  shows "dump_json (request x args) = Inr (print_json (request x args))"
    "daemon_command (print_json (request x args)) = Inr (requested x args)"
    "getlines (CHR 0x0A) (print_json (request x args) @ newline) = [print_json (request x args)]"
    "print_json (request x args) \<noteq> []"
proof -
  note st = storable_request [OF assms]
  show "dump_json (request x args) = Inr (print_json (request x args))"
    by (rule dump_json_print(1) [OF storable_utf8 [OF st]])
  show "daemon_command (print_json (request x args)) = Inr (requested x args)"
    using parse_printed [OF storable_parses [OF st]] by (intro request_command) (simp add: normal_request)
  have "CHR 0x0A \<notin> set (print_json (request x args))" by (rule printable_newline [OF printable_json [OF st]])
  from getlines_append [OF this, of "[]"]
  show "getlines (CHR 0x0A) (print_json (request x args) @ newline) = [print_json (request x args)]" by simp
  show "print_json (request x args) \<noteq> []" by (simp add: request_def)
qed

text \<open>
  C9: a request with UTF-8 texts that a client serialises with \<open>dump()\<close> and sends as a line makes
  the daemon queue exactly one job, with the executable and the arguments of the request, in the
  background, under the next identifier and promise; nothing is printed.
\<close>

theorem daemon_runs_request:
  assumes "list_all (valid_utf8 \<circ> bytes_of) (x # args)"
  shows "\<exists>t. dump_json (request x args) = Inr t
    \<and> run_state (daemon_session k (t @ newline) fe) s = (snd (submit_job (requested x args) fe), s)"
  using printed_request [OF assms]
  by (intro exI [of _ "print_json (request x args)"]) (simp add: daemon_session_def daemon_line_def)

theorem daemon_runs_request_witness:
  "\<exists>t. dump_json (request ''/bin/ls'' [''ls'', ''-l'']) = Inr t
    \<and> run_state (daemon_session (\<lambda>h c. undefined) (t @ newline) new_front_end) \<lparr>trace = [], file_counter = 0\<rparr>
      = (snd (submit_job (requested ''/bin/ls'' [''ls'', ''-l'']) new_front_end), \<lparr>trace = [], file_counter = 0\<rparr>)"
proof -
  have "list_all (valid_utf8 \<circ> bytes_of) [''/bin/ls'', ''ls'', ''-l'']" by code_simp
  then show ?thesis by (rule daemon_runs_request)
qed

text \<open>
  A request for the builtin \<open>exit\<close> is a job like any other, and the worker that executes it ends
  the engine's process.
\<close>

lemma daemon_exit_ends_engine:
  "run_state (execute k fuel f (fst (submit_job (requested ''exit'' args) fe))) s =
     (Some (executed new_execution_result (fst (submit_job (requested ''exit'' args) fe)) Exec_Exit),
      after s [(Exit 0, k (trace s) (Exit 0))])"
  by (simp add: execute_def submit_job_def requested_def new_job_def isEmpty_def handleBuiltin_def Let_def)

text \<open>The shell: every line but an empty one, \<open>cd\<close> and \<open>exit\<close> adds one job, and only a foreground job is waited for.\<close>

lemma shell_line_submits:
  assumes "\<not> isEmpty (parseLine line)" and "executable (parseLine line) \<notin> {''cd'', ''exit''}"
  shows "\<exists>h. run_state (shell_line k fuel f pgid line fe) s =
    (Some (if isBackground (parseLine line) then Line_done else Line_waits (next_promise fe),
       snd (submit_job (parseLine line) fe)), after s h)
    \<and> (if isBackground (parseLine line) then map fst h = [Print (background_message (snd (submit_job (parseLine line) fe))),
         Signal ''SIGTTOU'' ''SIG_IGN'', Tcsetpgrp 0 pgid, Tcsetattr 0, Signal ''SIGTTOU'' ''SIG_DFL''] else h = [])"
  using assms by (auto simp: shell_line_def restore_terminal_def Let_def)

end
