(* ===== verification/Engine.thy ===== *)
theory Engine
  imports Pool_Liveness Front_End
begin

text \<open>
  The whole engine, \<open>main\<close> of \<open>src/main.cpp\<close>: the shell thread with its loop over lines, the
  daemon thread with its loop over requests, and the worker pool with the executor and the
  observers. A step is one action of one thread. Creating a job and enqueueing it are two steps,
  because the other thread may come in between.
\<close>

section \<open>Model\<close>

text \<open>
  Where the shell is: at the prompt; with a job it has created; about to print the number of a
  background job; in \<open>future.wait()\<close>; in \<open>WorkerPool::stop\<close> after the end of its input; gone.
\<close>

datatype shell_phase = Prompting | Shell_Enqueues job | Announcing job | Waiting nat | Stopping | Ended

datatype daemon_phase = Reading | Daemon_Enqueues job

text \<open>
  Two fields only record: \<open>announced\<close> the background jobs with the numbers printed for them, and
  \<open>shell_input\<close> the lines the shell has read, latest first.
\<close>

record engine =
  engine_pool :: pool
  id_counter :: uint64
  promise_counter :: nat
  shell_at :: shell_phase
  daemon_at :: daemon_phase
  announced :: "(job \<times> uint64) list"
  shell_input :: "string list"

definition new_engine :: "nat \<Rightarrow> engine" where
  "new_engine n = \<lparr>engine_pool = start n (new_pool (new_queue FCFS)), id_counter = 1, promise_counter = 0,
     shell_at = Prompting, daemon_at = Reading, announced = [], shell_input = []\<rparr>"

definition engine_alive :: "engine \<Rightarrow> bool" where
  "engine_alive e \<longleftrightarrow> \<not> terminated (engine_pool e) \<and> shell_at e \<noteq> Ended"

text \<open>\<open>Job job{next_job_id++, cmd, promise}\<close>.\<close>

definition draw :: "command \<Rightarrow> engine \<Rightarrow> job" where
  "draw c e = new_job (id_counter e) c (Some (promise_counter e))"

definition drawn :: "engine \<Rightarrow> engine" where
  "drawn e = e\<lparr>id_counter := id_counter e + 1, promise_counter := promise_counter e + 1\<rparr>"

definition builtin :: "command \<Rightarrow> bool" where
  "builtin c \<longleftrightarrow> executable c = ''cd'' \<or> executable c = ''exit''"

inductive engine_step :: "factories \<Rightarrow> observer list \<Rightarrow> thread \<Rightarrow> engine \<Rightarrow> engine \<Rightarrow> bool" for f obs where
  shell_skips:
    "engine_alive e \<Longrightarrow> shell_at e = Prompting \<Longrightarrow> isEmpty (parseLine line) \<Longrightarrow>
     engine_step f obs Main e (e\<lparr>shell_input := line # shell_input e\<rparr>)"
| shell_builtin:
    "engine_alive e \<Longrightarrow> shell_at e = Prompting \<Longrightarrow> builtin (parseLine line) \<Longrightarrow>
     executes f (new_job 0 (parseLine line) None) j r \<Longrightarrow>
     engine_step f obs Main e (e\<lparr>shell_input := line # shell_input e\<rparr>)"
| shell_exits:
    "engine_alive e \<Longrightarrow> shell_at e = Prompting \<Longrightarrow> builtin (parseLine line) \<Longrightarrow>
     execution_dies f (new_job 0 (parseLine line) None) h \<Longrightarrow>
     engine_step f obs Main e (e\<lparr>shell_input := line # shell_input e, shell_at := Ended\<rparr>)"
| shell_creates:
    "engine_alive e \<Longrightarrow> shell_at e = Prompting \<Longrightarrow> c = parseLine line \<Longrightarrow> \<not> isEmpty c \<Longrightarrow> \<not> builtin c \<Longrightarrow>
     engine_step f obs Main e ((drawn e)\<lparr>shell_input := line # shell_input e, shell_at := Shell_Enqueues (draw c e)\<rparr>)"
| shell_enqueues:
    "engine_alive e \<Longrightarrow> shell_at e = Shell_Enqueues j \<Longrightarrow> notify_one (workers (engine_pool e)) ws \<Longrightarrow>
     engine_step f obs Main e (e\<lparr>engine_pool := hand_over j ws (engine_pool e),
       shell_at := if isBackground (cmd j) then Announcing j else Waiting (the (result_promise j))\<rparr>)"
| shell_announces:
    "engine_alive e \<Longrightarrow> shell_at e = Announcing j \<Longrightarrow>
     engine_step f obs Main e (e\<lparr>shell_at := Prompting, announced := (j, id_counter e - 1) # announced e\<rparr>)"
| shell_resumes:
    "engine_alive e \<Longrightarrow> shell_at e = Waiting a \<Longrightarrow> promises (engine_pool e) a \<noteq> None \<Longrightarrow>
     engine_step f obs Main e (e\<lparr>shell_at := Prompting\<rparr>)"
| shell_eof:
    "engine_alive e \<Longrightarrow> shell_at e = Prompting \<Longrightarrow> pool_step (engine_pool e) p \<Longrightarrow>
     stop_at (engine_pool e) = Not_Stopping \<Longrightarrow> stop_at p = Running_Cleared \<Longrightarrow>
     engine_step f obs Main e (e\<lparr>engine_pool := p, shell_at := Stopping\<rparr>)"
| shell_stops:
    "engine_alive e \<Longrightarrow> shell_at e = Stopping \<Longrightarrow> pool_step (engine_pool e) p \<Longrightarrow>
     stop_at p \<noteq> stop_at (engine_pool e) \<Longrightarrow> engine_step f obs Main e (e\<lparr>engine_pool := p\<rparr>)"
| shell_returns:
    "engine_alive e \<Longrightarrow> shell_at e = Stopping \<Longrightarrow> stop_at (engine_pool e) = Joined \<Longrightarrow>
     engine_step f obs Main e (e\<lparr>shell_at := Ended\<rparr>)"
| daemon_refuses:
    "engine_alive e \<Longrightarrow> daemon_at e = Reading \<Longrightarrow> line = [] \<or> daemon_command line = Inl x \<Longrightarrow>
     engine_step f obs Daemon e e"
| daemon_creates:
    "engine_alive e \<Longrightarrow> daemon_at e = Reading \<Longrightarrow> line \<noteq> [] \<Longrightarrow> daemon_command line = Inr c \<Longrightarrow>
     engine_step f obs Daemon e ((drawn e)\<lparr>daemon_at := Daemon_Enqueues (draw c e)\<rparr>)"
| daemon_enqueues:
    "engine_alive e \<Longrightarrow> daemon_at e = Daemon_Enqueues j \<Longrightarrow> notify_one (workers (engine_pool e)) ws \<Longrightarrow>
     engine_step f obs Daemon e (e\<lparr>engine_pool := hand_over j ws (engine_pool e), daemon_at := Reading\<rparr>)"
| works:
    "engine_alive e \<Longrightarrow> worker_step f obs i (engine_pool e) p \<Longrightarrow>
     engine_step f obs (Worker i) e (e\<lparr>engine_pool := p\<rparr>)"

inductive_cases engine_stepE: "engine_step f obs t e e'"
inductive_cases engine_workE: "engine_step f obs (Worker i) e e'"

text \<open>
  A thread that could take a step. Waiting for input is not held against the shell or the daemon.
\<close>

definition engine_runnable :: "engine \<Rightarrow> thread \<Rightarrow> bool" where
  "engine_runnable e t \<longleftrightarrow> engine_alive e \<and>
     (case t of
        Worker i \<Rightarrow> worker_runnable (engine_pool e) i
      | Daemon \<Rightarrow> daemon_at e \<noteq> Reading
      | Main \<Rightarrow> (case shell_at e of
                  Prompting \<Rightarrow> False
                | Waiting a \<Rightarrow> promises (engine_pool e) a \<noteq> None
                | Stopping \<Rightarrow> stop_at (engine_pool e) \<noteq> Joining \<or> set (workers (engine_pool e)) \<subseteq> {Exited}
                | _ \<Rightarrow> True))"

text \<open>The jobs that were created and not yet enqueued.\<close>

definition shell_pending :: "shell_phase \<Rightarrow> job list" where
  "shell_pending s = (case s of Shell_Enqueues j \<Rightarrow> [j] | _ \<Rightarrow> [])"

definition daemon_pending :: "daemon_phase \<Rightarrow> job list" where
  "daemon_pending d = (case d of Daemon_Enqueues j \<Rightarrow> [j] | Reading \<Rightarrow> [])"

definition engine_pending :: "engine \<Rightarrow> job list" where
  "engine_pending e = shell_pending (shell_at e) @ daemon_pending (daemon_at e)"

lemmas pending_simps = engine_pending_def shell_pending_def daemon_pending_def

lemma draw_submit:
  "draw c e = fst (submit_job c \<lparr>next_job_id = id_counter e, next_promise = promise_counter e,
     fe_queue = job_queue_ref (engine_pool e)\<rparr>)"
  by (simp add: draw_def submit_job_def Let_def)

lemma draw_sel [simp]: "result_promise (draw c e) = Some (promise_counter e)" "time_quantum (draw c e) = 0"
  "cmd (draw c e) = c" "job_id (draw c e) = id_counter e"
  by (simp_all add: draw_def new_job_def)

lemma drawn_sel [simp]:
  "engine_pool (drawn e) = engine_pool e" "promise_counter (drawn e) = Suc (promise_counter e)"
  "shell_at (drawn e) = shell_at e" "daemon_at (drawn e) = daemon_at e" "id_counter (drawn e) = id_counter e + 1"
  "announced (drawn e) = announced e" "shell_input (drawn e) = shell_input e"
  by (simp_all add: drawn_def)

section \<open>The engine is a client of its pool\<close>

lemma engine_worker:
  "engine_step f obs (Worker i) e e' \<Longrightarrow>
   worker_step f obs i (engine_pool e) (engine_pool e') \<and> engine_pending e' = engine_pending e \<and>
   promise_counter e' = promise_counter e \<and> shell_at e' = shell_at e \<and> daemon_at e' = daemon_at e"
  by (erule engine_workE) (simp add: engine_pending_def)

lemma engine_client:
  "engine_step f obs t e e' \<Longrightarrow> \<forall>i. t \<noteq> Worker i \<Longrightarrow> client_change (engine_pool e) (engine_pool e')"
proof (induction rule: engine_step.induct)
  case (shell_eof e p)
  then show ?case by (auto intro: client_change.stops)
next
  case (shell_stops e p)
  then show ?case by (auto intro: client_change.stops)
qed (auto simp: engine_alive_def intro: client_change.same client_change.submits)

lemma engine_issue:
  "engine_step f obs t e e' \<Longrightarrow> \<forall>i. t \<noteq> Worker i \<Longrightarrow>
   mset (submitted (engine_pool e')) + mset (engine_pending e') = mset (submitted (engine_pool e)) + mset (engine_pending e)
     \<and> promise_counter e' = promise_counter e
   \<or> (\<exists>j. mset (submitted (engine_pool e')) + mset (engine_pending e') =
          add_mset j (mset (submitted (engine_pool e)) + mset (engine_pending e))
        \<and> result_promise j = Some (promise_counter e) \<and> promise_counter e' = Suc (promise_counter e) \<and> time_quantum j = 0)"
proof (induction rule: engine_step.induct)
  case (shell_creates e c line)
  then show ?case by (intro disjI2 exI [of _ "draw c e"]) (simp add: pending_simps)
next
  case (daemon_creates e line c)
  then show ?case by (intro disjI2 exI [of _ "draw c e"]) (simp add: pending_simps)
next
  case (shell_eof e p)
  then show ?case using stop_change [of "engine_pool e" p] by (simp add: pending_simps)
next
  case (shell_stops e p)
  then show ?case using stop_change [of "engine_pool e" p] by (simp add: pending_simps)
qed (simp_all add: pending_simps)

interpretation engine: pool_client "engine_step f obs" engine_runnable engine_alive "new_engine n" engine_pool
    engine_pending promise_counter f obs n FCFS 0 for f obs n
proof
  show "engine_alive s \<Longrightarrow> worker_runnable (engine_pool s) i \<Longrightarrow> engine_runnable s (Worker i)" for s i
    by (simp add: engine_runnable_def)
qed (use engine_worker engine_client engine_issue in
    \<open>blast | simp add: new_engine_def pending_simps\<close>)+

section \<open>The shell and the pool\<close>

definition reachable_engine :: "factories \<Rightarrow> observer list \<Rightarrow> nat \<Rightarrow> engine \<Rightarrow> bool" where
  "reachable_engine f obs n = (any_thread (engine_step f obs))\<^sup>*\<^sup>* (new_engine n)"

text \<open>The shell waits for a job it submitted, and the pool runs until the shell's input ends.\<close>

definition shell_ok :: "engine \<Rightarrow> bool" where
  "shell_ok e \<longleftrightarrow>
     (\<forall>a. shell_at e = Waiting a \<longrightarrow> (\<exists>j \<in> set (submitted (engine_pool e)). result_promise j = Some a \<and> \<not> isBackground (cmd j)))
     \<and> (\<forall>j. shell_at e = Shell_Enqueues j \<longrightarrow> result_promise j \<noteq> None)
     \<and> (shell_at e \<notin> {Stopping, Ended} \<longrightarrow> stop_at (engine_pool e) = Not_Stopping)"

lemma shell_ok_step: "engine_step f obs t e e' \<Longrightarrow> shell_ok e \<Longrightarrow> shell_ok e'"
proof (induction rule: engine_step.induct)
  case (works e i p)
  then show ?case using worker_step_stop [OF works(2)] by (simp add: shell_ok_def)
qed (auto simp: shell_ok_def)

lemma shell_ok_reachable: "reachable_engine f obs n e \<Longrightarrow> shell_ok e"
  unfolding reachable_engine_def
proof (induction rule: rtranclp_induct)
  case base
  show ?case by (simp add: shell_ok_def new_engine_def)
next
  case (step e e')
  then show ?case by (auto simp: any_thread_def intro: shell_ok_step)
qed

section \<open>Identifiers\<close>

text \<open>
  The shell and the daemon draw identifiers from one counter. Whatever the order in which they
  submit, the jobs submitted so far, and those created and not yet enqueued, have the identifiers
  1, 2, ... and the promises 0, 1, ..., each once.
\<close>

definition identified :: "engine \<Rightarrow> bool" where
  "identified e \<longleftrightarrow> id_counter e = 1 + of_nat (promise_counter e) \<and>
     image_mset job_key (mset (submitted (engine_pool e) @ engine_pending e))
       = mset (map (\<lambda>i. (1 + of_nat i, Some i)) [0..<promise_counter e])"

lemma draw_key [simp]: "job_key (draw c e) = (id_counter e, Some (promise_counter e))"
  by (simp add: job_key_def)

lemma identified_step: "engine_step f obs t e e' \<Longrightarrow> identified e \<Longrightarrow> identified e'"
proof (induction rule: engine_step.induct)
  case (works e i p)
  then show ?case using worker_step_stop [OF works(2)] by (simp add: identified_def pending_simps)
next
  case (shell_eof e p)
  then show ?case using stop_change [of "engine_pool e" p] by (simp add: identified_def pending_simps)
next
  case (shell_stops e p)
  then show ?case using stop_change [of "engine_pool e" p] by (simp add: identified_def pending_simps)
qed (auto simp: identified_def pending_simps)

lemma identifiers_drawn: "reachable_engine f obs n e \<Longrightarrow> identified e"
  unfolding reachable_engine_def
proof (induction rule: rtranclp_induct)
  case base
  show ?case by (simp add: identified_def new_engine_def pending_simps)
next
  case (step e e')
  then show ?case by (auto simp: any_thread_def intro: identified_step)
qed

end
