(* ===== verification/Engine_Progress.thy ===== *)
theory Engine_Progress
  imports Engine
begin

text \<open>
  What the engine of \<open>Engine\<close> does in the end: what can terminate it, and, under fair scheduling of
  its threads, that jobs complete, that the shell comes back from a foreground job and that \<open>main\<close>
  returns. Fairness is a hypothesis on the run: a thread that could take a step is not passed over
  forever; an execution is one step, so that it also says that executions end.
\<close>

section \<open>How the engine can end\<close>

text \<open>With the observers of \<open>main\<close> the collector throws exactly on results that are not UTF-8.\<close>

lemma main_collects:
  assumes "collects main_observers r x"
  shows "(\<exists>e. x = Inl e) \<longleftrightarrow> \<not> utf8_result r"
proof -
  have "yields (submitResult k r main_observers) (\<lambda>x. (\<exists>e. x = Inl e) \<longleftrightarrow> \<not> utf8_result r)" for k
    unfolding main_observers_def
    by (rule yields_emits [OF collector_emits]) (auto split: if_splits)
  with assms show ?thesis unfolding collects_def yields_def by blast
qed

lemma worker_step_ends:
  assumes "worker_step f obs i p p'" and "terminated p'" and "queue_scheduler (job_queue_ref p) = FCFS"
    and "\<And>j r. Reported j r \<in> set (workers p) \<Longrightarrow> \<not> terminated (fulfil i j r p)"
    and "\<And>j. j \<in> pool_jobs p \<Longrightarrow> time_quantum j = 0"
  shows "\<exists>j. workers p ! i = Executing j \<and>
     ((\<exists>h. death p' = Some (Execution_ended j h) \<and> execution_dies f j h) \<or>
      (\<exists>j' r e. death p' = Some (Observer_threw (make_result j' r)) \<and> executes f j j' r \<and>
         collects obs (make_result j' r) (Inl e)))"
  using assms(1)
proof (cases rule: worker_step.cases)
  case takes
  show ?thesis
  proof (cases "dequeue (job_queue_ref p)")
    case (Pair r q)
    with takes assms(2) show ?thesis
      using fcfs_defined [OF assms(3)] by (cases r) (simp_all add: try_dequeue_def)
  qed
next
  case (overflows j j' r e)
  then have "j \<in> pool_jobs p" by (force simp: pool_jobs_def worker_jobs_def in_set_conv_nth)
  with assms(5) executes_to_end [OF overflows(5)] overflows(6) show ?thesis by simp
next
  case (fulfils j r)
  with assms(2,4) show ?thesis by (metis nth_mem)
qed (use assms(2) in \<open>auto simp: loop_test_def report_def\<close>)


section \<open>Jobs are completed\<close>

lemma promise_owner:
  assumes "\<And>a. count (image_mset result_promise M) (Some a) \<le> 1" and "j \<in># M" and "j' \<in># M"
    and "result_promise j = Some a" and "result_promise j' = Some a"
  shows "j = j'"
proof (rule ccontr)
  assume "j \<noteq> j'"
  with assms(2,3) obtain N where "M = add_mset j (add_mset j' N)" by (metis insert_DiffM insert_noteq_member)
  with assms(1) [of a] assms(4,5) show False by simp
qed

definition delivered :: "job \<Rightarrow> pool \<Rightarrow> bool" where
  "delivered j p \<longleftrightarrow> (\<exists>j' r. job_key j' = job_key j \<and> make_result j' r \<in> set (results p)
     \<and> promises p (the (result_promise j)) = Some (promise_value r))"

lemma engine_delivered:
  assumes "reachable_engine f obs n e" and "j \<in> set (submitted (engine_pool e))" and "result_promise j = Some a"
    and "promises (engine_pool e) a \<noteq> None"
  shows "delivered j (engine_pool e)"
proof -
  note r = assms(1) [unfolded reachable_engine_def]
  from kept_promise [OF engine.view_reachable [OF r] assms(4)] obtain j' x where
    j': "(j', x) \<in> set (completed (engine_pool e))" "result_promise j' = Some a" "make_result j' x \<in> set (results (engine_pool e))"
      "promises (engine_pool e) a = Some (promise_value x)" by blast
  from completed_submitted [OF engine.view_reachable [OF r] j'(1)] obtain j2 where
    j2: "j2 \<in> set (submitted (engine_pool e))" "job_key j2 = job_key j'" by blast
  then have "result_promise j2 = Some a" using j'(2) by (simp add: job_key_def)
  with promise_owner [OF engine.promises_distinct [OF r], of j2 j] j2(1) assms(2,3) have "j2 = j" by simp
  with j' j2 assms(3) show ?thesis unfolding delivered_def by force
qed

text \<open>Along a run nothing submitted is forgotten and no promise is unset.\<close>

lemma engine_grows:
  assumes run: "fair_run (engine_step f obs) engine_runnable (new_engine n) \<sigma> \<tau>" and "m \<le> m'"
  shows "set (submitted (engine_pool (\<sigma> m))) \<subseteq> set (submitted (engine_pool (\<sigma> m'))) \<and>
    (promises (engine_pool (\<sigma> m)) a \<noteq> None \<longrightarrow> promises (engine_pool (\<sigma> m')) a \<noteq> None)"
  using assms(2)
proof (induction rule: dec_induct)
  case (step k)
  have "engine_pool (\<sigma> (Suc k)) = engine_pool (\<sigma> k) \<or> pool_step (engine_pool (\<sigma> k)) (engine_pool (\<sigma> (Suc k)))"
  proof (cases "\<tau> k")
    case None
    with engine.run_idle [OF run] show ?thesis by simp
  next
    case (Some t)
    from engine.view_step [OF engine.run_step [OF run Some]] show ?thesis .
  qed
  with step.IH pool_step_grows [of "engine_pool (\<sigma> k)" "engine_pool (\<sigma> (Suc k))" a] show ?case by auto
qed simp

lemma not_stopping:
  "reachable_engine f obs n e \<Longrightarrow> shell_at e \<notin> {Stopping, Ended} \<Longrightarrow> stop_at (engine_pool e) = Not_Stopping"
  using shell_ok_reachable by (fastforce simp: shell_ok_def)

text \<open>The process does not end other than by returning from \<open>main\<close>.\<close>

definition survives :: "engine \<Rightarrow> bool" where
  "survives e \<longleftrightarrow> \<not> terminated (engine_pool e) \<and> (shell_at e = Ended \<longrightarrow> stop_at (engine_pool e) = Joined)"

lemma survives_alive: "survives e \<Longrightarrow> shell_at e \<noteq> Ended \<Longrightarrow> engine_alive e"
  by (simp add: survives_def engine_alive_def)

lemma run_reachable: "fair_run (engine_step f obs) engine_runnable (new_engine n) \<sigma> \<tau> \<Longrightarrow> reachable_engine f obs n (\<sigma> m)"
  unfolding reachable_engine_def by (rule engine.run_reaches)

text \<open>
  C1: every job that a front end enqueued is completed. In every run in which no thread that can run is
  kept waiting forever, executions included, and in which the process is not killed by one of the
  causes above, each job gets its result to the collector and its promise set to 0 or 1, unless the
  shell's input ends: then \<open>stop\<close> abandons what is queued. No stream of later requests can hold a
  job back.
\<close>

theorem every_job_completes:
  assumes "fair_run (engine_step f obs) engine_runnable (new_engine n) \<sigma> \<tau>" and "0 < n"
    and "\<And>m. survives (\<sigma> m)" and "j \<in> set (submitted (engine_pool (\<sigma> m)))"
  shows "\<exists>m' \<ge> m. shell_at (\<sigma> m') \<in> {Stopping, Ended} \<or> delivered j (engine_pool (\<sigma> m'))"
proof (cases "\<exists>m' \<ge> m. shell_at (\<sigma> m') \<in> {Stopping, Ended}")
  case False
  note r = run_reachable [OF assms(1)]
  obtain a where a: "result_promise j = Some a"
    using engine.promised [OF r [unfolded reachable_engine_def] assms(4)] by blast
  have st: "engine_alive (\<sigma> k)" "stop_at (engine_pool (\<sigma> k)) = Not_Stopping" if "m \<le> k" for k
    using not_stopping [OF r] survives_alive [OF assms(3)] False that by blast+
  have "\<exists>m' \<ge> m. promises (engine_pool (\<sigma> m')) a \<noteq> None"
    by (rule engine.job_done [OF assms(1) st(1) _ st(2) _ refl assms(2,4) a]) (simp_all add: engine_alive_def)
  then obtain m' where m': "m \<le> m'" "promises (engine_pool (\<sigma> m')) a \<noteq> None" by blast
  have "j \<in> set (submitted (engine_pool (\<sigma> m')))"
    using engine_grows [OF assms(1) m'(1)] assms(4) by blast
  with engine_delivered [OF r _ a m'(2)] m'(1) show ?thesis by blast
qed blast

section \<open>The shell comes back\<close>

lemma waiting_step:
  "engine_step f obs t e e' \<Longrightarrow> shell_at e = Waiting a \<Longrightarrow>
   shell_at e' = Waiting a \<or> (t = Main \<and> shell_at e' = Prompting \<and> promises (engine_pool e') a \<noteq> None)"
  by (erule engine_stepE) auto

lemma waiting_until:
  assumes run: "fair_run (engine_step f obs) engine_runnable (new_engine n) \<sigma> \<tau>" and "shell_at (\<sigma> m) = Waiting a" and "m \<le> k"
  shows "shell_at (\<sigma> k) = Waiting a \<or> (\<exists>m' > m. shell_at (\<sigma> m') = Prompting \<and> promises (engine_pool (\<sigma> m')) a \<noteq> None)"
  using assms(3)
proof (induction rule: dec_induct)
  case (step k)
  show ?case
  proof (cases "\<tau> k")
    case None
    with engine.run_idle [OF run] step.IH show ?thesis by simp
  next
    case (Some t)
    from step.IH show ?thesis
    proof
      assume "shell_at (\<sigma> k) = Waiting a"
      from waiting_step [OF engine.run_step [OF run Some] this] step(1) show ?thesis by (meson le_imp_less_Suc)
    qed blast
  qed
qed (simp add: assms(2))

lemma waiting_resumes: "engine_step f obs Main e e' \<Longrightarrow> shell_at e = Waiting a \<Longrightarrow> shell_at e' = Prompting"
  by (erule engine_stepE) auto

text \<open>
  C8: the shell always comes back from a foreground job. Under the same conditions, whenever it waits
  for a promise it returns to the prompt later, and by then the collector has received the result
  of the foreground job it waited for.
\<close>

theorem foreground_wait_ends:
  assumes "fair_run (engine_step f obs) engine_runnable (new_engine n) \<sigma> \<tau>" and "0 < n"
    and "\<And>m. survives (\<sigma> m)" and "shell_at (\<sigma> m) = Waiting a"
  shows "\<exists>m' > m. shell_at (\<sigma> m') = Prompting \<and>
    (\<exists>j \<in> set (submitted (engine_pool (\<sigma> m'))). result_promise j = Some a \<and> \<not> isBackground (cmd j) \<and> delivered j (engine_pool (\<sigma> m')))"
proof -
  note run = assms(1) and r = run_reachable [OF assms(1)]
  from shell_ok_reachable [OF r] assms(4) obtain j where
    j: "j \<in> set (submitted (engine_pool (\<sigma> m)))" "result_promise j = Some a" "\<not> isBackground (cmd j)"
    unfolding shell_ok_def by blast
  have "\<exists>m' > m. shell_at (\<sigma> m') = Prompting \<and> promises (engine_pool (\<sigma> m')) a \<noteq> None"
  proof (rule ccontr)
    assume no: "\<not> ?thesis"
    then have w: "shell_at (\<sigma> k) = Waiting a" if "m \<le> k" for k using waiting_until [OF run assms(4) that] by blast
    then have st: "engine_alive (\<sigma> k)" "stop_at (engine_pool (\<sigma> k)) = Not_Stopping" if "m \<le> k" for k
      using not_stopping [OF r] survives_alive [OF assms(3)] that by simp_all
    have "\<exists>m' \<ge> m. promises (engine_pool (\<sigma> m')) a \<noteq> None"
      by (rule engine.job_done [OF run st(1) _ st(2) _ refl assms(2) j(1,2)]) (simp_all add: engine_alive_def)
    then obtain k where k: "m \<le> k" "promises (engine_pool (\<sigma> k)) a \<noteq> None" by blast
    from run obtain k' where k': "k \<le> k'" "\<tau> k' = Some Main \<or> \<not> engine_runnable (\<sigma> k') Main"
      unfolding fair_run_def by blast
    with engine_grows [OF run k'(1), of a] k w [of k'] st(1) [of k'] have "\<tau> k' = Some Main"
      by (auto simp: engine_runnable_def)
    with waiting_resumes [OF engine.run_step [OF run this] w] k(1) k'(1) have "shell_at (\<sigma> (Suc k')) = Prompting" by simp
    with w [of "Suc k'"] k(1) k'(1) show False by simp
  qed
  then obtain m' where m': "m < m'" "shell_at (\<sigma> m') = Prompting" "promises (engine_pool (\<sigma> m')) a \<noteq> None" by blast
  with engine_grows [OF run, of m m'] j have s: "j \<in> set (submitted (engine_pool (\<sigma> m')))" by fastforce
  with engine_delivered [OF r s j(2) m'(3)] m' j show ?thesis by blast
qed

section \<open>The engine returns\<close>

lemma stopping_others:
  "engine_step f obs t e e' \<Longrightarrow> t \<noteq> Main \<Longrightarrow> shell_at e = Stopping \<Longrightarrow>
   shell_at e' = Stopping \<and> stop_at (engine_pool e') = stop_at (engine_pool e)"
  by (erule engine_stepE) (auto dest: worker_step_stop)

lemma stopping_main:
  "engine_step f obs Main e e' \<Longrightarrow> shell_at e = Stopping \<Longrightarrow>
   shell_at e' = Ended \<and> stop_at (engine_pool e) = Joined \<or>
   shell_at e' = Stopping \<and> stop_follows (stop_at (engine_pool e)) (stop_at (engine_pool e'))"
  by (erule engine_stepE) (auto dest: stop_order)

text \<open>
  C11: after the end of the shell's input \<open>main\<close> returns: the pool's \<open>stop\<close> comes to an end although the
  daemon may go on enqueueing, because every worker leaves its loop after at most one more job.
\<close>

theorem engine_returns:
  assumes "fair_run (engine_step f obs) engine_runnable (new_engine n) \<sigma> \<tau>"
    and "\<And>m. survives (\<sigma> m)" and "shell_at (\<sigma> m) = Stopping"
  shows "\<exists>m' > m. shell_at (\<sigma> m') = Ended \<and> set (workers (engine_pool (\<sigma> m'))) \<subseteq> {Exited}"
proof -
  have "\<exists>m' \<ge> m. shell_at (\<sigma> (Suc m')) = Ended \<and> stop_at (engine_pool (\<sigma> m')) = Joined"
  proof (rule engine.stop_completes [OF assms(1), where in_stop = "\<lambda>e. shell_at e = Stopping" and t = Main])
    show "engine_alive (\<sigma> k)" if "shell_at (\<sigma> k) = Stopping" for k
      using survives_alive [OF assms(2)] that by simp
  qed (use assms(3) stopping_main stopping_others in \<open>auto simp: engine_alive_def engine_runnable_def\<close>)
  then obtain m' where m': "m \<le> m'" "shell_at (\<sigma> (Suc m')) = Ended" by blast
  with assms(2) [of "Suc m'"] have "stop_at (engine_pool (\<sigma> (Suc m'))) = Joined" by (simp add: survives_def)
  from engine.joined_workers [OF engine.run_reaches [OF assms(1)] this] m' show ?thesis by (meson le_imp_less_Suc)
qed

section \<open>A run\<close>

text \<open>
  One worker, one foreground command whose child cannot be started, then silence. The command is
  reported as failed and the shell is back at its prompt.
\<close>

definition plain_factories :: factories where
  "plain_factories = \<lparr>limiter_factory = None, watchdog_factory = None, sec_policy_factory = False\<rparr>"

definition run_job :: job where
  "run_job = new_job 1 (parseLine ''/while1'') (Some 0)"

definition run_state_at :: "job list \<Rightarrow> worker \<Rightarrow> job_result list \<Rightarrow> (nat \<rightharpoonup> int32) \<Rightarrow> (job \<times> execution_result) list \<Rightarrow>
    shell_phase \<Rightarrow> engine" where
  "run_state_at q w res prom done sh =
     \<lparr>engine_pool = \<lparr>job_queue_ref = (new_queue FCFS)\<lparr>queued_jobs := q\<rparr>, running = True, workers = [w],
        stop_at = Not_Stopping, results = res, promises = prom, submitted = [run_job], completed = done,
        death = None\<rparr>,
      id_counter = 2, promise_counter = 1, shell_at = sh, daemon_at = Reading, announced = [],
      shell_input = [''/while1'']\<rparr>"

definition run_states :: "engine list" where
  "run_states =
     (let r = new_execution_result; res = [make_result run_job r]; prom = [0 \<mapsto> 1]; d = [(run_job, r)]
      in [new_engine 1,
          (drawn (new_engine 1))\<lparr>shell_input := [''/while1''], shell_at := Shell_Enqueues run_job\<rparr>,
          run_state_at [run_job] Loop_Head [] Map.empty [] (Waiting 0),
          run_state_at [run_job] Enter_Dequeue [] Map.empty [] (Waiting 0),
          run_state_at [] (Executing run_job) [] Map.empty [] (Waiting 0),
          run_state_at [] (Reported run_job r) res Map.empty [] (Waiting 0),
          run_state_at [] Loop_Head res prom d (Waiting 0),
          run_state_at [] Enter_Dequeue res prom d (Waiting 0),
          run_state_at [] Sleeping res prom d (Waiting 0),
          run_state_at [] Sleeping res prom d Prompting])"

definition run_threads :: "thread list" where
  "run_threads = [Main, Main, Worker 0, Worker 0, Worker 0, Worker 0, Worker 0, Worker 0, Main]"

definition demo_run :: "nat \<Rightarrow> engine" where
  "demo_run m = run_states ! min m 9"

definition demo_schedule :: "nat \<Rightarrow> thread option" where
  "demo_schedule m = (if m < 9 then Some (run_threads ! m) else None)"

lemma run_job_executes: "executes plain_factories run_job run_job new_execution_result"
  unfolding executes_def
proof (intro exI)
  show "fst (run_state (execute refusing_kernel 1 plain_factories run_job) \<lparr>trace = [], file_counter = 0\<rparr>)
      = Some (executed new_execution_result run_job Exec_Returned)"
    by code_simp
qed

lemma run_job_sel [simp]: "result_promise run_job = Some 0" "cmd run_job = parseLine ''/while1''" "job_id run_job = 1"
  by (simp_all add: run_job_def new_job_def)

lemma run_command: "\<not> isEmpty (parseLine ''/while1'')" "\<not> builtin (parseLine ''/while1'')"
  "\<not> isBackground (parseLine ''/while1'')"
  by code_simp+

lemmas run_simps = run_state_at_def hand_over_def loop_test_def try_dequeue_def dequeue_def
  enqueue_def FCFS_addJob_def FCFS_getNextJob_def report_def fulfil_def new_queue_def

lemma less_9: "m < 9 \<Longrightarrow> m \<in> {0, 1, 2, 3, 4, 5, 6, 7, 8 :: nat}"
  by auto

lemma worker_moves_to:
  assumes "engine_alive e" and "worker_step f obs i (engine_pool e) p" and "e' = e\<lparr>engine_pool := p\<rparr>"
  shows "engine_step f obs (Worker i) e e'"
  using engine_step.works [OF assms(1,2)] assms(3) by simp

lemma run_alive [simp]: "engine_alive (run_state_at q w res prom d sh) = (sh \<noteq> Ended)"
  by (simp add: engine_alive_def run_state_at_def)

lemma run_steps:
  assumes "m < 9"
  shows "engine_step plain_factories [Logging_Observer] (run_threads ! m) (run_states ! m) (run_states ! Suc m)"
proof -
  let ?step = "engine_step plain_factories [Logging_Observer]"
  let ?r = new_execution_result
  let ?res = "[make_result run_job ?r]"
  have 0: "?step Main (new_engine 1) ((drawn (new_engine 1))\<lparr>shell_input := [''/while1''], shell_at := Shell_Enqueues run_job\<rparr>)"
    using engine_step.shell_creates [of "new_engine 1" _ "''/while1''" plain_factories "[Logging_Observer]", OF _ _ refl]
      run_command by (simp add: new_engine_def engine_alive_def draw_def run_job_def)
  have 1: "?step Main ((drawn (new_engine 1))\<lparr>shell_input := [''/while1''], shell_at := Shell_Enqueues run_job\<rparr>)
      (run_state_at [run_job] Loop_Head [] Map.empty [] (Waiting 0))"
    using engine_step.shell_enqueues [of "(drawn (new_engine 1))\<lparr>shell_input := [''/while1''], shell_at := Shell_Enqueues run_job\<rparr>" run_job
        "[Loop_Head]" plain_factories "[Logging_Observer]"] run_command
    by (simp add: new_engine_def engine_alive_def drawn_def run_simps start_def new_pool_def notify_one.nobody)
  have t: "?step (Worker 0) (run_state_at q Loop_Head res prom d sh) (run_state_at q Enter_Dequeue res prom d sh)"
    if "sh \<noteq> Ended" for q res prom d sh
    by (rule worker_moves_to [OF _ worker_step.tests]) (use that in \<open>simp_all add: run_simps engine_alive_def\<close>)
  have 3: "?step (Worker 0) (run_state_at [run_job] Enter_Dequeue [] Map.empty [] (Waiting 0))
      (run_state_at [] (Executing run_job) [] Map.empty [] (Waiting 0))"
    by (rule worker_moves_to [OF _ worker_step.takes]) (simp_all add: run_simps engine_alive_def)
  have 4: "?step (Worker 0) (run_state_at [] (Executing run_job) [] Map.empty [] (Waiting 0))
      (run_state_at [] (Reported run_job ?r) ?res Map.empty [] (Waiting 0))"
    by (rule worker_moves_to [OF _ worker_step.reports [OF _ _ _ run_job_executes]])
       (simp_all add: run_simps engine_alive_def new_execution_result_def collects_def onResult_def Logging_onResult_def)
  have 5: "?step (Worker 0) (run_state_at [] (Reported run_job ?r) ?res Map.empty [] (Waiting 0))
      (run_state_at [] Loop_Head ?res [0 \<mapsto> 1] [(run_job, ?r)] (Waiting 0))"
    by (rule worker_moves_to [OF _ worker_step.fulfils [where j = run_job and r = ?r]])
       (simp_all add: run_simps engine_alive_def promise_value_def new_execution_result_def)
  have 7: "?step (Worker 0) (run_state_at [] Enter_Dequeue ?res [0 \<mapsto> 1] [(run_job, ?r)] (Waiting 0))
      (run_state_at [] Sleeping ?res [0 \<mapsto> 1] [(run_job, ?r)] (Waiting 0))"
    by (rule worker_moves_to [OF _ worker_step.takes]) (simp_all add: run_simps engine_alive_def)
  have 8: "?step Main (run_state_at [] Sleeping ?res [0 \<mapsto> 1] [(run_job, ?r)] (Waiting 0))
      (run_state_at [] Sleeping ?res [0 \<mapsto> 1] [(run_job, ?r)] Prompting)"
    using engine_step.shell_resumes [of "run_state_at [] Sleeping ?res [0 \<mapsto> 1] [(run_job, ?r)] (Waiting 0)" 0]
    by (simp add: run_simps engine_alive_def)
  from less_9 [OF assms] show ?thesis
    using 0 1 t 3 4 5 7 8 by (elim insertE emptyE) (simp_all add: run_states_def run_threads_def Let_def)
qed

lemma run_states_alive: "m \<le> 9 \<Longrightarrow> engine_alive (run_states ! m)"
proof -
  assume "m \<le> 9"
  then have "m \<in> {0, 1, 2, 3, 4, 5, 6, 7, 8, 9}" by auto
  then show ?thesis
    by (elim insertE emptyE)
       (simp_all add: run_states_def Let_def, simp_all add: engine_alive_def new_engine_def start_def new_pool_def drawn_def)
qed

lemma demo_survives: "survives (demo_run m)"
  using run_states_alive [of "min m 9"] by (simp add: survives_def engine_alive_def demo_run_def)

lemma demo_fair: "fair_run (engine_step plain_factories [Logging_Observer]) engine_runnable (new_engine 1) demo_run demo_schedule"
  unfolding fair_run_def
proof (intro conjI allI)
  show "demo_run 0 = new_engine 1" by (simp add: demo_run_def run_states_def Let_def)
next
  fix m
  show "case demo_schedule m of None \<Rightarrow> demo_run (Suc m) = demo_run m
      | Some t \<Rightarrow> engine_step plain_factories [Logging_Observer] t (demo_run m) (demo_run (Suc m))"
    using run_steps [of m] by (simp add: demo_schedule_def demo_run_def min_def)
next
  fix t m
  have "\<not> engine_runnable (demo_run (max m 9)) t"
    by (cases t) (simp_all add: demo_run_def run_states_def Let_def run_state_at_def engine_runnable_def worker_runnable_def
        nth_Cons split: nat.split)
  then show "\<exists>m' \<ge> m. demo_schedule m' = Some t \<or> \<not> engine_runnable (demo_run m') t"
    by (intro exI [of _ "max m 9"]) simp
qed

theorem foreground_wait_ends_witness:
  "shell_at (demo_run 2) = Waiting 0 \<and> (\<exists>m' > 2. shell_at (demo_run m') = Prompting \<and>
    (\<exists>j \<in> set (submitted (engine_pool (demo_run m'))). result_promise j = Some 0 \<and> \<not> isBackground (cmd j)
      \<and> delivered j (engine_pool (demo_run m'))))"
proof -
  have w: "shell_at (demo_run 2) = Waiting 0" by (simp add: demo_run_def run_states_def run_state_at_def Let_def)
  from foreground_wait_ends [OF demo_fair _ demo_survives w] w show ?thesis by simp
qed

theorem every_job_completes_witness:
  "run_job \<in> set (submitted (engine_pool (demo_run 2))) \<and>
   (\<exists>m' \<ge> 2. shell_at (demo_run m') \<in> {Stopping, Ended} \<or> delivered run_job (engine_pool (demo_run m')))"
proof -
  have j: "run_job \<in> set (submitted (engine_pool (demo_run 2)))"
    by (simp add: demo_run_def run_states_def run_state_at_def Let_def)
  from every_job_completes [OF demo_fair _ demo_survives j] j show ?thesis by simp
qed

lemma reachable_engine_step:
  "reachable_engine f obs n e \<Longrightarrow> engine_step f obs t e e' \<Longrightarrow> reachable_engine f obs n e'"
  unfolding reachable_engine_def by (rule rtranclp.rtrancl_into_rtrancl) (auto simp: any_thread_def)

lemma reachable_new_engine: "reachable_engine f obs n (new_engine n)"
  by (simp add: reachable_engine_def)

lemma new_engine_sel [simp]: "engine_alive (new_engine n)" "shell_at (new_engine n) = Prompting"
  "daemon_at (new_engine n) = Reading" "workers (engine_pool (new_engine n)) = replicate n Loop_Head"
  "id_counter (new_engine n) = 1" "promise_counter (new_engine n) = 0" "announced (new_engine n) = []"
  "shell_input (new_engine n) = []"
  by (simp_all add: engine_alive_def new_engine_def)


text \<open>The same engine when its input ends at once.\<close>

definition quiet_engine :: "bool \<Rightarrow> bool \<Rightarrow> worker \<Rightarrow> stop_phase \<Rightarrow> shell_phase \<Rightarrow> engine" where
  "quiet_engine run stopped w st sh =
     \<lparr>engine_pool = \<lparr>job_queue_ref = (new_queue FCFS)\<lparr>stopping := stopped\<rparr>, running = run, workers = [w],
        stop_at = st, results = [], promises = Map.empty, submitted = [], completed = [], death = None\<rparr>,
      id_counter = 1, promise_counter = 0, shell_at = sh, daemon_at = Reading, announced = [], shell_input = []\<rparr>"

definition eof_states :: "engine list" where
  "eof_states =
     [quiet_engine True False Loop_Head Not_Stopping Prompting,
      quiet_engine False False Loop_Head Running_Cleared Stopping,
      quiet_engine False True Loop_Head Queue_Stopped Stopping,
      quiet_engine False True Loop_Head Joining Stopping,
      quiet_engine False True Exited Joining Stopping,
      quiet_engine False True Exited Joined Stopping,
      quiet_engine False True Exited Joined Ended]"

definition eof_threads :: "thread list" where
  "eof_threads = [Main, Main, Main, Worker 0, Main, Main]"

definition eof_run :: "nat \<Rightarrow> engine" where
  "eof_run m = eof_states ! min m 6"

definition eof_schedule :: "nat \<Rightarrow> thread option" where
  "eof_schedule m = (if m < 6 then Some (eof_threads ! m) else None)"

lemma quiet_sel [simp]: "shell_at (quiet_engine r b w st sh) = sh" "stop_at (engine_pool (quiet_engine r b w st sh)) = st"
  "engine_alive (quiet_engine r b w st sh) = (sh \<noteq> Ended)" "workers (engine_pool (quiet_engine r b w st sh)) = [w]"
  "running (engine_pool (quiet_engine r b w st sh)) = r" "death (engine_pool (quiet_engine r b w st sh)) = None"
  by (simp_all add: quiet_engine_def engine_alive_def)

lemma quiet_new: "quiet_engine True False Loop_Head Not_Stopping Prompting = new_engine 1"
  by (simp add: quiet_engine_def new_engine_def start_def new_pool_def new_queue_def)

lemma main_stops_to:
  assumes "engine_alive e" and "shell_at e = Stopping" and "pool_step (engine_pool e) p" and "stop_at p \<noteq> stop_at (engine_pool e)"
    and "e' = e\<lparr>engine_pool := p\<rparr>"
  shows "engine_step f obs Main e e'"
  using engine_step.shell_stops [OF assms(1-4)] assms(5) by simp

lemma eof_steps:
  assumes "m < 6"
  shows "engine_step f obs (eof_threads ! m) (eof_states ! m) (eof_states ! Suc m)"
proof -
  let ?step = "engine_step f obs"
  have 0: "?step Main (quiet_engine True False Loop_Head Not_Stopping Prompting)
      (quiet_engine False False Loop_Head Running_Cleared Stopping)"
    using engine_step.shell_eof [OF _ _ pool_step.stop_clear [of "engine_pool (quiet_engine True False Loop_Head Not_Stopping Prompting)"],
        of f obs] by (simp add: quiet_engine_def engine_alive_def)
  have 1: "?step Main (quiet_engine False False Loop_Head Running_Cleared Stopping)
      (quiet_engine False True Loop_Head Queue_Stopped Stopping)"
    by (rule main_stops_to [OF _ _ pool_step.stop_queue_flag]) (simp_all add: quiet_engine_def stop_queue_def engine_alive_def)
  have 2: "?step Main (quiet_engine False True Loop_Head Queue_Stopped Stopping)
      (quiet_engine False True Loop_Head Joining Stopping)"
    by (rule main_stops_to [OF _ _ pool_step.stop_notify]) (simp_all add: quiet_engine_def notify_all_def engine_alive_def)
  have 3: "?step (Worker 0) (quiet_engine False True Loop_Head Joining Stopping) (quiet_engine False True Exited Joining Stopping)"
    by (rule worker_moves_to [OF _ worker_step.tests]) (simp_all add: quiet_engine_def loop_test_def engine_alive_def)
  have 4: "?step Main (quiet_engine False True Exited Joining Stopping) (quiet_engine False True Exited Joined Stopping)"
    by (rule main_stops_to [OF _ _ pool_step.stop_join]) (simp_all add: quiet_engine_def engine_alive_def)
  have 5: "?step Main (quiet_engine False True Exited Joined Stopping) (quiet_engine False True Exited Joined Ended)"
    using engine_step.shell_returns [of "quiet_engine False True Exited Joined Stopping" f obs]
    by (simp add: quiet_engine_def engine_alive_def)
  from assms have "m \<in> {0, 1, 2, 3, 4, 5}" by auto
  then show ?thesis
    using 0 1 2 3 4 5 by (elim insertE emptyE) (simp_all add: eof_states_def eof_threads_def)
qed

lemma eof_fair: "fair_run (engine_step f obs) engine_runnable (new_engine 1) eof_run eof_schedule"
  unfolding fair_run_def
proof (intro conjI allI)
  show "eof_run 0 = new_engine 1" by (simp add: eof_run_def eof_states_def quiet_new)
next
  fix m
  show "case eof_schedule m of None \<Rightarrow> eof_run (Suc m) = eof_run m
      | Some t \<Rightarrow> engine_step f obs t (eof_run m) (eof_run (Suc m))"
    using eof_steps [of m] by (simp add: eof_schedule_def eof_run_def min_def)
next
  fix t m
  have "\<not> engine_runnable (eof_run (max m 6)) t" by (simp add: eof_run_def eof_states_def engine_runnable_def)
  then show "\<exists>m' \<ge> m. eof_schedule m' = Some t \<or> \<not> engine_runnable (eof_run m') t"
    by (intro exI [of _ "max m 6"]) simp
qed

lemma eof_survives: "survives (eof_run m)"
proof -
  have "min m 6 \<in> {0, 1, 2, 3, 4, 5, 6}" by (auto simp: min_def)
  then show ?thesis unfolding eof_run_def by (elim insertE emptyE) (simp_all add: eof_states_def survives_def)
qed

theorem engine_returns_witness:
  "shell_at (eof_run 1) = Stopping \<and> (\<exists>m' > 1. shell_at (eof_run m') = Ended \<and> set (workers (engine_pool (eof_run m'))) \<subseteq> {Exited})"
proof -
  have w: "shell_at (eof_run 1) = Stopping" by (simp add: eof_run_def eof_states_def)
  from engine_returns [OF eof_fair [of plain_factories main_observers] eof_survives w] w show ?thesis by simp
qed

section \<open>The number of a background job\<close>

text \<open>
  The shell prints \<open>next_job_id - 1\<close> for a background job. When the daemon creates a job in between,
  this is the number of the daemon's job.
\<close>

lemma announcement_can_be_wrong:
  "\<exists>e j. reachable_engine f obs 1 e \<and> (j, 2) \<in> set (announced e) \<and> job_id j = 1"
proof -
  let ?c = "parseLine ''/while1 &''" and ?e0 = "new_engine 1"
  have c: "\<not> isEmpty ?c" "\<not> builtin ?c" "isBackground ?c" by code_simp+
  define j where "j = draw ?c ?e0"
  define e1 where "e1 = (drawn ?e0)\<lparr>shell_input := [''/while1 &''], shell_at := Shell_Enqueues j\<rparr>"
  have j: "cmd j = ?c" "job_id j = 1" "result_promise j = Some 0" by (simp_all add: j_def)
  have "engine_step f obs Main ?e0 e1"
    using engine_step.shell_creates [of ?e0 ?c "''/while1 &''" f obs] c by (simp add: e1_def j_def)
  note r1 = reachable_engine_step [OF reachable_new_engine this]
  define e2 where "e2 = e1\<lparr>engine_pool := hand_over j [Loop_Head] (engine_pool e1), shell_at := Announcing j\<rparr>"
  have a1: "engine_alive e1" "workers (engine_pool e1) = [Loop_Head]"
    by (simp_all add: e1_def engine_alive_def new_engine_def)
  have "engine_step f obs Main e1 e2"
    using engine_step.shell_enqueues [OF a1(1), of j "[Loop_Head]" f obs] c(3) j(1) a1(2)
    by (simp add: e1_def e2_def notify_one.nobody)
  note r2 = reachable_engine_step [OF r1 this]
  have "list_all (valid_utf8 \<circ> bytes_of) [''/bin/ls'']" by code_simp
  from printed_request(2,4) [OF this] obtain l x where l: "daemon_command l = Inr x" "l \<noteq> []" by blast
  define e3 where "e3 = (drawn e2)\<lparr>daemon_at := Daemon_Enqueues (draw x e2)\<rparr>"
  have a2: "engine_alive e2" "daemon_at e2 = Reading" using a1(1) by (simp_all add: e2_def e1_def engine_alive_def)
  have "engine_step f obs Daemon e2 e3"
    unfolding e3_def by (rule engine_step.daemon_creates [OF a2 l(2,1)])
  note r3 = reachable_engine_step [OF r2 this]
  have a3: "engine_alive e3" "shell_at e3 = Announcing j" using a2(1) by (simp_all add: e3_def e2_def engine_alive_def)
  have "id_counter e3 - 1 = 2" by (simp add: e3_def e2_def e1_def)
  with engine_step.shell_announces [OF a3, of f obs]
  have "engine_step f obs Main e3 (e3\<lparr>shell_at := Prompting, announced := (j, 2) # announced e3\<rparr>)" by simp
  from reachable_engine_step [OF r3 this] j(2) show ?thesis by fastforce
qed

end
