(* ===== verification/Benchmark.thy ===== *)
theory Benchmark
  imports Pool_Liveness
begin

text \<open>
  The scheduler benchmark, \<open>src/benchmark.cpp\<close>: a pool of one worker without limits, watchdog or
  filter; three jobs are enqueued, their promises awaited in order, and the pool is stopped. It is
  a client of the pool like the engine, so that the same laws apply.
\<close>

section \<open>Model\<close>

text \<open>Where \<open>runRealBenchmark\<close> is: in the first loop, in the second, in \<open>pool.stop()\<close>, finished.\<close>

datatype bench_phase = Enqueueing nat | Getting nat | Bench_Stopping | Bench_Done

record bench =
  bench_pool :: pool
  bench_at :: bench_phase

definition cpu_hog :: "int32 \<Rightarrow> nat \<Rightarrow> job" where
  "cpu_hog quantum i =
     (new_job (of_nat i + 1) (new_command\<lparr>executable := ''/cpu_hog''\<rparr>) (Some i))
       \<lparr>priority := of_nat i, time_quantum := quantum\<rparr>"

definition bench_factories :: factories where
  "bench_factories = \<lparr>limiter_factory = None, watchdog_factory = None, sec_policy_factory = False\<rparr>"

definition bench_observers :: "observer list" where
  "bench_observers = addObserver Logging_Observer []"

definition new_bench :: "scheduler_kind \<Rightarrow> bench" where
  "new_bench k = \<lparr>bench_pool = start 1 (new_pool (new_queue k)), bench_at = Enqueueing 0\<rparr>"

definition bench_alive :: "bench \<Rightarrow> bool" where
  "bench_alive b \<longleftrightarrow> \<not> terminated (bench_pool b)"

inductive bench_step :: "int32 \<Rightarrow> thread \<Rightarrow> bench \<Rightarrow> bench \<Rightarrow> bool" for q where
  enqueues:
    "bench_alive b \<Longrightarrow> bench_at b = Enqueueing i \<Longrightarrow> i < 3 \<Longrightarrow> notify_one (workers (bench_pool b)) ws \<Longrightarrow>
     bench_step q Main b (b\<lparr>bench_pool := hand_over (cpu_hog q i) ws (bench_pool b), bench_at := Enqueueing (Suc i)\<rparr>)"
| loops:
    "bench_alive b \<Longrightarrow> bench_at b = Enqueueing 3 \<Longrightarrow> bench_step q Main b (b\<lparr>bench_at := Getting 0\<rparr>)"
| gets:
    "bench_alive b \<Longrightarrow> bench_at b = Getting i \<Longrightarrow> i < 3 \<Longrightarrow> promises (bench_pool b) i \<noteq> None \<Longrightarrow>
     bench_step q Main b (b\<lparr>bench_at := Getting (Suc i)\<rparr>)"
| begins_stop:
    "bench_alive b \<Longrightarrow> bench_at b = Getting 3 \<Longrightarrow> pool_step (bench_pool b) p \<Longrightarrow>
     stop_at (bench_pool b) = Not_Stopping \<Longrightarrow> stop_at p = Running_Cleared \<Longrightarrow>
     bench_step q Main b (b\<lparr>bench_pool := p, bench_at := Bench_Stopping\<rparr>)"
| stops:
    "bench_alive b \<Longrightarrow> bench_at b = Bench_Stopping \<Longrightarrow> pool_step (bench_pool b) p \<Longrightarrow>
     stop_at p \<noteq> stop_at (bench_pool b) \<Longrightarrow> bench_step q Main b (b\<lparr>bench_pool := p\<rparr>)"
| returns:
    "bench_alive b \<Longrightarrow> bench_at b = Bench_Stopping \<Longrightarrow> stop_at (bench_pool b) = Joined \<Longrightarrow>
     bench_step q Main b (b\<lparr>bench_at := Bench_Done\<rparr>)"
| works:
    "bench_alive b \<Longrightarrow> worker_step bench_factories bench_observers i (bench_pool b) p \<Longrightarrow>
     bench_step q (Worker i) b (b\<lparr>bench_pool := p\<rparr>)"

inductive_cases bench_workE: "bench_step q (Worker i) b b'"
inductive_cases bench_mainE: "bench_step q Main b b'"

definition bench_runnable :: "bench \<Rightarrow> thread \<Rightarrow> bool" where
  "bench_runnable b t \<longleftrightarrow> bench_alive b \<and>
     (case t of
        Worker i \<Rightarrow> worker_runnable (bench_pool b) i
      | Daemon \<Rightarrow> False
      | Main \<Rightarrow> (case bench_at b of
                  Getting i \<Rightarrow> i = 3 \<or> promises (bench_pool b) i \<noteq> None
                | Bench_Stopping \<Rightarrow> stop_at (bench_pool b) \<noteq> Joining \<or> set (workers (bench_pool b)) \<subseteq> {Exited}
                | Bench_Done \<Rightarrow> False
                | Enqueueing i \<Rightarrow> True))"

text \<open>The three runs of \<open>main\<close>: name, scheduler and quantum.\<close>

definition bench_main :: "(string \<times> scheduler_kind \<times> int32) list" where
  "bench_main = [(''FCFS'', FCFS, 0), (''RoundRobin'', RoundRobin, 2000), (''MLFQ'', MLFQ, 2000)]"

section \<open>The benchmark is a client of its pool\<close>

definition bench_issued :: "bench \<Rightarrow> nat" where
  "bench_issued b = (case bench_at b of Enqueueing i \<Rightarrow> i | _ \<Rightarrow> 3)"

lemma cpu_hog_sel [simp]: "result_promise (cpu_hog q i) = Some i" "time_quantum (cpu_hog q i) = q"
  "job_id (cpu_hog q i) = of_nat i + 1"
  by (simp_all add: cpu_hog_def new_job_def)

lemma bench_worker:
  "bench_step q (Worker i) b b' \<Longrightarrow>
   worker_step bench_factories bench_observers i (bench_pool b) (bench_pool b') \<and> bench_at b' = bench_at b"
  by (erule bench_workE) simp

lemma bench_client: "bench_step q t b b' \<Longrightarrow> \<forall>i. t \<noteq> Worker i \<Longrightarrow> client_change (bench_pool b) (bench_pool b')"
proof (induction rule: bench_step.induct)
  case (begins_stop b p)
  then show ?case by (auto intro: client_change.stops)
next
  case (stops b p)
  then show ?case by (auto intro: client_change.stops)
qed (auto simp: bench_alive_def intro: client_change.same client_change.submits)

lemma bench_issue:
  "bench_step q t b b' \<Longrightarrow> \<forall>i. t \<noteq> Worker i \<Longrightarrow>
   submitted (bench_pool b') = submitted (bench_pool b) \<and> bench_issued b' = bench_issued b
   \<or> submitted (bench_pool b') = cpu_hog q (bench_issued b) # submitted (bench_pool b) \<and> bench_issued b' = Suc (bench_issued b)"
proof (induction rule: bench_step.induct)
  case (begins_stop b p)
  then show ?case using stop_change [of "bench_pool b" p] by (simp add: bench_issued_def)
next
  case (stops b p)
  then show ?case using stop_change [of "bench_pool b" p] by (simp add: bench_issued_def)
qed (simp_all add: bench_issued_def hand_over_def)

interpretation bench: pool_client "bench_step q" bench_runnable bench_alive "new_bench k" bench_pool "\<lambda>b. []" bench_issued
    bench_factories bench_observers 1 k q for q k
proof
  show "bench_alive b \<Longrightarrow> worker_runnable (bench_pool b) i \<Longrightarrow> bench_runnable b (Worker i)" for b i
    by (simp add: bench_runnable_def)
  show "mset (submitted (bench_pool b')) + mset [] = mset (submitted (bench_pool b)) + mset [] \<and> bench_issued b' = bench_issued b
      \<or> (\<exists>j. mset (submitted (bench_pool b')) + mset [] = add_mset j (mset (submitted (bench_pool b)) + mset [])
         \<and> result_promise j = Some (bench_issued b) \<and> bench_issued b' = Suc (bench_issued b) \<and> time_quantum j = q)"
    if "bench_step q t b b'" "\<forall>i. t \<noteq> Worker i" for t b b'
    using bench_issue [OF that] by auto
qed (use bench_worker bench_client in \<open>auto simp: new_bench_def bench_issued_def\<close>)

definition reachable_bench :: "int32 \<Rightarrow> scheduler_kind \<Rightarrow> bench \<Rightarrow> bool" where
  "reachable_bench q k = (any_thread (bench_step q))\<^sup>*\<^sup>* (new_bench k)"

section \<open>Every job of the benchmark is reported once\<close>

text \<open>The jobs enqueued so far, and the promises already awaited.\<close>

definition bench_ok :: "int32 \<Rightarrow> bench \<Rightarrow> bool" where
  "bench_ok q b \<longleftrightarrow> submitted (bench_pool b) = rev (map (cpu_hog q) [0..<bench_issued b])
     \<and> (\<forall>i. bench_at b = Enqueueing i \<or> bench_at b = Getting i \<longrightarrow> i \<le> 3)
     \<and> (\<forall>i j. bench_at b = Getting i \<and> j < i \<longrightarrow> promises (bench_pool b) j \<noteq> None)
     \<and> (bench_at b \<in> {Bench_Stopping, Bench_Done} \<longrightarrow> (\<forall>j < 3. promises (bench_pool b) j \<noteq> None))
     \<and> (bench_at b \<notin> {Bench_Stopping, Bench_Done} \<longrightarrow> stop_at (bench_pool b) = Not_Stopping)"

lemma bench_ok_step: "bench_step q t b b' \<Longrightarrow> bench_ok q b \<Longrightarrow> bench_ok q b'"
proof (induction rule: bench_step.induct)
  case (enqueues b i ws)
  then show ?case by (auto simp: bench_ok_def bench_issued_def)
next
  case (loops b)
  then show ?case by (auto simp: bench_ok_def bench_issued_def)
next
  case (gets b i)
  then show ?case by (auto simp: bench_ok_def bench_issued_def less_Suc_eq)
next
  case (begins_stop b p)
  then show ?case using stop_change [of "bench_pool b" p] by (auto simp: bench_ok_def bench_issued_def)
next
  case (stops b p)
  then show ?case using stop_change [of "bench_pool b" p] by (auto simp: bench_ok_def bench_issued_def)
next
  case (returns b)
  then show ?case by (auto simp: bench_ok_def bench_issued_def)
next
  case (works b i p)
  note st = worker_step_stop [OF works(2)] and grow = pool_step_grows [OF worker_step_pool [OF works(2)]]
  show ?case
    using works(3) st grow by (auto simp: bench_ok_def bench_issued_def)
qed

lemma bench_ok_reachable: "reachable_bench q k b \<Longrightarrow> bench_ok q b"
  unfolding reachable_bench_def
proof (induction rule: rtranclp_induct)
  case base
  show ?case by (auto simp: bench_ok_def bench_issued_def new_bench_def)
next
  case (step b b')
  then show ?case by (auto simp: any_thread_def intro: bench_ok_step)
qed

definition collected :: "bench \<Rightarrow> bool" where
  "collected b \<longleftrightarrow> bench_at b \<in> {Getting 3, Bench_Stopping, Bench_Done}"

lemma reported_id_held: "reported_id w \<subseteq># image_mset fst (held w)"
  by (cases w) (simp_all add: job_key_def)

lemma reported_none: "wsum held ws = {#} \<Longrightarrow> wsum reported_id ws = {#}"
proof (induction ws)
  case (Cons w ws)
  then show ?case using reported_id_held [of w] by (simp add: wsum_def)
qed (simp add: wsum_def)

lemma no_room:
  assumes "S = Q + H + C" and "size S \<le> size C"
  shows "Q = {#} \<and> H = {#}"
proof -
  have "size S = size Q + size H + size C" using assms(1) by simp
  with assms(2) have "size Q = 0" "size H = 0" by linarith+
  then show ?thesis by simp
qed

lemma worker_jobs_held: "j \<in> worker_jobs ws \<Longrightarrow> job_key j \<in># wsum held ws"
  by (induction ws) (auto simp: wsum_def worker_jobs_def held_job)

lemma all_submitted:
  assumes "reachable_bench q k b" and "collected b"
  shows "submitted (bench_pool b) = [cpu_hog q 2, cpu_hog q 1, cpu_hog q 0]"
  using bench_ok_reachable [OF assms(1)] assms(2)
  by (auto simp: bench_ok_def collected_def bench_issued_def upt_rec numeral_3_eq_3 numeral_2_eq_2)

lemma all_completed:
  assumes "reachable_bench q k b" and "collected b"
  shows "image_mset (job_key \<circ> fst) (mset (completed (bench_pool b))) = image_mset job_key (mset (submitted (bench_pool b)))
    \<and> queued_jobs (job_queue_ref (bench_pool b)) = [] \<and> wsum held (workers (bench_pool b)) = {#}"
proof -
  let ?p = "bench_pool b"
  note r = bench.view_reachable [OF assms(1) [unfolded reachable_bench_def]]
  have pr: "promises ?p a \<noteq> None" if "a < 3" for a
    using bench_ok_reachable [OF assms(1)] assms(2) that by (auto simp: bench_ok_def collected_def)
  let ?C = "image_mset (job_key \<circ> fst) (mset (completed ?p))"
  have c: "image_mset job_key (mset (submitted ?p)) =
      image_mset job_key (mset (queued_jobs (job_queue_ref ?p))) + wsum held (workers ?p) + ?C"
    using conserved_reachable [OF r] by (simp add: conserved_def)
  have "Some a \<in> snd ` set_mset ?C" if "a < 3" for a
    using kept_promise [OF r pr [OF that]] by (force simp: job_key_def)
  then have "{Some 0, Some 1, Some 2} \<subseteq> snd ` set_mset ?C" by simp
  then have "card {Some 0, Some 1, Some (2 :: nat)} \<le> card (snd ` set_mset ?C)" by (rule card_mono [rotated]) simp
  also have "\<dots> \<le> card (set (map (job_key \<circ> fst) (completed ?p)))" using card_image_le [of "set_mset ?C" snd] by simp
  also have "\<dots> \<le> size ?C" using card_length [of "map (job_key \<circ> fst) (completed ?p)"] by simp
  finally have "3 \<le> size ?C" by simp
  moreover have "size (image_mset job_key (mset (submitted ?p))) = 3" by (simp add: all_submitted [OF assms])
  ultimately have "size (image_mset job_key (mset (submitted ?p))) \<le> size ?C" by linarith
  from no_room [OF c this]
  have q: "image_mset job_key (mset (queued_jobs (job_queue_ref ?p))) = {#}" and h: "wsum held (workers ?p) = {#}"
    by blast+
  from c have "image_mset job_key (mset (submitted ?p)) = ?C" unfolding q h by simp
  with q h show ?thesis by simp
qed

lemma nothing_left:
  assumes "reachable_bench q k b" and "collected b"
  shows "pool_jobs (bench_pool b) = {}"
  using all_completed [OF assms] worker_jobs_held by (fastforce simp: pool_jobs_def)

text \<open>
  C13: whatever the scheduler and the quantum, and however the jobs are preempted and resumed: when the
  second loop has got all three promises, every job has been reported to the collector exactly
  once, and no job is left in the queue or with the worker.
\<close>

theorem bench_reports_each_once:
  assumes "reachable_bench q k b" and "collected b"
  shows "mset (map jr_job_id (results (bench_pool b))) = {#1, 2, 3#} \<and> pool_jobs (bench_pool b) = {}"
proof -
  let ?p = "bench_pool b"
  note r = bench.view_reachable [OF assms(1) [unfolded reachable_bench_def]] and c = all_completed [OF assms]
  have "image_mset jr_job_id (mset (results ?p)) = image_mset fst (image_mset (job_key \<circ> fst) (mset (completed ?p)))"
    using reported_ok_reachable [OF r] reported_none [OF c [THEN conjunct2, THEN conjunct2]]
    by (simp add: reported_ok_def results_counted_def multiset.map_comp comp_def job_key_def)
  also have "\<dots> = image_mset fst (image_mset job_key (mset (submitted ?p)))"
    by (rule arg_cong [OF conjunct1 [OF c]])
  also have "\<dots> = {#1, 2, 3#}" by (simp add: all_submitted [OF assms] job_key_def)
  finally show ?thesis using nothing_left [OF assms] by simp
qed

section \<open>First come, first served\<close>

fun executing :: "worker \<Rightarrow> uint64 list" where
  "executing (Executing j) = [job_id j]"
| "executing _ = []"

lemma executing_none: "worker_job w = None \<Longrightarrow> executing w = []"
  by (cases w) simp_all

text \<open>With one worker and no preemption: what was reported, what is executed, what is queued.\<close>

definition in_order :: "pool \<Rightarrow> bool" where
  "in_order p \<longleftrightarrow> (\<exists>w. workers p = [w] \<and>
     map job_id (rev (submitted p)) = map jr_job_id (results p) @ executing w @ map job_id (queued_jobs (job_queue_ref p)))"

lemma order_when_left:
  assumes "in_order p" and "pool_jobs p = {}"
  shows "map jr_job_id (results p) = map job_id (rev (submitted p))"
proof -
  from assms(1) obtain w where w: "workers p = [w]" "map job_id (rev (submitted p)) =
      map jr_job_id (results p) @ executing w @ map job_id (queued_jobs (job_queue_ref p))"
    unfolding in_order_def by blast
  from assms(2) w(1) have "worker_job w = None" "queued_jobs (job_queue_ref p) = []"
    by (auto simp: pool_jobs_def worker_jobs_def)
  then show ?thesis by (simp add: w(2) executing_none)
qed

lemma in_order_notify: "notify_one [w] ws \<Longrightarrow> \<exists>w'. ws = [w'] \<and> executing w' = executing w"
  by (erule notify_oneE) auto

lemma in_order_client:
  assumes "client_change p p'" and "queue_scheduler (job_queue_ref p) = FCFS" and "in_order p"
  shows "in_order p'"
  using assms
proof (induction rule: client_change.induct)
  case (submits p ws j)
  then obtain w where w: "workers p = [w]" "map job_id (rev (submitted p)) =
      map jr_job_id (results p) @ executing w @ map job_id (queued_jobs (job_queue_ref p))" by (auto simp: in_order_def)
  with in_order_notify [of w ws] submits(2) obtain w' where "ws = [w']" "executing w' = executing w" by auto
  with w submits(3) show ?case by (simp add: in_order_def hand_over_def enqueue_fcfs)
next
  case (stops p p')
  from stops(4) obtain w where w: "workers p = [w]" "map job_id (rev (submitted p)) =
      map jr_job_id (results p) @ executing w @ map job_id (queued_jobs (job_queue_ref p))" by (auto simp: in_order_def)
  with stop_change [OF stops(1,2)] w show ?case by (auto simp: in_order_def notify_all_def)
qed

lemma in_order_worker:
  assumes "worker_step f obs i p p'" and "queue_scheduler (job_queue_ref p) = FCFS" and "in_order p"
    and "\<And>j. j \<in> pool_jobs p \<Longrightarrow> time_quantum j = 0"
  shows "in_order p'"
proof -
  from assms(3) obtain w where w: "workers p = [w]" "map job_id (rev (submitted p)) =
      map jr_job_id (results p) @ executing w @ map job_id (queued_jobs (job_queue_ref p))" by (auto simp: in_order_def)
  from assms(1) show ?thesis
  proof (cases rule: worker_step.cases)
    case takes
    show ?thesis
    proof (cases "dequeue (job_queue_ref p)")
      case (Pair r q)
      with takes w fcfs_dequeue [OF assms(2), of _ q] show ?thesis
        by (cases r) (auto simp: in_order_def try_dequeue_def)
    qed
  next
    case (is_preempted j j' r b ws)
    with w have "j \<in> pool_jobs p" by (auto simp: pool_jobs_def worker_jobs_def)
    with assms(4) executes_to_end [OF is_preempted(5)] is_preempted(6) show ?thesis by simp
  next
    case (reports j j' r)
    have "job_id j' = job_id j" using same_job_key [OF executes_same_job [OF reports(5)]] by (simp add: job_key_def)
    with reports w show ?thesis by (simp add: in_order_def report_def make_result_def)
  next
    case (fulfils j r)
    with w show ?thesis by (auto simp: in_order_def fulfil_def split: option.splits)
  qed (use w in \<open>auto simp: in_order_def loop_test_def\<close>)
qed

lemma bench_in_order: "reachable_bench 0 FCFS b \<Longrightarrow> in_order (bench_pool b)"
  unfolding reachable_bench_def
proof (induction rule: rtranclp_induct)
  case base
  show ?case by (simp add: in_order_def new_bench_def new_queue_def)
next
  case (step b b')
  from step(2) obtain t where t: "bench_step 0 t b b'" by (auto simp: any_thread_def)
  have q: "queue_scheduler (job_queue_ref (bench_pool b)) = FCFS"
    using pool_shape [OF bench.view_reachable [OF step(1)]] by simp
  show ?case
  proof (cases "\<exists>i. t = Worker i")
    case True
    with t bench_worker in_order_worker [OF _ q step.IH bench.job_quantum [OF step(1)]] show ?thesis by blast
  next
    case False
    with t bench_client in_order_client [OF _ q step.IH] show ?thesis by blast
  qed
qed

section \<open>The benchmark ends\<close>

lemma bench_others:
  "bench_step q t b b' \<Longrightarrow> t \<noteq> Main \<Longrightarrow> bench_at b' = bench_at b \<and> stop_at (bench_pool b') = stop_at (bench_pool b)"
  by (erule bench_step.cases) (auto dest: worker_step_stop)

lemma bench_main_steps:
  assumes "fair_run (bench_step q) bench_runnable (new_bench k) \<sigma> \<tau>" and "\<And>m. bench_alive (\<sigma> m)"
    and "bench_at (\<sigma> m) = x" and "\<And>b. bench_alive b \<Longrightarrow> bench_at b = x \<Longrightarrow> bench_runnable b Main"
  shows "\<exists>m' \<ge> m. bench_step q Main (\<sigma> m') (\<sigma> (Suc m')) \<and> bench_at (\<sigma> m') = x"
proof -
  have "\<exists>m' \<ge> m. \<tau> m' = Some Main \<and> bench_at (\<sigma> m') = x"
    by (rule bench.first_step [OF assms(1), where P = "\<lambda>b. bench_at b = x"]) (use assms bench_others in auto)
  then show ?thesis using bench.run_step [OF assms(1)] by blast
qed

lemma bench_enqueues_all:
  assumes run: "fair_run (bench_step q) bench_runnable (new_bench k) \<sigma> \<tau>" and live: "\<And>m. bench_alive (\<sigma> m)"
  shows "\<exists>m. bench_at (\<sigma> m) = Getting 0"
proof -
  have step: "\<exists>m' > m. bench_at (\<sigma> m') = (if i < 3 then Enqueueing (Suc i) else Getting 0)"
    if "bench_at (\<sigma> m) = Enqueueing i" "i \<le> 3" for m i
  proof -
    from bench_main_steps [OF run live that(1)] obtain m' where m': "m \<le> m'" "bench_step q Main (\<sigma> m') (\<sigma> (Suc m'))"
      "bench_at (\<sigma> m') = Enqueueing i" by (auto simp: bench_runnable_def)
    from m'(2,3) that(2) have "bench_at (\<sigma> (Suc m')) = (if i < 3 then Enqueueing (Suc i) else Getting 0)"
      by (elim bench_mainE) auto
    with m'(1) show ?thesis by (meson le_imp_less_Suc)
  qed
  have "bench_at (\<sigma> 0) = Enqueueing 0" using run by (simp add: fair_run_def new_bench_def)
  from step [OF this] obtain a where "bench_at (\<sigma> a) = Enqueueing 1" by auto
  from step [OF this] obtain b where "bench_at (\<sigma> b) = Enqueueing 2" by (auto simp: numeral_2_eq_2)
  from step [OF this] obtain c where "bench_at (\<sigma> c) = Enqueueing 3" by (auto simp: numeral_3_eq_3)
  from step [OF this] show ?thesis by auto
qed

lemma bench_gets:
  assumes run: "fair_run (bench_step 0) bench_runnable (new_bench FCFS) \<sigma> \<tau>" and live: "\<And>m. bench_alive (\<sigma> m)"
    and i: "bench_at (\<sigma> m) = Getting i" "i < 3"
  shows "\<exists>m' > m. bench_at (\<sigma> m') = Getting (Suc i)"
proof -
  note r = bench.run_reaches [OF run, folded reachable_bench_def]
  have "\<exists>m' \<ge> m. \<tau> m' = Some Main \<and> bench_at (\<sigma> m') = Getting i"
  proof -
    have "(\<exists>m' \<ge> m. \<tau> m' = Some Main \<and> bench_at (\<sigma> m') = Getting i) \<or> (\<forall>k \<ge> m. bench_at (\<sigma> k) = Getting i)"
      by (rule bench.lasts [OF run, where P = "\<lambda>b. bench_at b = Getting i"]) (use i bench_others in auto)
    then show ?thesis
    proof
      assume w: "\<forall>k \<ge> m. bench_at (\<sigma> k) = Getting i"
      have ok: "bench_ok 0 (\<sigma> k)" for k by (rule bench_ok_reachable [OF r])
      have "submitted (bench_pool (\<sigma> m)) = rev (map (cpu_hog 0) [0..<3])"
        using ok [of m] i by (simp add: bench_ok_def bench_issued_def)
      then have j: "cpu_hog 0 i \<in> set (submitted (bench_pool (\<sigma> m)))" using i(2) by simp
      have st: "stop_at (bench_pool (\<sigma> k)) = Not_Stopping" if "m \<le> k" for k
        using ok [of k] w that by (auto simp: bench_ok_def)
      have "\<exists>m' \<ge> m. promises (bench_pool (\<sigma> m')) i \<noteq> None"
        by (rule bench.job_done [OF run live _ st _ refl _ j]) (simp_all add: bench_alive_def)
      then obtain k where k: "m \<le> k" "promises (bench_pool (\<sigma> k)) i \<noteq> None" by blast
      have set: "promises (bench_pool (\<sigma> k')) i \<noteq> None" if "k \<le> k'" for k'
        using that
      proof (induction rule: dec_induct)
        case (step l)
        have "bench_pool (\<sigma> (Suc l)) = bench_pool (\<sigma> l) \<or> pool_step (bench_pool (\<sigma> l)) (bench_pool (\<sigma> (Suc l)))"
          using bench.run_idle [OF run, of l] bench.view_step [OF bench.run_step [OF run, of l]] by (cases "\<tau> l") auto
        with step.IH pool_step_grows [of "bench_pool (\<sigma> l)" "bench_pool (\<sigma> (Suc l))" i] show ?case by auto
      qed (rule k(2))
      from run obtain k' where "k \<le> k'" "\<tau> k' = Some Main \<or> \<not> bench_runnable (\<sigma> k') Main"
        unfolding fair_run_def by blast
      with k(1) w set [of k'] live [of k'] show ?thesis by (intro exI [of _ k']) (simp add: bench_runnable_def)
    qed
  qed
  then obtain m' where m': "m \<le> m'" "\<tau> m' = Some Main" "bench_at (\<sigma> m') = Getting i" by blast
  from bench.run_step [OF run m'(2)] m'(3) i(2) have "bench_at (\<sigma> (Suc m')) = Getting (Suc i)"
    by (elim bench_mainE) auto
  with m'(1) show ?thesis by (meson le_imp_less_Suc)
qed

lemma bench_stopping_main:
  "bench_step q Main b b' \<Longrightarrow> bench_at b = Bench_Stopping \<Longrightarrow>
   bench_at b' = Bench_Done \<and> stop_at (bench_pool b) = Joined \<or>
   bench_at b' = Bench_Stopping \<and> stop_follows (stop_at (bench_pool b)) (stop_at (bench_pool b'))"
  by (erule bench_mainE) (auto dest: stop_order)

text \<open>
  C12: under fair scheduling, if the process is not killed, the first-come-first-served benchmark ends:
  all three promises are got, the pool is stopped, and the collector has received the three results
  in the order of the jobs.
\<close>

theorem bench_fcfs_finishes:
  assumes "fair_run (bench_step 0) bench_runnable (new_bench FCFS) \<sigma> \<tau>" and "\<And>m. bench_alive (\<sigma> m)"
  shows "\<exists>m. bench_at (\<sigma> m) = Bench_Done \<and> map jr_job_id (results (bench_pool (\<sigma> m))) = [1, 2, 3]"
proof -
  note run = assms(1) and live = assms(2)
  note r = bench.run_reaches [OF run, folded reachable_bench_def]
  obtain m0 where "bench_at (\<sigma> m0) = Getting 0" using bench_enqueues_all [OF run live] by blast
  from bench_gets [OF run live this] obtain m1 where "bench_at (\<sigma> m1) = Getting 1" by auto
  from bench_gets [OF run live this] obtain m2 where "bench_at (\<sigma> m2) = Getting 2" by (auto simp: numeral_2_eq_2)
  from bench_gets [OF run live this] obtain m3 where m3: "bench_at (\<sigma> m3) = Getting 3" by (auto simp: numeral_3_eq_3)
  from bench_main_steps [OF run live m3] obtain m4 where m4: "bench_step 0 Main (\<sigma> m4) (\<sigma> (Suc m4))" "bench_at (\<sigma> m4) = Getting 3"
    by (auto simp: bench_runnable_def)
  then have s: "bench_at (\<sigma> (Suc m4)) = Bench_Stopping" by (elim bench_mainE) auto
  have "\<exists>m' \<ge> Suc m4. bench_at (\<sigma> (Suc m')) = Bench_Done \<and> stop_at (bench_pool (\<sigma> m')) = Joined"
    by (rule bench.stop_completes [OF run, where in_stop = "\<lambda>b. bench_at b = Bench_Stopping" and t = Main])
       (use s live bench_stopping_main bench_others in \<open>auto simp: bench_alive_def bench_runnable_def\<close>)
  then obtain m where m: "bench_at (\<sigma> m) = Bench_Done" by blast
  have c: "collected (\<sigma> m)" by (simp add: collected_def m)
  have "map jr_job_id (results (bench_pool (\<sigma> m))) = map job_id (rev [cpu_hog 0 2, cpu_hog 0 1, cpu_hog 0 0])"
    by (simp only: order_when_left [OF bench_in_order [OF r] nothing_left [OF r c]] all_submitted [OF r c])
  also have "\<dots> = [1, 2, 3]" by simp
  finally show ?thesis using m by (intro exI [of _ m] conjI)
qed

section \<open>A run\<close>

text \<open>
  The three jobs cannot be started, and fail one after the other. The state is given by how many
  jobs were enqueued, taken from the queue, reported and completed.
\<close>

definition bench_state :: "nat \<Rightarrow> nat \<Rightarrow> nat \<Rightarrow> nat \<Rightarrow> bool \<Rightarrow> bool \<Rightarrow> worker \<Rightarrow> stop_phase \<Rightarrow> bench_phase \<Rightarrow> bench" where
  "bench_state n t r d run stopped w st x =
     \<lparr>bench_pool = \<lparr>job_queue_ref = (new_queue FCFS)\<lparr>queued_jobs := map (cpu_hog 0) [t..<n], stopping := stopped\<rparr>,
        running = run, workers = [w], stop_at = st,
        results = map (\<lambda>i. make_result (cpu_hog 0 i) new_execution_result) [0..<r],
        promises = (\<lambda>i. if i < d then Some 1 else None), submitted = rev (map (cpu_hog 0) [0..<n]),
        completed = rev (map (\<lambda>i. (cpu_hog 0 i, new_execution_result)) [0..<d]), death = None\<rparr>,
      bench_at = x\<rparr>"

abbreviation busy_state :: "nat \<Rightarrow> nat \<Rightarrow> nat \<Rightarrow> nat \<Rightarrow> worker \<Rightarrow> bench_phase \<Rightarrow> bench" where
  "busy_state n t r d w x \<equiv> bench_state n t r d True False w Not_Stopping x"

abbreviation stopping_state :: "bool \<Rightarrow> worker \<Rightarrow> stop_phase \<Rightarrow> bench_phase \<Rightarrow> bench" where
  "stopping_state stopped w st x \<equiv> bench_state 3 3 3 3 False stopped w st x"

text \<open>The four steps of the worker for job number \<open>i\<close>.\<close>

definition serving :: "nat \<Rightarrow> bench list" where
  "serving i = [busy_state 3 i i i Loop_Head (Getting 0), busy_state 3 i i i Enter_Dequeue (Getting 0),
     busy_state 3 (Suc i) i i (Executing (cpu_hog 0 i)) (Getting 0),
     busy_state 3 (Suc i) (Suc i) i (Reported (cpu_hog 0 i) new_execution_result) (Getting 0)]"

definition bench_states :: "bench list" where
  "bench_states =
     map (\<lambda>i. busy_state i 0 0 0 Loop_Head (Enqueueing i)) [0, 1, 2, 3] @ serving 0 @ serving 1 @ serving 2 @
     map (\<lambda>i. busy_state 3 3 3 3 Loop_Head (Getting i)) [0, 1, 2, 3] @
     [stopping_state False Loop_Head Running_Cleared Bench_Stopping,
      stopping_state True Loop_Head Queue_Stopped Bench_Stopping,
      stopping_state True Loop_Head Joining Bench_Stopping,
      stopping_state True Exited Joining Bench_Stopping,
      stopping_state True Exited Joined Bench_Stopping,
      stopping_state True Exited Joined Bench_Done]"

definition bench_threads :: "thread list" where
  "bench_threads = replicate 4 Main @ replicate 12 (Worker 0) @ replicate 3 Main @ [Main, Main, Main, Worker 0, Main, Main]"

definition bench_run :: "nat \<Rightarrow> bench" where
  "bench_run m = bench_states ! min m 25"

definition bench_schedule :: "nat \<Rightarrow> thread option" where
  "bench_schedule m = (if m < 25 then Some (bench_threads ! m) else None)"

lemma cpu_hog_executes:
  assumes "i < 3"
  shows "executes bench_factories (cpu_hog 0 i) (cpu_hog 0 i) new_execution_result"
proof -
  have "list_all (\<lambda>i. fst (run_state (execute refusing_kernel 1 bench_factories (cpu_hog 0 i)) \<lparr>trace = [], file_counter = 0\<rparr>)
      = Some (executed new_execution_result (cpu_hog 0 i) Exec_Returned)) [0, 1, 2]"
    by code_simp
  moreover have "i \<in> {0, 1, 2}" using assms by auto
  ultimately have "fst (run_state (execute refusing_kernel 1 bench_factories (cpu_hog 0 i)) \<lparr>trace = [], file_counter = 0\<rparr>)
      = Some (executed new_execution_result (cpu_hog 0 i) Exec_Returned)" by auto
  then show ?thesis unfolding executes_def by blast
qed

lemma bench_state_sel [simp]:
  "bench_alive (bench_state n t r d run stopped w st x)" "bench_at (bench_state n t r d run stopped w st x) = x"
  "workers (bench_pool (bench_state n t r d run stopped w st x)) = [w]"
  "promises (bench_pool (bench_state n t r d run stopped w st x)) = (\<lambda>i. if i < d then Some 1 else None)"
  "stop_at (bench_pool (bench_state n t r d run stopped w st x)) = st"
  "death (bench_pool (bench_state n t r d run stopped w st x)) = None"
  by (simp_all add: bench_state_def bench_alive_def)

lemma bench_worker_moves:
  assumes "bench_alive b" and "worker_step bench_factories bench_observers i (bench_pool b) p" and "b' = b\<lparr>bench_pool := p\<rparr>"
  shows "bench_step q (Worker i) b b'"
  using bench_step.works [OF assms(1,2)] assms(3) by simp

lemma bench_stop_moves:
  assumes "bench_at b = Bench_Stopping" and "bench_alive b" and "pool_step (bench_pool b) p"
    and "stop_at p \<noteq> stop_at (bench_pool b)" and "b' = b\<lparr>bench_pool := p\<rparr>"
  shows "bench_step q Main b b'"
  using bench_step.stops [OF assms(2,1,3,4)] assms(5) by simp

lemma bench_serves:
  assumes "i < 3" and "k < 4"
  shows "bench_step 0 (Worker 0) (serving i ! k) ((serving i @ [busy_state 3 (Suc i) (Suc i) (Suc i) Loop_Head (Getting 0)]) ! Suc k)"
proof -
  let ?step = "bench_step 0 (Worker 0)" and ?r = new_execution_result
  note s = bench_state_def
  have q: "map (cpu_hog 0) [i..<3] = cpu_hog 0 i # map (cpu_hog 0) [Suc i..<3]" using assms(1) by (simp add: upt_conv_Cons)
  have 0: "?step (busy_state 3 i i i Loop_Head (Getting 0)) (busy_state 3 i i i Enter_Dequeue (Getting 0))"
    by (rule bench_worker_moves [OF _ worker_step.tests]) (simp_all add: s loop_test_def bench_alive_def)
  have 1: "?step (busy_state 3 i i i Enter_Dequeue (Getting 0)) (busy_state 3 (Suc i) i i (Executing (cpu_hog 0 i)) (Getting 0))"
    by (rule bench_worker_moves [OF _ worker_step.takes])
       (simp_all add: s q try_dequeue_def dequeue_def FCFS_getNextJob_def new_queue_def bench_alive_def del: upt_Suc)
  have 2: "?step (busy_state 3 (Suc i) i i (Executing (cpu_hog 0 i)) (Getting 0))
      (busy_state 3 (Suc i) (Suc i) i (Reported (cpu_hog 0 i) ?r) (Getting 0))"
    by (rule bench_worker_moves [OF _ worker_step.reports [OF _ _ _ cpu_hog_executes [OF assms(1)]]])
       (simp_all add: s report_def new_execution_result_def collects_def onResult_def Logging_onResult_def bench_alive_def
          bench_observers_def addObserver_def)
  have 3: "?step (busy_state 3 (Suc i) (Suc i) i (Reported (cpu_hog 0 i) ?r) (Getting 0))
      (busy_state 3 (Suc i) (Suc i) (Suc i) Loop_Head (Getting 0))"
    by (rule bench_worker_moves [OF _ worker_step.fulfils [where j = "cpu_hog 0 i" and r = ?r]])
       (auto simp: s fulfil_def promise_value_def new_execution_result_def bench_alive_def fun_eq_iff)
  from assms(2) have "k = 0 \<or> k = 1 \<or> k = 2 \<or> k = 3" by auto
  then show ?thesis using 0 1 2 3 by (elim disjE) (simp_all add: serving_def)
qed

lemma bench_enqueues:
  assumes "i < 3"
  shows "bench_step 0 Main (busy_state i 0 0 0 Loop_Head (Enqueueing i)) (busy_state (Suc i) 0 0 0 Loop_Head (Enqueueing (Suc i)))"
  using bench_step.enqueues [of "busy_state i 0 0 0 Loop_Head (Enqueueing i)" i "[Loop_Head]" 0] assms
  by (simp add: bench_state_def hand_over_def notify_one.nobody enqueue_def FCFS_addJob_def new_queue_def bench_alive_def)

lemma bench_awaits:
  assumes "i < 3"
  shows "bench_step 0 Main (busy_state 3 3 3 3 Loop_Head (Getting i)) (busy_state 3 3 3 3 Loop_Head (Getting (Suc i)))"
  using bench_step.gets [of "busy_state 3 3 3 3 Loop_Head (Getting i)" i 0] assms by (simp add: bench_state_def bench_alive_def)

lemma bench_closes:
  assumes "k < 6"
  shows "bench_step 0 ([Main, Main, Main, Worker 0, Main, Main] ! k) (bench_states ! (19 + k)) (bench_states ! (20 + k))"
proof -
  note s = bench_state_def bench_alive_def
  have 0: "bench_step 0 Main (busy_state 3 3 3 3 Loop_Head (Getting 3)) (stopping_state False Loop_Head Running_Cleared Bench_Stopping)"
    using bench_step.begins_stop [OF _ _ pool_step.stop_clear [of "bench_pool (busy_state 3 3 3 3 Loop_Head (Getting 3))"], of 0]
    by (simp add: s)
  have 1: "bench_step 0 Main (stopping_state False Loop_Head Running_Cleared Bench_Stopping)
      (stopping_state True Loop_Head Queue_Stopped Bench_Stopping)"
    by (rule bench_stop_moves [OF _ _ pool_step.stop_queue_flag]) (simp_all add: s stop_queue_def)
  have 2: "bench_step 0 Main (stopping_state True Loop_Head Queue_Stopped Bench_Stopping)
      (stopping_state True Loop_Head Joining Bench_Stopping)"
    by (rule bench_stop_moves [OF _ _ pool_step.stop_notify]) (simp_all add: s notify_all_def)
  have 3: "bench_step 0 (Worker 0) (stopping_state True Loop_Head Joining Bench_Stopping) (stopping_state True Exited Joining Bench_Stopping)"
    by (rule bench_worker_moves [OF _ worker_step.tests]) (simp_all add: s loop_test_def)
  have 4: "bench_step 0 Main (stopping_state True Exited Joining Bench_Stopping) (stopping_state True Exited Joined Bench_Stopping)"
    by (rule bench_stop_moves [OF _ _ pool_step.stop_join]) (simp_all add: s)
  have 5: "bench_step 0 Main (stopping_state True Exited Joined Bench_Stopping) (stopping_state True Exited Joined Bench_Done)"
    using bench_step.returns [of "stopping_state True Exited Joined Bench_Stopping" 0] by (simp add: s)
  from assms have "k = 0 \<or> k = 1 \<or> k = 2 \<or> k = 3 \<or> k = 4 \<or> k = 5" by auto
  then show ?thesis using 0 1 2 3 4 5 by (elim disjE) (simp_all add: bench_states_def serving_def)
qed

lemma bench_steps:
  assumes "m < 25"
  shows "bench_step 0 (bench_threads ! m) (bench_states ! m) (bench_states ! Suc m)"
proof (cases "m < 19")
  case False
  then obtain k where m: "m = 19 + k" by (metis le_iff_add not_less)
  have "bench_threads ! (19 + k) = [Main, Main, Main, Worker 0, Main, Main] ! k"
    by (simp add: bench_threads_def nth_append)
  with bench_closes [of k] assms show ?thesis by (simp add: m)
next
  case True
  have l: "bench_step 0 Main (busy_state 3 0 0 0 Loop_Head (Enqueueing 3)) (busy_state 3 0 0 0 Loop_Head (Getting 0))"
    using bench_step.loops [of "busy_state 3 0 0 0 Loop_Head (Enqueueing 3)" 0] by (simp add: bench_state_def bench_alive_def)
  have t: "bench_threads = Main # Main # Main # Main # Worker 0 # Worker 0 # Worker 0 # Worker 0 # Worker 0 # Worker 0 #
      Worker 0 # Worker 0 # Worker 0 # Worker 0 # Worker 0 # Worker 0 #
      [Main, Main, Main, Main, Main, Main, Worker 0, Main, Main]" by code_simp
  have "[0..<19] = [0, 1, 2, 3, 4, 5, 6, 7, 8, 9, 10, 11, 12, 13, 14, 15, 16, 17, 18]" by code_simp
  moreover from True have "m \<in> set [0..<19]" by simp
  ultimately have "m \<in> {0, 1, 2, 3, 4, 5, 6, 7, 8, 9, 10, 11, 12, 13, 14, 15, 16, 17, 18}" by simp
  then show ?thesis
    using bench_enqueues [of 0] bench_enqueues [of 1] bench_enqueues [of 2] l
      bench_serves [of 0 0] bench_serves [of 0 1] bench_serves [of 0 2] bench_serves [of 0 3]
      bench_serves [of 1 0] bench_serves [of 1 1] bench_serves [of 1 2] bench_serves [of 1 3]
      bench_serves [of 2 0] bench_serves [of 2 1] bench_serves [of 2 2] bench_serves [of 2 3]
      bench_awaits [of 0] bench_awaits [of 1] bench_awaits [of 2]
    by (elim insertE emptyE) (simp_all add: bench_states_def t serving_def numeral_2_eq_2 [symmetric])
qed

lemma bench_fair: "fair_run (bench_step 0) bench_runnable (new_bench FCFS) bench_run bench_schedule"
  unfolding fair_run_def
proof (intro conjI allI)
  show "bench_run 0 = new_bench FCFS"
    by (simp add: bench_run_def bench_states_def bench_state_def new_bench_def start_def new_pool_def new_queue_def fun_eq_iff)
next
  fix m
  show "case bench_schedule m of None \<Rightarrow> bench_run (Suc m) = bench_run m
      | Some t \<Rightarrow> bench_step 0 t (bench_run m) (bench_run (Suc m))"
    using bench_steps [of m] by (simp add: bench_schedule_def bench_run_def min_def)
next
  fix t m
  have "bench_run (max m 25) = stopping_state True Exited Joined Bench_Done"
    by (simp add: bench_run_def bench_states_def serving_def)
  then have "\<not> bench_runnable (bench_run (max m 25)) t"
    by (cases t) (simp_all add: bench_runnable_def worker_runnable_def nth_Cons split: nat.split)
  then show "\<exists>m' \<ge> m. bench_schedule m' = Some t \<or> \<not> bench_runnable (bench_run m') t"
    by (intro exI [of _ "max m 25"]) simp
qed

lemma bench_run_alive: "bench_alive (bench_run m)"
proof -
  have "list_all bench_alive bench_states" by (simp add: bench_states_def serving_def)
  moreover have "length bench_states = 26" by (simp add: bench_states_def serving_def)
  ultimately show ?thesis by (simp add: bench_run_def list_all_length)
qed

theorem bench_fcfs_finishes_witness:
  "\<exists>m. bench_at (bench_run m) = Bench_Done \<and> map jr_job_id (results (bench_pool (bench_run m))) = [1, 2, 3]"
  by (rule bench_fcfs_finishes [OF bench_fair bench_run_alive])

theorem bench_reports_each_once_witness:
  "bench_at (bench_run 25) = Bench_Done \<and> mset (map jr_job_id (results (bench_pool (bench_run 25)))) = {#1, 2, 3#}"
proof -
  have d: "bench_at (bench_run 25) = Bench_Done" by (simp add: bench_run_def bench_states_def serving_def)
  have "reachable_bench 0 FCFS (bench_run 25)"
    unfolding reachable_bench_def by (rule bench.run_reaches [OF bench_fair])
  from bench_reports_each_once [OF this] d show ?thesis by (simp add: collected_def)
qed

end
